(* ===== verification/NC_Prelude.thy ===== *)
theory NC_Prelude
  imports Main "HOL-Library.Word"
begin

text \<open>
  Shared vocabulary of the development: the machine integer types of the Rust sources, the
  standard-library operations the sources use on slices and integers (checked indexing, range
  indexing, saturating addition, little-endian decoding, population count), and the generic
  lemmas about them that the component theories rely on.

  A slice \<open>&[T]\<close> is a list.  An index or an offset (\<open>usize\<close>) is a \<open>nat\<close>: a slice never holds
  more than \<open>isize::MAX\<close> bytes, so the offsets formed from it stay far below the width of
  \<open>usize\<close>; where the sources use a checked addition on such an offset, the check cannot fail.
  Values that the sources mask, shift or let wrap are words of their width.
\<close>

unbundle bit_operations_syntax

type_synonym u8 = "8 word"
type_synonym u16 = "16 word"
type_synonym u32 = "32 word"
type_synonym u64 = "64 word"

text \<open>The single-bit mask \<open>1 << i\<close>.\<close>

definition shl1 :: "nat \<Rightarrow> 'a::len word" where
  "shl1 i = push_bit i 1"

lemma bit_shl1_iff [bit_simps]: "bit (shl1 i :: 'a::len word) n \<longleftrightarrow> n = i \<and> i < LENGTH('a)"
  by (auto simp: shl1_def bit_push_bit_iff bit_1_iff simp del: push_bit_of_1)

text \<open>
  Collections that the component proofs draw on: what a computation over the integrity counters
  returns, the byte-reading steps that move a cursor forward inside a slice, and the unfoldings of
  the monadic plumbing.
\<close>

named_theorems run_simps \<open>results of computations over the integrity counters\<close>
named_theorems advance_simps \<open>how far a successful reading step moves\<close>

section \<open>Slices\<close>

text \<open>\<open>slice.get(i)\<close> and \<open>slice.get(a..b)\<close> and \<open>slice.get(a..)\<close>.\<close>

definition get_at :: "'a list \<Rightarrow> nat \<Rightarrow> 'a option" where
  "get_at xs i = (if i < length xs then Some (xs ! i) else None)"

definition get_range :: "'a list \<Rightarrow> nat \<Rightarrow> nat \<Rightarrow> 'a list option" where
  "get_range xs a b = (if a \<le> b \<and> b \<le> length xs then Some (take (b - a) (drop a xs)) else None)"

definition get_from :: "'a list \<Rightarrow> nat \<Rightarrow> 'a list option" where
  "get_from xs a = (if a \<le> length xs then Some (drop a xs) else None)"

lemma get_at_Some_iff [simp]: "get_at xs i = Some x \<longleftrightarrow> i < length xs \<and> x = xs ! i"
  by (auto simp: get_at_def)

lemma get_at_None_iff [simp]: "get_at xs i = None \<longleftrightarrow> length xs \<le> i"
  by (auto simp: get_at_def)

lemma get_range_Some_iff:
  "get_range xs a b = Some ys \<longleftrightarrow> a \<le> b \<and> b \<le> length xs \<and> ys = take (b - a) (drop a xs)"
  by (auto simp: get_range_def)

lemma get_range_length: "get_range xs a b = Some ys \<Longrightarrow> length ys = b - a"
  by (auto simp: get_range_Some_iff)

lemma get_range_bounds: "get_range xs a b = Some ys \<Longrightarrow> a \<le> b \<and> b \<le> length xs"
  by (auto simp: get_range_Some_iff)

lemma get_range_nth: "get_range xs a b = Some ys \<Longrightarrow> i < b - a \<Longrightarrow> ys ! i = xs ! (a + i)"
  by (auto simp: get_range_Some_iff)

lemma get_from_Some_iff: "get_from xs a = Some ys \<longleftrightarrow> a \<le> length xs \<and> ys = drop a xs"
  by (auto simp: get_from_def)

text \<open>The bytes found at a position, and how a sequence of them splits.\<close>

definition holds :: "'a list \<Rightarrow> nat \<Rightarrow> 'a list \<Rightarrow> bool" where
  "holds xs at ys \<longleftrightarrow> get_range xs at (at + length ys) = Some ys"

lemma holds_iff: "holds xs at ys \<longleftrightarrow> at + length ys \<le> length xs \<and> take (length ys) (drop at xs) = ys"
  by (auto simp: holds_def get_range_Some_iff)

lemma holds_append [simp]:
  "holds xs at (ys @ zs) \<longleftrightarrow> holds xs at ys \<and> holds xs (at + length ys) zs"
proof -
  have "take (length ys + length zs) (drop at xs) = take (length ys) (drop at xs) @ take (length zs) (drop (at + length ys) xs)"
    by (simp add: take_add add.commute)
  then show ?thesis by (auto simp: holds_iff append_eq_append_conv_if append_eq_append_conv min_def split: if_splits)
qed

lemma holds_Cons: "holds xs at (y # ys) \<longleftrightarrow> at < length xs \<and> xs ! at = y \<and> holds xs (Suc at) ys"
proof -
  have "holds xs at [y] \<longleftrightarrow> at < length xs \<and> xs ! at = y"
    by (auto simp: holds_iff take_Suc_conv_app_nth hd_drop_conv_nth take_Suc)
  then show ?thesis using holds_append [of xs at "[y]" ys] by simp
qed

lemma holds_Nil [simp]: "holds xs at [] \<longleftrightarrow> at \<le> length xs"
  by (simp add: holds_iff)

lemma holds_slice: "holds (pre @ ys @ post) (length pre) ys"
  by (simp add: holds_iff)

section \<open>Integers\<close>

definition saturating_add :: "'a::len word \<Rightarrow> 'a word \<Rightarrow> 'a word" where
  "saturating_add a b = (if unat a + unat b < 2 ^ LENGTH('a) then a + b else - 1)"

definition saturating_sub :: "'a::len word \<Rightarrow> 'a word \<Rightarrow> 'a word" where
  "saturating_sub a b = (if b \<le> a then a - b else 0)"

lemma unat_saturating_add:
  "unat (saturating_add a b) = min (unat a + unat b) (2 ^ LENGTH('a) - 1)" for a b :: "'a::len word"
proof (cases "unat a + unat b < 2 ^ LENGTH('a)")
  case True
  then show ?thesis by (simp add: saturating_add_def unat_word_ariths)
next
  case False
  then show ?thesis by (simp add: saturating_add_def unsigned_minus_1_eq_mask mask_eq_exp_minus_1)
qed

lemma saturating_add_0 [simp]:
  "saturating_add 0 a = a" "saturating_add a 0 = a" for a :: "'a::len word"
  by (simp_all add: saturating_add_def)

lemma saturating_add_ge: "a \<le> saturating_add a b" for a b :: "'a::len word"
proof -
  have "unat a < 2 ^ LENGTH('a)" by (rule unsigned_less)
  then have "unat a \<le> 2 ^ LENGTH('a) - 1" by linarith
  then show ?thesis by (simp add: word_le_nat_alt unat_saturating_add)
qed

section \<open>Population count\<close>

text \<open>\<open>count_ones()\<close>: how many bits of the word are set.\<close>

definition count_ones :: "'a::len word \<Rightarrow> nat" where
  "count_ones w = length (filter (bit w) [0..<LENGTH('a)])"

lemma odd_length_filter_neq:
  "odd (length (filter (\<lambda>n. P n \<noteq> Q n) ns)) \<longleftrightarrow>
     odd (length (filter P ns)) \<noteq> odd (length (filter Q ns))"
  by (induction ns) auto

text \<open>The parity of the count is additive over exclusive or.\<close>

lemma odd_count_ones_xor:
  "odd (count_ones (a XOR b)) \<longleftrightarrow> odd (count_ones a) \<noteq> odd (count_ones b)" for a b :: "'a::len word"
proof -
  have "filter (bit (a XOR b)) ns = filter (\<lambda>n. bit a n \<noteq> bit b n) ns" for ns
    by (intro filter_cong refl) (simp add: bit_xor_iff)
  then show ?thesis
    unfolding count_ones_def by (simp only: odd_length_filter_neq)
qed

lemma even_count_ones_xor [simp]:
  "even (count_ones (a XOR b)) \<longleftrightarrow> (even (count_ones a) \<longleftrightarrow> even (count_ones b))" for a b :: "'a::len word"
  using odd_count_ones_xor [of a b] by auto

lemma count_ones_0 [simp]: "count_ones (0 :: 'a::len word) = 0"
  by (simp add: count_ones_def)

lemma count_ones_single:
  assumes "i < LENGTH('a)"
  shows "count_ones (shl1 i :: 'a::len word) = 1"
proof -
  have "filter (bit (shl1 i :: 'a word)) [0..<LENGTH('a)] = filter (\<lambda>n. n = i) [0..<LENGTH('a)]"
    by (rule filter_cong [OF refl]) (use assms in \<open>auto simp: bit_shl1_iff\<close>)
  also have "length \<dots> = 1"
    using assms by (simp add: distinct_length_filter Int_absorb1 flip: set_upt)
      (simp add: Collect_conv_if Int_def)
  finally show ?thesis by (simp add: count_ones_def)
qed

text \<open>A single-bit word meets a mask in one bit or in none.\<close>

lemma single_and_mask:
  "shl1 i AND m = (if bit m i then shl1 i else 0)" for m :: "'a::len word"
  by (rule bit_word_eqI) (auto simp: bit_simps)

text \<open>\<open>w >> n & 1 != 0\<close>.\<close>

lemma drop_bit_and_1: "drop_bit n w AND 1 \<noteq> 0 \<longleftrightarrow> bit w n" for w :: "'a::len word"
  by (simp add: and_one_eq mod_2_eq_odd even_drop_bit_iff_not_bit)

lemma drop_bit_and_1_eq: "drop_bit n w AND 1 = 0 \<longleftrightarrow> \<not> bit w n" for w :: "'a::len word"
  using drop_bit_and_1 [of n w] by blast

lemma below_8: "i < 8 \<Longrightarrow> i = 0 \<or> i = 1 \<or> i = 2 \<or> i = 3 \<or> i = 4 \<or> i = 5 \<or> i = 6 \<or> i = 7" for i :: nat
  by arith

lemma bit_80 [simp]: "bit (0x80 :: u8) n \<longleftrightarrow> n = 7"
proof (cases "n < 8")
  case True
  then show ?thesis by (auto dest!: below_8)
next
  case False
  then show ?thesis by (auto dest: bit_imp_le_length)
qed

section \<open>Little-endian decoding\<close>

text \<open>
  \<open>value |= (byte as T) << (8 * i)\<close> over the bytes of a slice, and \<open>from_le_bytes\<close>, which is
  the same function at a fixed number of bytes.
\<close>

fun le_from :: "nat \<Rightarrow> u8 list \<Rightarrow> 'a::len word" where
  "le_from i [] = 0"
| "le_from i (b # bs) = push_bit (8 * i) (ucast b) OR le_from (Suc i) bs"

definition le_word :: "u8 list \<Rightarrow> 'a::len word" where
  "le_word bs = le_from 0 bs"

lemma le_from_shift: "le_from (Suc i) bs = (push_bit 8 (le_from i bs) :: 'a::len word)"
proof (induction bs arbitrary: i)
  case Nil
  then show ?case by simp
next
  case (Cons b bs)
  have "push_bit (8 * Suc i) (ucast b) = (push_bit 8 (push_bit (8 * i) (ucast b)) :: 'a word)"
    by (simp add: push_bit_push_bit)
  with Cons show ?case by (simp only: le_from.simps push_bit_or)
qed

lemma le_word_Nil [simp]: "le_word [] = 0"
  by (simp add: le_word_def)

lemma le_word_Cons: "le_word (b # bs) = (ucast b OR push_bit 8 (le_word bs) :: 'a::len word)"
  by (simp add: le_word_def le_from_shift)

text \<open>The little-endian digits of a word, least significant first (\<open>to_le_bytes\<close>).\<close>

fun le_bytes :: "nat \<Rightarrow> 'a::len word \<Rightarrow> u8 list" where
  "le_bytes 0 w = []"
| "le_bytes (Suc n) w = ucast w # le_bytes n (drop_bit 8 w)"

lemma length_le_bytes [simp]: "length (le_bytes n w) = n"
  by (induction n arbitrary: w) auto

lemma ucast_or_push_bit_8: "ucast (ucast w :: u8) OR push_bit 8 (drop_bit 8 w) = w"
  for w :: "'a::len word"
proof (rule bit_word_eqI)
  fix n assume n: "n < LENGTH('a)"
  show "bit (ucast (ucast w :: u8) OR push_bit 8 (drop_bit 8 w)) n = bit w n"
    using n by (cases "n < 8") (auto simp: bit_simps)
qed

lemma le_word_le_bytes_take: "le_word (le_bytes n w) = take_bit (8 * n) w" for w :: "'a::len word"
proof (induction n arbitrary: w)
  case 0
  then show ?case by simp
next
  case (Suc n)
  have "le_word (le_bytes (Suc n) w) = ucast (ucast w :: u8) OR push_bit 8 (take_bit (8 * n) (drop_bit 8 w))"
    by (simp add: le_word_Cons Suc)
  also have "\<dots> = take_bit (8 * Suc n) w"
    by (rule bit_word_eqI) (auto simp: bit_simps)
  finally show ?case .
qed

lemma le_word_le_bytes: "LENGTH('a) \<le> 8 * n \<Longrightarrow> le_word (le_bytes n w) = (w :: 'a::len word)"
  by (simp add: le_word_le_bytes_take take_bit_word_eq_self)

lemma take_bit_small:
  assumes "unat w < 2 ^ n"
  shows "take_bit n w = (w :: 'a::len word)"
proof -
  have "unat (take_bit n w) = unat w"
    using assms by (simp add: unsigned_take_bit_eq take_bit_nat_eq_self)
  then show ?thesis by (rule word_unat_eq_iff [THEN iffD2])
qed

lemma small_bits: "unat w < 2 ^ n \<Longrightarrow> bit w j \<Longrightarrow> j < n" for w :: "'a::len word"
  by (metis bit_take_bit_iff take_bit_small)

lemma le_word_le_bytes_less: "unat w < 2 ^ (8 * n) \<Longrightarrow> le_word (le_bytes n w) = (w :: 'a::len word)"
  by (simp add: le_word_le_bytes_take take_bit_small)

text \<open>Decoding \<open>n\<close> bytes gives a value below \<open>2 ^ (8 * n)\<close>.\<close>

lemma le_word_take_bit: "take_bit (8 * length bs) (le_word bs) = (le_word bs :: 'a::len word)"
proof (induction bs)
  case Nil
  then show ?case by simp
next
  case (Cons b bs)
  have "take_bit (8 * length (b # bs)) (le_word (b # bs) :: 'a word) =
      ucast b OR push_bit 8 (take_bit (8 * length bs) (le_word bs))"
    unfolding le_word_Cons
    by (rule bit_word_eqI) (auto simp: bit_simps dest: bit_imp_le_length)
  then show ?case by (simp add: Cons le_word_Cons)
qed

lemma le_word_less:
  assumes "8 * length bs < LENGTH('a)"
  shows "unat (le_word bs :: 'a::len word) < 2 ^ (8 * length bs)"
proof -
  have "unat (le_word bs :: 'a word) = unat (take_bit (8 * length bs) (le_word bs :: 'a word))"
    by (simp only: le_word_take_bit)
  also have "\<dots> = take_bit (8 * length bs) (unat (le_word bs :: 'a word))"
    by (simp add: unsigned_take_bit_eq)
  also have "\<dots> < 2 ^ (8 * length bs)"
    by (rule take_bit_nat_less_exp)
  finally show ?thesis .
qed

text \<open>The checks against a decoded header field compare \<open>nat\<close>s.\<close>

definition le_nat :: "u8 list \<Rightarrow> nat" where
  "le_nat bs = unat (le_word bs :: u64)"

section \<open>Lists\<close>

text \<open>\<open>iter().position(p)\<close>.\<close>

fun iter_position :: "('a \<Rightarrow> bool) \<Rightarrow> 'a list \<Rightarrow> nat option" where
  "iter_position p [] = None"
| "iter_position p (x # xs) = (if p x then Some 0 else map_option Suc (iter_position p xs))"

lemma iter_position_Some:
  "iter_position p xs = Some i \<Longrightarrow> i < length xs \<and> p (xs ! i) \<and> (\<forall>j<i. \<not> p (xs ! j))"
proof (induction xs arbitrary: i)
  case Nil
  then show ?case by simp
next
  case (Cons x xs)
  show ?case
  proof (cases "p x")
    case True
    with Cons.prems show ?thesis by simp
  next
    case False
    with Cons.prems obtain k where k: "iter_position p xs = Some k" "i = Suc k" by auto
    with Cons.IH [of k] False show ?thesis
      by (auto simp: less_Suc_eq_0_disj)
  qed
qed

lemma iter_position_None: "iter_position p xs = None \<longleftrightarrow> (\<forall>x\<in>set xs. \<not> p x)"
  by (induction xs) auto

lemma list_update_length_le [simp]: "length (xs[i := x]) \<le> n \<longleftrightarrow> length xs \<le> n"
  by simp

end
