(* ===== verification/Hamming_Secded.thy ===== *)
theory Hamming_Secded
  imports NC_Prelude
begin

text \<open>
  The Hamming(72,64) SECDED code of \<open>crates/nanochrono-core/src/redundancy.rs\<close>: codeword
  positions, the parity masks built at compile time, the check byte and the decoder.  The lemmas
  give the linear-algebra view of the code (a flip adds a column to the syndrome and toggles the
  overall parity) from which single-error correction and double-error detection follow.
\<close>

section \<open>Hamming(72,64) SECDED\<close>

text \<open>Codeword positions are 1-indexed; powers of two hold parity, the rest data.\<close>

definition CODEWORD_LEN :: nat where
  "CODEWORD_LEN = 71"

definition is_parity_position :: "nat \<Rightarrow> bool" where
  "is_parity_position position \<longleftrightarrow> count_ones (of_nat position :: u32) = 1"

function data_position_loop :: "nat \<Rightarrow> nat \<Rightarrow> nat \<Rightarrow> nat" where
  "data_position_loop index seen position =
     (if position \<le> CODEWORD_LEN then
        if \<not> is_parity_position position then
          if seen = index then position
          else data_position_loop index (seen + 1) (position + 1)
        else data_position_loop index seen (position + 1)
      else 0)"
  by pat_completeness auto
termination
  by (relation "measure (\<lambda>(index, seen, position). Suc CODEWORD_LEN - position)") auto

declare data_position_loop.simps [simp del]

definition data_position :: "nat \<Rightarrow> nat" where
  "data_position index = data_position_loop index 0 1"

definition set_mask_bits :: "nat \<Rightarrow> u64 list \<Rightarrow> u64 list" where
  "set_mask_bits index masks =
     (let position = data_position index
      in map (\<lambda>k. if bit position k then masks ! k OR shl1 index else masks ! k) [0..<7])"

definition build_parity_masks :: "u64 list" where
  "build_parity_masks = fold set_mask_bits [0..<64] (replicate 7 0)"

definition position_to_data_index :: "nat \<Rightarrow> nat option" where
  "position_to_data_index position =
     (if position = 0 \<or> position > CODEWORD_LEN \<or> is_parity_position position then None
      else Some (length (filter (\<lambda>p. \<not> is_parity_position p) [1..<position])))"

definition hamming_parities :: "u64 \<Rightarrow> u8" where
  "hamming_parities data =
     fold (\<lambda>k parity. parity OR push_bit k (of_nat (count_ones (data AND build_parity_masks ! k) mod 2)))
       [0..<7] 0"

definition check_bits :: "u64 \<Rightarrow> u8" where
  "check_bits data =
     (let parity = hamming_parities data;
          overall = (count_ones data + count_ones parity) mod 2
      in parity OR push_bit 7 (of_nat overall))"

datatype decoded =
    DClean
  | DCorrected u64 nat
  | DDoubleError

definition decode :: "u64 \<Rightarrow> u8 \<Rightarrow> decoded" where
  "decode data stored =
     (let stored_parities = stored AND 0x7F;
          stored_overall = drop_bit 7 stored AND 1;
          syndrome = unat (hamming_parities data XOR stored_parities);
          received_overall = of_nat ((count_ones data + count_ones stored_parities) mod 2);
          overall_differs = (received_overall \<noteq> stored_overall)
      in if syndrome = 0 \<and> \<not> overall_differs then DClean
         else if syndrome = 0 \<and> overall_differs then DCorrected data 72
         else if overall_differs then
           (case position_to_data_index syndrome of
              Some index \<Rightarrow> DCorrected (data XOR shl1 index) index
            | None \<Rightarrow> DCorrected data (64 + syndrome))
         else DDoubleError)"


section \<open>The code as a linear code\<close>

definition data_positions :: "nat list" where
  "data_positions = filter (\<lambda>p. \<not> is_parity_position p) [1..<Suc CODEWORD_LEN]"

lemma data_positions_eq:
  "data_positions =
    [3, 5, 6, 7, 9, 10, 11, 12, 13, 14, 15, 17, 18, 19, 20, 21, 22, 23, 24, 25, 26, 27, 28, 29, 30,
     31, 33, 34, 35, 36, 37, 38, 39, 40, 41, 42, 43, 44, 45, 46, 47, 48, 49, 50, 51, 52, 53, 54, 55,
     56, 57, 58, 59, 60, 61, 62, 63, 65, 66, 67, 68, 69, 70, 71]"
  by code_simp

lemma data_position_loop_nth:
  assumes "seen \<le> index" and "index - seen < length (filter (\<lambda>p. \<not> is_parity_position p) [position..<Suc CODEWORD_LEN])"
  shows "data_position_loop index seen position =
    filter (\<lambda>p. \<not> is_parity_position p) [position..<Suc CODEWORD_LEN] ! (index - seen)"
  using assms
proof (induction index seen position rule: data_position_loop.induct)
  case (1 index seen position)
  let ?D = "\<lambda>p. filter (\<lambda>p. \<not> is_parity_position p) [p..<Suc CODEWORD_LEN]"
  show ?case
  proof (cases "position \<le> CODEWORD_LEN")
    case False
    with "1.prems" show ?thesis by simp
  next
    case True
    then have up: "[position..<Suc CODEWORD_LEN] = position # [Suc position..<Suc CODEWORD_LEN]"
      by (simp add: upt_conv_Cons)
    show ?thesis
    proof (cases "is_parity_position position")
      case True
      with "1.prems" "1.IH"(2) \<open>position \<le> CODEWORD_LEN\<close> show ?thesis
        by (subst data_position_loop.simps) (simp add: up del: upt_Suc)
    next
      case False
      with up have D: "?D position = position # ?D (Suc position)" by (simp del: upt_Suc)
      show ?thesis
      proof (cases "seen = index")
        case True
        with False \<open>position \<le> CODEWORD_LEN\<close> show ?thesis
          by (subst data_position_loop.simps) (simp add: D del: upt_Suc)
      next
        case neq: False
        with "1.prems" have lt: "Suc seen \<le> index" "index - Suc seen < length (?D (Suc position))"
          by (auto simp: D simp del: upt_Suc)
        with neq have "index - seen = Suc (index - Suc seen)" by simp
        with "1.IH"(1) [OF True False neq] lt False neq \<open>position \<le> CODEWORD_LEN\<close> show ?thesis
          by (subst data_position_loop.simps) (simp add: D del: upt_Suc)
      qed
    qed
  qed
qed

lemma length_data_positions [simp]: "length data_positions = 64"
  by (simp add: data_positions_eq)

lemma data_position_nth: "index < 64 \<Longrightarrow> data_position index = data_positions ! index"
  using data_position_loop_nth [of 0 index 1, folded data_positions_def]
  by (simp add: data_position_def)

lemma position_to_data_index_nth:
  assumes i: "i < 64"
  shows "position_to_data_index (data_positions ! i) = Some i"
proof -
  let ?P = "\<lambda>p. \<not> is_parity_position p"
  define p where "p = data_positions ! i"
  have "p \<in> set data_positions" using i by (simp add: p_def)
  then have p: "1 \<le> p" "p \<le> CODEWORD_LEN" "?P p"
    by (auto simp: data_positions_def simp del: upt_Suc)
  then have "[1..<Suc CODEWORD_LEN] = [1..<p] @ p # [Suc p..<Suc CODEWORD_LEN]"
    using upt_add_eq_append [of 1 p "Suc CODEWORD_LEN - p"] upt_conv_Cons [of p "Suc CODEWORD_LEN"]
    by (simp del: upt_Suc)
  then have split: "data_positions = filter ?P [1..<p] @ p # filter ?P [Suc p..<Suc CODEWORD_LEN]"
    using p by (simp add: data_positions_def del: upt_Suc)
  have "data_positions ! length (filter ?P [1..<p]) = p"
    by (subst split) (rule nth_append_length)
  moreover have "length (filter ?P [1..<p]) < 64"
    using arg_cong [OF split, of length] by simp
  moreover have "distinct data_positions" by (simp add: data_positions_def del: upt_Suc)
  ultimately have "length (filter ?P [1..<p]) = i"
    using i by (simp add: p_def nth_eq_iff_index_eq)
  with p show ?thesis by (simp add: position_to_data_index_def flip: p_def)
qed
lemma length_set_mask_bits [simp]: "length (set_mask_bits index masks) = 7"
  by (simp add: set_mask_bits_def Let_def)

lemma nth_set_mask_bits:
  "k < 7 \<Longrightarrow> set_mask_bits index masks ! k =
     (if bit (data_position index) k then masks ! k OR shl1 index else masks ! k)"
  unfolding set_mask_bits_def Let_def by (subst nth_map_upt) simp_all

lemma bit_build_parity_masks:
  assumes "k < 7"
  shows "bit (build_parity_masks ! k) i \<longleftrightarrow> i < 64 \<and> bit (data_position i) k"
proof -
  let ?M = "\<lambda>n. fold set_mask_bits [0..<n] (replicate 7 0)"
  have "bit (?M n ! k) i \<longleftrightarrow> i < n \<and> bit (data_position i) k" if "n \<le> 64" for n
    using that
  proof (induction n)
    case 0
    then show ?case using assms by simp
  next
    case (Suc n)
    have "?M (Suc n) ! k = set_mask_bits n (?M n) ! k" by simp
    also have "bit \<dots> i \<longleftrightarrow> bit (?M n ! k) i \<or> i = n \<and> bit (data_position n) k"
      unfolding nth_set_mask_bits [OF assms]
      using Suc.prems by (auto simp: bit_or_iff bit_shl1_iff)
    finally show ?case using Suc by (auto simp: less_Suc_eq)
  qed
  from this [of 64] show ?thesis by (simp add: build_parity_masks_def)
qed

lemma bit_fold_or_parity:
  "n \<le> 8 \<Longrightarrow>
     bit (fold (\<lambda>k parity. parity OR push_bit k (of_nat (f k mod 2))) [0..<n] 0 :: u8) j \<longleftrightarrow> j < n \<and> odd (f j)"
proof (induction n)
  case 0
  then show ?case by simp
next
  case (Suc n)
  have n: "bit (push_bit n (of_nat (f n mod 2)) :: u8) j \<longleftrightarrow> j = n \<and> odd (f n)"
    using Suc.prems by (cases "even (f n)") (auto simp: mod_2_eq_odd bit_push_bit_iff bit_1_iff simp del: push_bit_of_1)
  have "fold (\<lambda>k parity. parity OR push_bit k (of_nat (f k mod 2))) [0..<Suc n] (0 :: u8) =
      fold (\<lambda>k parity. parity OR push_bit k (of_nat (f k mod 2))) [0..<n] 0 OR push_bit n (of_nat (f n mod 2))"
    by simp
  then show ?case
    using Suc by (simp only: bit_or_iff n) (auto simp: less_Suc_eq)
qed

lemma bit_hamming_parities:
  "bit (hamming_parities d) j \<longleftrightarrow> j < 7 \<and> odd (count_ones (d AND build_parity_masks ! j))"
  unfolding hamming_parities_def by (rule bit_fold_or_parity) simp

lemma hamming_parities_xor: "hamming_parities (a XOR b) = hamming_parities a XOR hamming_parities b"
proof (rule bit_word_eqI)
  fix j
  have "(a XOR b) AND m = (a AND m) XOR (b AND m)" for m :: u64
    by (rule bit_word_eqI) (auto simp: bit_simps)
  then show "bit (hamming_parities (a XOR b)) j = bit (hamming_parities a XOR hamming_parities b) j"
    by (auto simp: bit_hamming_parities bit_xor_iff odd_count_ones_xor)
qed

lemma hamming_parities_single:
  assumes i: "i < 64"
  shows "hamming_parities (shl1 i) = of_nat (data_position i)"
proof (rule bit_word_eqI)
  fix j :: nat
  have "data_position i \<in> set data_positions" using i by (simp add: data_position_nth)
  then have "data_position i < 2 ^ 7" by (auto simp: data_positions_def CODEWORD_LEN_def)
  then have lt: "bit (data_position i) j \<Longrightarrow> j < 7"
    by (metis bit_take_bit_iff take_bit_nat_eq_self)
  show "bit (hamming_parities (shl1 i)) j = bit (of_nat (data_position i) :: u8) j"
  proof (cases "j < 7")
    case True
    with i show ?thesis
      by (simp add: bit_hamming_parities single_and_mask bit_build_parity_masks count_ones_single bit_of_nat_iff)
  next
    case False
    with lt show ?thesis by (auto simp: bit_hamming_parities bit_of_nat_iff)
  qed
qed

lemma hamming_parities_0 [simp]: "hamming_parities 0 = 0"
  by (rule bit_word_eqI) (simp add: bit_hamming_parities)
text \<open>
  A received word is the pair of the data and the check byte.  Flipping one of its 72 bits
  changes the syndrome by the column of that bit and always changes the overall parity.
\<close>

definition flip_codeword :: "nat \<Rightarrow> u64 \<times> u8 \<Rightarrow> u64 \<times> u8" where
  "flip_codeword j w = (if j < 64 then (fst w XOR shl1 j, snd w)
     else (fst w, snd w XOR shl1 (j - 64)))"

definition syndrome_of :: "u64 \<times> u8 \<Rightarrow> u8" where
  "syndrome_of w = hamming_parities (fst w) XOR (snd w AND 0x7F)"

definition differs_of :: "u64 \<times> u8 \<Rightarrow> bool" where
  "differs_of w \<longleftrightarrow> odd (count_ones (fst w) + count_ones (snd w AND 0x7F)) \<noteq> bit (snd w) 7"

definition column :: "nat \<Rightarrow> u8" where
  "column j = (if j < 64 then of_nat (data_position j) else if j < 71 then shl1 (j - 64) else 0)"

lemma bit_and_7F: "bit (c AND 0x7F) n \<longleftrightarrow> n < 7 \<and> bit c n" for c :: u8
proof -
  have "c AND 0x7F = take_bit 7 c" by (simp add: take_bit_eq_mask mask_eq_exp_minus_1)
  then show ?thesis by (simp only: bit_take_bit_iff)
qed

lemma decode_eq:
  "decode (fst w) (snd w) =
     (if \<not> differs_of w then if syndrome_of w = 0 then DClean else DDoubleError
      else if syndrome_of w = 0 then DCorrected (fst w) 72
      else case position_to_data_index (unat (syndrome_of w)) of
             Some index \<Rightarrow> DCorrected (fst w XOR shl1 index) index
           | None \<Rightarrow> DCorrected (fst w) (64 + unat (syndrome_of w)))"
proof -
  have and1: "drop_bit 7 (snd w) AND 1 = of_bool (bit (snd w) 7)"
    by (simp add: and_one_eq bit_iff_odd_drop_bit mod_2_eq_odd)
  have parity: "(of_nat (m mod 2) :: u8) = of_bool (odd m)" for m
    by (simp add: mod_2_eq_odd)
  show ?thesis
    unfolding decode_def syndrome_of_def differs_of_def Let_def parity and1
    by (simp add: unsigned_eq_0_iff)
qed

lemma syndrome_of_flip:
  assumes "j < 72"
  shows "syndrome_of (flip_codeword j w) = syndrome_of w XOR column j"
proof (cases "j < 64")
  case True
  then show ?thesis
    by (simp add: syndrome_of_def flip_codeword_def column_def hamming_parities_xor
        hamming_parities_single xor.assoc xor.commute xor.left_commute)
next
  case False
  have "(c XOR shl1 (j - 64)) AND 0x7F = (c AND 0x7F) XOR column j" for c :: u8
  proof (rule bit_word_eqI)
    fix n assume "n < LENGTH(8)"
    then show "bit ((c XOR shl1 (j - 64)) AND 0x7F) n = bit ((c AND 0x7F) XOR column j) n"
      using False assms
      by (cases "j < 71") (auto simp: column_def bit_and_7F bit_xor_iff bit_shl1_iff)
  qed
  with False show ?thesis
    by (simp add: syndrome_of_def flip_codeword_def xor.assoc)
qed

lemma differs_of_flip:
  assumes "j < 72"
  shows "differs_of (flip_codeword j w) \<longleftrightarrow> \<not> differs_of w"
proof -
  consider "j < 64" | "64 \<le> j" "j < 71" | "j = 71" using assms by linarith
  then show ?thesis
  proof cases
    case 1
    then show ?thesis
      by (auto simp: differs_of_def flip_codeword_def odd_count_ones_xor count_ones_single)
  next
    case 2
    have "(c XOR shl1 (j - 64)) AND 0x7F = (c AND 0x7F) XOR shl1 (j - 64)" for c :: u8
      using 2 by (intro bit_word_eqI) (auto simp: bit_and_7F bit_xor_iff bit_shl1_iff)
    moreover have "bit (shl1 (j - 64) :: u8) 7 = False"
      using 2 by (auto simp: bit_shl1_iff)
    ultimately show ?thesis
      using 2 by (auto simp: differs_of_def flip_codeword_def odd_count_ones_xor count_ones_single bit_xor_iff)
  next
    case 3
    have "(c XOR shl1 (j - 64)) AND 0x7F = (c AND 0x7F)" for c :: u8
      using 3 by (intro bit_word_eqI) (auto simp: bit_and_7F bit_xor_iff bit_shl1_iff)
    moreover have "bit (shl1 (j - 64) :: u8) 7"
      using 3 by (auto simp: bit_shl1_iff)
    ultimately show ?thesis
      using 3 by (auto simp: differs_of_def flip_codeword_def bit_xor_iff)
  qed
qed

lemma codeword_clean: "syndrome_of (d, check_bits d) = 0" "\<not> differs_of (d, check_bits d)"
proof -
  let ?p = "hamming_parities d" and ?o = "(count_ones d + count_ones (hamming_parities d)) mod 2"
  have o: "(of_nat ?o :: u8) = of_bool (odd (count_ones d + count_ones ?p))"
    by (simp add: mod_2_eq_odd)
  have cb: "bit (check_bits d) n \<longleftrightarrow> (if n = 7 then odd (count_ones d + count_ones ?p) else bit ?p n)"
    if "n < 8" for n
    using that unfolding check_bits_def Let_def o
    by (auto simp: bit_or_iff bit_push_bit_iff bit_1_iff bit_hamming_parities simp del: push_bit_of_1)
  have low: "check_bits d AND 0x7F = ?p"
    by (rule bit_word_eqI) (auto simp: bit_and_7F cb bit_hamming_parities)
  show "syndrome_of (d, check_bits d) = 0"
    by (simp add: syndrome_of_def low)
  show "\<not> differs_of (d, check_bits d)"
    by (simp add: differs_of_def low cb)
qed

lemma columns_eq:
  "map column [0..<72] = map of_nat data_positions @ [1, 2, 4, 8, 16, 32, 64, 0]"
proof -
  have "[0..<72] = [0..<64] @ [64..<72]"
    using upt_add_eq_append [of 0 64 8] by simp
  moreover have "map column [0..<64] = map of_nat data_positions"
    by (rule nth_equalityI) (simp_all add: column_def data_position_nth)
  moreover have "map column [64..<72] = [1, 2, 4, 8, 16, 32, 64, 0]"
    by (simp add: column_def shl1_def)
  ultimately show ?thesis by (simp only: map_append)
qed

lemma column_inj:
  assumes "i < 72" "j < 72" "column i = column j"
  shows "i = j"
proof -
  have "distinct (map column [0..<72])" unfolding columns_eq data_positions_eq by simp
  then have "inj_on column {0..<72}" by (simp add: distinct_map)
  with assms show ?thesis by (auto dest: inj_onD)
qed

section \<open>Decoding a damaged codeword\<close>

lemma data_position_columns: "j < 64 \<Longrightarrow> unat (column j) = data_position j"
proof -
  assume "j < 64"
  then have "data_position j \<in> set data_positions" by (simp add: data_position_nth)
  then have "data_position j < 256" by (auto simp: data_positions_def CODEWORD_LEN_def)
  with \<open>j < 64\<close> show ?thesis by (simp add: column_def unsigned_of_nat take_bit_nat_eq_self)
qed

lemma column_eq_0_iff: "j < 72 \<Longrightarrow> column j = 0 \<longleftrightarrow> j = 71"
  using column_inj [of j 71] by (auto simp: column_def)

lemma position_to_data_index_parity:
  "64 \<le> j \<Longrightarrow> j < 71 \<Longrightarrow> position_to_data_index (2 ^ (j - 64)) = None"
proof -
  have "\<forall>k\<in>set [0..<7]. is_parity_position (2 ^ k)" by code_simp
  then show "64 \<le> j \<Longrightarrow> j < 71 \<Longrightarrow> ?thesis" by (auto simp: position_to_data_index_def)
qed

lemma unat_column_parity: "64 \<le> j \<Longrightarrow> j < 71 \<Longrightarrow> unat (column j) = 2 ^ (j - 64)"
proof -
  have "\<forall>k\<in>set [0..<7]. unat (shl1 k :: u8) = 2 ^ k" by code_simp
  then show "64 \<le> j \<Longrightarrow> j < 71 \<Longrightarrow> ?thesis" by (auto simp: column_def shl1_def)
qed

text \<open>What the decoder says about a codeword with one flipped bit.\<close>

definition single_flip_report :: "nat \<Rightarrow> nat" where
  "single_flip_report j = (if j < 64 then j else if j < 71 then 64 + 2 ^ (j - 64) else 72)"

lemma decode_clean: "decode d (check_bits d) = DClean"
  using decode_eq [of "(d, check_bits d)"] by (simp add: codeword_clean)

lemma decode_single_flip:
  assumes "j < 72"
  shows "decode (fst (flip_codeword j (d, check_bits d))) (snd (flip_codeword j (d, check_bits d)))
    = DCorrected d (single_flip_report j)"
proof -
  let ?w = "flip_codeword j (d, check_bits d)"
  have syn: "syndrome_of ?w = column j" and dif: "differs_of ?w"
    using assms by (simp_all add: syndrome_of_flip differs_of_flip codeword_clean)
  consider "j < 64" | "64 \<le> j" "j < 71" | "j = 71" using assms by linarith
  then show ?thesis
  proof cases
    case 1
    then have "column j \<noteq> 0" using column_eq_0_iff [of j] by simp
    with 1 syn dif show ?thesis
      by (subst decode_eq) (simp add: data_position_columns data_position_nth position_to_data_index_nth
          single_flip_report_def flip_codeword_def xor.assoc)
  next
    case 2
    then have "column j \<noteq> 0" using column_eq_0_iff [of j] by simp
    with 2 syn dif show ?thesis
      by (subst decode_eq) (simp add: unat_column_parity position_to_data_index_parity
          single_flip_report_def flip_codeword_def)
  next
    case 3
    with syn dif show ?thesis
      by (subst decode_eq) (simp add: column_eq_0_iff single_flip_report_def flip_codeword_def)
  qed
qed

lemma decode_double_flip:
  assumes "i < 72" "j < 72" "i \<noteq> j"
  shows "decode (fst (flip_codeword i (flip_codeword j (d, check_bits d))))
      (snd (flip_codeword i (flip_codeword j (d, check_bits d)))) = DDoubleError"
proof -
  let ?w = "flip_codeword i (flip_codeword j (d, check_bits d))"
  have "syndrome_of ?w = column j XOR column i" and "\<not> differs_of ?w"
    using assms by (simp_all add: syndrome_of_flip differs_of_flip codeword_clean)
  moreover have "column j XOR column i \<noteq> 0"
  proof
    assume "column j XOR column i = 0"
    then have "(column j XOR column i) XOR column i = column i" by simp
    then have "column j = column i" by (simp add: xor.assoc)
    with assms column_inj show False by metis
  qed
  ultimately show ?thesis by (subst decode_eq) simp
qed

end
