(* ===== verification/Redundancy.thy ===== *)
theory Redundancy
  imports Hamming_Secded "HOL-Library.State_Monad"
begin

text \<open>
  \<open>crates/nanochrono-core/src/redundancy.rs\<close>: the Hamming(72,64) SECDED code, the protected
  word with its two spare copies, the three repair tiers and the process-wide counters.  The
  counters are the state of a state monad: every operation that records an outcome is a
  computation over them.  The lemmas show that the code corrects every single-bit flip of a
  codeword and detects every double one, and that the vote recovers what the code cannot.
\<close>

section \<open>Outcomes\<close>

datatype integrity =
    Clean
  | CorrectedByEcc nat
  | CorrectedByTmr u8
  | Unrecoverable

definition severity :: "integrity \<Rightarrow> nat" where
  "severity i = (case i of Clean \<Rightarrow> 0 | CorrectedByEcc _ \<Rightarrow> 1 | CorrectedByTmr _ \<Rightarrow> 2 | Unrecoverable \<Rightarrow> 3)"

definition integrity_max :: "integrity \<Rightarrow> integrity \<Rightarrow> integrity" where
  "integrity_max self other = (if severity other > severity self then other else self)"

definition is_usable :: "integrity \<Rightarrow> bool" where
  "is_usable i \<longleftrightarrow> i \<noteq> Unrecoverable"

definition was_repaired :: "integrity \<Rightarrow> bool" where
  "was_repaired i = (case i of CorrectedByEcc _ \<Rightarrow> True | CorrectedByTmr _ \<Rightarrow> True | _ \<Rightarrow> False)"

definition integrity_name :: "integrity \<Rightarrow> string" where
  "integrity_name i = (case i of Clean \<Rightarrow> ''clean'' | CorrectedByEcc _ \<Rightarrow> ''corrected-by-ecc''
     | CorrectedByTmr _ \<Rightarrow> ''corrected-by-tmr'' | Unrecoverable \<Rightarrow> ''unrecoverable'')"

text \<open>Outcomes are preordered by severity; \<^const>\<open>integrity_max\<close> is an upper bound in it.\<close>

instantiation integrity :: preorder
begin

definition less_eq_integrity :: "integrity \<Rightarrow> integrity \<Rightarrow> bool" where
  "a \<le> b \<longleftrightarrow> severity a \<le> severity b"

definition less_integrity :: "integrity \<Rightarrow> integrity \<Rightarrow> bool" where
  "a < b \<longleftrightarrow> severity a < severity b"

instance
  by standard (auto simp: less_eq_integrity_def less_integrity_def)

end

lemma integrity_max_upper: "a \<le> integrity_max a b" "b \<le> integrity_max a b"
  by (auto simp: integrity_max_def less_eq_integrity_def)

lemma integrity_max_Clean_iff: "integrity_max a b = Clean \<longleftrightarrow> a = Clean \<and> b = Clean"
  by (cases a; cases b) (auto simp: integrity_max_def severity_def)

lemma integrity_max_Clean [simp]: "integrity_max Clean b = b" "integrity_max a Clean = a"
  by (cases a; cases b; simp add: integrity_max_def severity_def)+

lemma integrity_max_usable_iff:
  "is_usable (integrity_max a b) \<longleftrightarrow> is_usable a \<and> is_usable b"
  by (cases a; cases b) (auto simp: integrity_max_def severity_def is_usable_def)

section \<open>Process-wide counters\<close>

record integrity_stats =
  checks :: u64
  ecc_corrections :: u64
  tmr_corrections :: u64
  unrecoverable :: u64

definition zero_stats :: integrity_stats where
  "zero_stats = \<lparr>checks = 0, ecc_corrections = 0, tmr_corrections = 0, unrecoverable = 0\<rparr>"

definition stats_is_clean :: "integrity_stats \<Rightarrow> bool" where
  "stats_is_clean s \<longleftrightarrow> ecc_corrections s = 0 \<and> tmr_corrections s = 0 \<and> unrecoverable s = 0"

definition record_outcome :: "integrity \<Rightarrow> integrity_stats \<Rightarrow> integrity_stats" where
  "record_outcome outcome s =
     (let s = s\<lparr>checks := checks s + 1\<rparr>
      in case outcome of
           CorrectedByEcc _ \<Rightarrow> s\<lparr>ecc_corrections := ecc_corrections s + 1\<rparr>
         | CorrectedByTmr _ \<Rightarrow> s\<lparr>tmr_corrections := tmr_corrections s + 1\<rparr>
         | Unrecoverable \<Rightarrow> s\<lparr>unrecoverable := unrecoverable s + 1\<rparr>
         | Clean \<Rightarrow> s)"

type_synonym 'a counted = "(integrity_stats, 'a) State_Monad.state"

definition record_m :: "integrity \<Rightarrow> unit counted" where
  "record_m outcome = State_Monad.update (record_outcome outcome)"

section \<open>The protected container\<close>

record replica =
  rvalue :: u64
  rcheck :: u8

record protected =
  pvalue :: u64
  pcheck :: u8
  replica0 :: replica
  replica1 :: replica

definition replica_new :: "u64 \<Rightarrow> replica" where
  "replica_new value = \<lparr>rvalue = value, rcheck = check_bits value\<rparr>"

definition candidate :: "replica \<Rightarrow> u64 option" where
  "candidate r = (case decode (rvalue r) (rcheck r) of
     DClean \<Rightarrow> Some (rvalue r) | DCorrected data _ \<Rightarrow> Some data | DDoubleError \<Rightarrow> None)"

definition protected_new :: "u64 \<Rightarrow> protected" where
  "protected_new value = \<lparr>pvalue = value, pcheck = check_bits value,
     replica0 = replica_new value, replica1 = replica_new value\<rparr>"

definition get_raw :: "protected \<Rightarrow> u64" where
  "get_raw p = pvalue p"

fun vote_loop :: "u64 option list \<Rightarrow> u64 list \<Rightarrow> (u64 \<times> integrity) option" where
  "vote_loop ballots [] = None"
| "vote_loop ballots (cand # rest) =
     (let agreeing = length (filter (\<lambda>c. c = Some cand) ballots)
      in if agreeing < 2 then vote_loop ballots rest
         else Some (cand, CorrectedByTmr (of_nat (3 - agreeing))))"

definition vote :: "protected \<Rightarrow> u64 \<times> integrity" where
  "vote p =
     (let ballots = [None, candidate (replica0 p), candidate (replica1 p)]
      in case vote_loop ballots (List.map_filter id ballots) of
           Some r \<Rightarrow> r
         | None \<Rightarrow> (pvalue p, Unrecoverable))"

definition get_checked :: "protected \<Rightarrow> (u64 \<times> integrity) counted" where
  "get_checked p =
     (case decode (pvalue p) (pcheck p) of
        DClean \<Rightarrow> State_Monad.return (pvalue p, Clean)
      | DCorrected data b \<Rightarrow> do {
          record_m (CorrectedByEcc b);
          State_Monad.return (data, CorrectedByEcc b)
        }
      | DDoubleError \<Rightarrow> do {
          record_m (snd (vote p));
          State_Monad.return (vote p)
        })"

definition set_value :: "u64 \<Rightarrow> protected \<Rightarrow> protected" where
  "set_value value p = p\<lparr>pvalue := value, pcheck := check_bits value,
     replica0 := replica_new value, replica1 := replica_new value\<rparr>"

definition repair_by_vote :: "protected \<Rightarrow> integrity \<times> protected" where
  "repair_by_vote p =
     (let (value, outcome) = vote p
      in (outcome, if is_usable outcome then set_value value p else p))"

definition verify :: "protected \<Rightarrow> (integrity \<times> protected) counted" where
  "verify p =
     (let (outcome, p') =
        (case decode (pvalue p) (pcheck p) of
           DClean \<Rightarrow> (Clean, p)
         | DCorrected data b \<Rightarrow> (CorrectedByEcc b, set_value data p)
         | DDoubleError \<Rightarrow> repair_by_vote p)
      in do {
        record_m outcome;
        State_Monad.return (outcome, p')
      })"

definition get_verified :: "protected \<Rightarrow> ((u64 \<times> integrity) \<times> protected) counted" where
  "get_verified p = do {
     (outcome, p') \<leftarrow> verify p;
     State_Monad.return ((pvalue p', outcome), p')
   }"

definition inject_flip :: "nat \<Rightarrow> protected \<Rightarrow> protected" where
  "inject_flip b p =
     (if b \<le> 63 then p\<lparr>pvalue := pvalue p XOR shl1 b\<rparr>
      else if b \<le> 71 then p\<lparr>pcheck := pcheck p XOR shl1 (b - 64)\<rparr>
      else if b \<le> 135 then p\<lparr>replica0 := (replica0 p)\<lparr>rvalue := rvalue (replica0 p) XOR shl1 (b - 72)\<rparr>\<rparr>
      else if b \<le> 199 then p\<lparr>replica1 := (replica1 p)\<lparr>rvalue := rvalue (replica1 p) XOR shl1 (b - 136)\<rparr>\<rparr>
      else if b \<le> 207 then p\<lparr>replica0 := (replica0 p)\<lparr>rcheck := rcheck (replica0 p) XOR shl1 (b - 200)\<rparr>\<rparr>
      else if b \<le> 215 then p\<lparr>replica1 := (replica1 p)\<lparr>rcheck := rcheck (replica1 p) XOR shl1 (b - 208)\<rparr>\<rparr>
      else p)"

section \<open>What a word stands for\<close>

text \<open>
  \<open>checked p\<close> is the pair a checked read returns, without the counting.  A word whose outcome
  is usable \<^emph>\<open>stands for\<close> the value of that pair, however its storage is damaged.
\<close>

definition checked :: "protected \<Rightarrow> u64 \<times> integrity" where
  "checked p =
     (case decode (pvalue p) (pcheck p) of
        DClean \<Rightarrow> (pvalue p, Clean)
      | DCorrected data b \<Rightarrow> (data, CorrectedByEcc b)
      | DDoubleError \<Rightarrow> vote p)"

definition recoverable :: "protected \<Rightarrow> bool" where
  "recoverable p \<longleftrightarrow> is_usable (snd (checked p))"

definition scrubbed :: "protected \<Rightarrow> protected" where
  "scrubbed p = (if snd (checked p) = Clean \<or> \<not> recoverable p then p else protected_new (fst (checked p)))"

lemma set_value_eq [simp]: "set_value v p = protected_new v"
  by (simp add: set_value_def protected_new_def)

lemma vote_not_clean: "snd (vote p) \<noteq> Clean"
  by (auto simp: vote_def Let_def List.map_filter_def split: option.splits if_splits)

lemma vote_cases:
  "vote p =
     (case (candidate (replica0 p), candidate (replica1 p)) of
        (Some a, Some b) \<Rightarrow> if a = b then (a, CorrectedByTmr 1) else (pvalue p, Unrecoverable)
      | _ \<Rightarrow> (pvalue p, Unrecoverable))"
  by (auto simp: vote_def Let_def List.map_filter_def split: option.splits if_splits)

declare State_Monad.bind_def [run_simps] State_Monad.return_def [run_simps]

lemma run_record_m [simp, run_simps]: "run_state (record_m i) st = ((), record_outcome i st)"
  by (simp add: record_m_def State_Monad.update_def State_Monad.bind_def State_Monad.get_def State_Monad.set_def)

lemma run_get_checked [run_simps]:
  "run_state (get_checked p) st =
     (checked p, if snd (checked p) = Clean then st else record_outcome (snd (checked p)) st)"
  using vote_not_clean [of p]
  by (auto simp: get_checked_def checked_def State_Monad.bind_def State_Monad.return_def split: decoded.splits)

lemma run_verify [run_simps]:
  "run_state (verify p) st = ((snd (checked p), scrubbed p), record_outcome (snd (checked p)) st)"
  using vote_not_clean [of p]
  by (cases "vote p")
     (auto simp: verify_def checked_def scrubbed_def recoverable_def repair_by_vote_def is_usable_def
        State_Monad.bind_def State_Monad.return_def split: decoded.splits)

lemma checked_new [simp]: "checked (protected_new v) = (v, Clean)"
  by (simp add: checked_def protected_new_def decode_clean)

lemma recoverable_new [simp]: "recoverable (protected_new v)"
  by (simp add: recoverable_def is_usable_def)

lemma pvalue_new [simp]: "pvalue (protected_new v) = v"
  by (simp add: protected_new_def)

lemma checked_Clean_pvalue: "snd (checked p) = Clean \<Longrightarrow> fst (checked p) = pvalue p"
  using vote_not_clean [of p] by (auto simp: checked_def split: decoded.splits)

lemma scrubbed_pvalue [simp]: "recoverable p \<Longrightarrow> pvalue (scrubbed p) = fst (checked p)"
  using checked_Clean_pvalue [of p] by (auto simp: scrubbed_def)

lemma scrubbed_checked: "recoverable p \<Longrightarrow> checked (scrubbed p) = (fst (checked p), Clean)"
  by (cases "checked p") (auto simp: scrubbed_def)

lemma scrubbed_recoverable [simp]: "recoverable (scrubbed p) \<longleftrightarrow> recoverable p"
  by (auto simp: scrubbed_def)

section \<open>The contract a client of the container relies on\<close>

text \<open>
  What the stopwatch and the chronometer use of a stored word: it can be created, read with
  verification, and scrubbed.  The laws say that a fresh word reads back clean, and that scrubbing
  a usable word keeps what it stands for and leaves it clean, so that a plain load afterwards is
  the verified value.
\<close>

locale stored_word =
  fixes new :: "'v \<Rightarrow> 'w"
    and raw :: "'w \<Rightarrow> 'v"
    and rd :: "'w \<Rightarrow> 'v \<times> integrity"
    and scrub :: "'w \<Rightarrow> 'w"
  assumes rd_new: "rd (new v) = (v, Clean)"
    and raw_scrub: "is_usable (snd (rd w)) \<Longrightarrow> raw (scrub w) = fst (rd w)"
    and rd_scrub: "is_usable (snd (rd w)) \<Longrightarrow> rd (scrub w) = (fst (rd w), Clean)"
begin

definition worst :: "'w list \<Rightarrow> integrity" where
  "worst ws = fold (\<lambda>w acc. integrity_max acc (snd (rd w))) ws Clean"

lemma fold_max_usable:
  "is_usable (fold (\<lambda>w acc. integrity_max acc (snd (rd w))) ws i) \<longleftrightarrow>
     is_usable i \<and> (\<forall>w\<in>set ws. is_usable (snd (rd w)))"
  by (induction ws arbitrary: i) (auto simp: integrity_max_usable_iff)

lemma worst_usable_iff: "is_usable (worst ws) \<longleftrightarrow> (\<forall>w\<in>set ws. is_usable (snd (rd w)))"
  unfolding worst_def fold_max_usable by (simp add: is_usable_def)

lemma usable_new: "is_usable (snd (rd (new v)))"
  by (simp add: rd_new is_usable_def)

lemma scrub_all_values:
  "\<forall>w\<in>set ws. is_usable (snd (rd w)) \<Longrightarrow> map (fst \<circ> rd) (map scrub ws) = map (fst \<circ> rd) ws"
  by (induction ws) (auto simp: rd_scrub)

lemma worst_scrubbed:
  assumes "\<forall>w\<in>set ws. is_usable (snd (rd w))"
  shows "worst (map scrub ws) = Clean"
proof -
  have "fold (\<lambda>w acc. integrity_max acc (snd (rd w))) (map scrub ws) Clean = Clean"
    using assms by (induction ws) (auto simp: rd_scrub)
  then show ?thesis by (simp add: worst_def)
qed

lemma scrub_idem: "is_usable (snd (rd w)) \<Longrightarrow> fst (rd (scrub (scrub w))) = fst (rd w)"
  by (simp add: rd_scrub is_usable_def)

end

interpretation pw: stored_word protected_new pvalue checked scrubbed
  by unfold_locales (auto simp: scrubbed_checked simp flip: recoverable_def)

section \<open>Injected faults\<close>

text \<open>Flips in the working copy, bits 0 to 71, are flips of its codeword.\<close>

lemma inject_flip_primary:
  assumes "j < 72"
  shows "(pvalue (inject_flip j p), pcheck (inject_flip j p)) = flip_codeword j (pvalue p, pcheck p)"
    and "replica0 (inject_flip j p) = replica0 p" "replica1 (inject_flip j p) = replica1 p"
  using assms by (auto simp: inject_flip_def flip_codeword_def)

text \<open>The codeword a bit number beyond 71 hits, and the position in it.\<close>

definition flip_replica :: "nat \<Rightarrow> replica \<Rightarrow> replica" where
  "flip_replica j r = (let w = flip_codeword j (rvalue r, rcheck r) in \<lparr>rvalue = fst w, rcheck = snd w\<rparr>)"

lemma inject_flip_replica:
  assumes "72 \<le> b" "b < 216"
  shows "\<exists>j<72. inject_flip b p = p\<lparr>replica0 := flip_replica j (replica0 p)\<rparr> \<or>
      inject_flip b p = p\<lparr>replica1 := flip_replica j (replica1 p)\<rparr>"
proof -
  have r: "x = flip_replica j r \<longleftrightarrow> rvalue x = fst (flip_codeword j (rvalue r, rcheck r)) \<and>
      rcheck x = snd (flip_codeword j (rvalue r, rcheck r))" for x j r
    by (cases x) (simp add: flip_replica_def Let_def)
  consider "b \<le> 135" | "135 < b" "b \<le> 199" | "199 < b" "b \<le> 207" | "207 < b" "b \<le> 215"
    using assms by linarith
  then show ?thesis
  proof cases
    case 1
    then show ?thesis using assms
      by (intro exI [of _ "b - 72"]) (simp add: inject_flip_def flip_replica_def flip_codeword_def)
  next
    case 2
    then show ?thesis using assms
      by (intro exI [of _ "b - 136"]) (simp add: inject_flip_def flip_replica_def flip_codeword_def)
  next
    case 3
    then show ?thesis using assms
      by (intro exI [of _ "b - 136"]) (simp add: inject_flip_def flip_replica_def flip_codeword_def)
  next
    case 4
    then show ?thesis using assms
      by (intro exI [of _ "b - 144"]) (simp add: inject_flip_def flip_replica_def flip_codeword_def)
  qed
qed

lemma candidate_new [simp]: "candidate (replica_new v) = Some v"
  by (simp add: candidate_def replica_new_def decode_clean)

lemma candidate_flip [simp]: "j < 72 \<Longrightarrow> candidate (flip_replica j (replica_new v)) = Some v"
  using decode_single_flip [of j v]
  by (simp add: candidate_def flip_replica_def replica_new_def Let_def)

text \<open>
  A fault campaign: flips anywhere in the 216 protected bits, interleaved with scrubs.  It is
  \<^emph>\<open>sparse\<close> when no interval between two scrubs hits the working copy twice; the replicas may be
  hit any number of times.
\<close>

datatype fault_event = Flip nat | Scrub

fun campaign :: "fault_event list \<Rightarrow> protected \<Rightarrow> protected" where
  "campaign [] p = p"
| "campaign (Flip b # es) p = campaign es (inject_flip b p)"
| "campaign (Scrub # es) p = campaign es (snd (fst (run_state (verify p) zero_stats)))"

fun sparse :: "bool \<Rightarrow> fault_event list \<Rightarrow> bool" where
  "sparse hit [] = True"
| "sparse hit (Flip b # es) = (if b < 72 then \<not> hit \<and> sparse True es else sparse hit es)"
| "sparse hit (Scrub # es) = sparse False es"

definition primary_state :: "u64 \<Rightarrow> bool \<Rightarrow> protected \<Rightarrow> bool" where
  "primary_state v hit p \<longleftrightarrow>
     (pvalue p, pcheck p) = (v, check_bits v) \<or>
     hit \<and> (\<exists>j<72. (pvalue p, pcheck p) = flip_codeword j (v, check_bits v))"

lemma primary_state_checked:
  assumes "primary_state v hit p"
  shows "fst (checked p) = v" "recoverable p"
    and "snd (checked p) = Clean \<Longrightarrow> (pvalue p, pcheck p) = (v, check_bits v)"
proof -
  from assms have "decode (pvalue p) (pcheck p) = DClean \<and> (pvalue p, pcheck p) = (v, check_bits v) \<or>
      (\<exists>b. decode (pvalue p) (pcheck p) = DCorrected v b)"
    by (auto simp: primary_state_def decode_clean dest!: decode_single_flip [of _ v] prod_eq_iff [THEN iffD1])
  then show "fst (checked p) = v" "recoverable p"
    "snd (checked p) = Clean \<Longrightarrow> (pvalue p, pcheck p) = (v, check_bits v)"
    by (auto simp: checked_def recoverable_def is_usable_def)
qed

lemma primary_state_scrub:
  assumes "primary_state v hit p"
  shows "primary_state v False (scrubbed p)"
  using primary_state_checked [OF assms]
  by (auto simp: scrubbed_def primary_state_def protected_new_def)

lemma primary_state_flip:
  assumes "primary_state v hit p" and "b < 72 \<Longrightarrow> \<not> hit"
  shows "primary_state v (hit \<or> b < 72) (inject_flip b p)"
proof (cases "b < 72")
  case True
  with assms have "(pvalue p, pcheck p) = (v, check_bits v)" by (simp add: primary_state_def)
  with True show ?thesis
    unfolding primary_state_def using inject_flip_primary(1) [of b p] by auto
next
  case False
  then have "pvalue (inject_flip b p) = pvalue p" "pcheck (inject_flip b p) = pcheck p"
    by (simp_all add: inject_flip_def)
  with assms(1) False show ?thesis by (simp add: primary_state_def)
qed

lemma campaign_primary:
  "primary_state v hit p \<Longrightarrow> sparse hit es \<Longrightarrow> \<exists>h. primary_state v h (campaign es p)"
proof (induction es p arbitrary: hit rule: campaign.induct)
  case (1 p)
  then show ?case by auto
next
  case (2 b es p)
  then have "primary_state v (hit \<or> b < 72) (inject_flip b p)"
    by (intro primary_state_flip) (auto split: if_splits)
  with 2 show ?case by (auto split: if_splits)
next
  case (3 es p)
  then show ?case by (auto simp: run_verify intro: primary_state_scrub)
qed

lemma checked_inject_flip:
  "fst (checked (inject_flip b (protected_new v))) = v"
  "recoverable (inject_flip b (protected_new v))"
proof -
  have "primary_state v False (protected_new v)" by (simp add: primary_state_def protected_new_def)
  then have "primary_state v (False \<or> b < 72) (inject_flip b (protected_new v))"
    by (rule primary_state_flip) simp
  then show "fst (checked (inject_flip b (protected_new v))) = v"
    "recoverable (inject_flip b (protected_new v))"
    by (rule primary_state_checked)+
qed

section \<open>Properties\<close>

text \<open>
  C3. The code corrects every single-bit flip of a codeword: whichever of the 64 data bits or the
  8 check bits flips, the decoder returns the original data, and names the flip by
  \<^const>\<open>single_flip_report\<close>.
\<close>

theorem secded_corrects_single:
  assumes "j < 72"
  shows "case flip_codeword j (d, check_bits d) of (data, check) \<Rightarrow>
    decode data check = DCorrected d (single_flip_report j)"
  using decode_single_flip [OF assms, of d] by (simp add: case_prod_beta)

theorem secded_corrects_single_witness:
  "case flip_codeword 67 (0xDEADBEEF, check_bits 0xDEADBEEF) of (data, check) \<Rightarrow>
    decode data check = DCorrected 0xDEADBEEF (single_flip_report 67)"
  by (rule secded_corrects_single) simp

text \<open>
  C4. The code detects every double-bit flip of a codeword and never miscorrects one, wherever the
  two flips fall among the 72 bits.
\<close>

theorem secded_detects_double:
  assumes "i < 72" "j < 72" "i \<noteq> j"
  shows "case flip_codeword i (flip_codeword j (d, check_bits d)) of (data, check) \<Rightarrow>
    decode data check = DDoubleError"
  using decode_double_flip [OF assms, of d] by (simp add: case_prod_beta)

theorem secded_detects_double_witness:
  "case flip_codeword 3 (flip_codeword 71 (42, check_bits 42)) of (data, check) \<Rightarrow>
    decode data check = DDoubleError"
  by (rule secded_detects_double) simp_all

text \<open>
  Any single flip among the 216 protected bits is harmless to a verification: the value
  survives and the outcome is usable.  A flip in the working copy is repaired by the code with the
  whole object restored; a flip in a replica is not looked at.
\<close>

theorem verify_single_flip:
  assumes "b < 216"
  shows "case run_state (verify (inject_flip b (protected_new v))) st of ((outcome, p'), st') \<Rightarrow>
    pvalue p' = v \<and>
    (if b < 72 then outcome = CorrectedByEcc (single_flip_report b) \<and> p' = protected_new v
     else outcome = Clean \<and> p' = inject_flip b (protected_new v))"
proof (cases "b < 72")
  case True
  let ?p = "inject_flip b (protected_new v)"
  have "(pvalue ?p, pcheck ?p) = flip_codeword b (v, check_bits v)"
    using inject_flip_primary(1) [OF True, of "protected_new v"] by (simp add: protected_new_def)
  then have "checked ?p = (v, CorrectedByEcc (single_flip_report b))"
    using decode_single_flip [OF True, of v] by (auto simp: checked_def prod_eq_iff)
  then show ?thesis
    using True by (simp add: run_verify scrubbed_def recoverable_def is_usable_def)
next
  case False
  let ?p = "inject_flip b (protected_new v)"
  have pv: "pvalue ?p = v" "pcheck ?p = check_bits v"
    using False by (simp_all add: inject_flip_def protected_new_def)
  then have "checked ?p = (v, Clean)" by (simp add: checked_def decode_clean)
  with False pv show ?thesis by (simp add: run_verify scrubbed_def)
qed

theorem verify_single_flip_witness:
  "case run_state (verify (inject_flip 5 (protected_new 1000))) zero_stats of ((outcome, p'), st') \<Rightarrow>
    pvalue p' = 1000 \<and> outcome = CorrectedByEcc 5 \<and> p' = protected_new 1000"
  using verify_single_flip [of 5 1000 zero_stats]
  by (simp add: case_prod_beta single_flip_report_def)

text \<open>
  C28. The emergency tier: a double flip in the working copy is outvoted by the replicas and the
  whole object is restored, even when each replica has itself taken one flip anywhere in its
  value or its check byte.
\<close>

theorem verify_double_flip_tmr:
  assumes "i < 72" "j < 72" "i \<noteq> j" "k < 72" "l < 72"
  shows "fst (run_state (verify ((inject_flip i (inject_flip j (protected_new v)))
      \<lparr>replica0 := flip_replica k (replica_new v), replica1 := flip_replica l (replica_new v)\<rparr>)) st)
    = (CorrectedByTmr 1, protected_new v)"
proof -
  let ?q = "inject_flip i (inject_flip j (protected_new v))"
  let ?p = "?q\<lparr>replica0 := flip_replica k (replica_new v), replica1 := flip_replica l (replica_new v)\<rparr>"
  have "(pvalue ?q, pcheck ?q) = flip_codeword i (flip_codeword j (v, check_bits v))"
    using inject_flip_primary(1) [OF assms(1), of "inject_flip j (protected_new v)"]
      inject_flip_primary(1) [OF assms(2), of "protected_new v"]
    by (simp add: protected_new_def)
  then have "decode (pvalue ?p) (pcheck ?p) = DDoubleError"
    using decode_double_flip [OF assms(1-3), of v] by (auto simp: prod_eq_iff)
  moreover have "vote ?p = (v, CorrectedByTmr 1)"
    using assms by (simp add: vote_cases)
  ultimately have "checked ?p = (v, CorrectedByTmr 1)" by (simp add: checked_def)
  then show ?thesis
    by (simp add: run_verify scrubbed_def recoverable_def is_usable_def)
qed

theorem verify_double_flip_tmr_witness:
  "fst (run_state (verify ((inject_flip 0 (inject_flip 63 (protected_new 7)))
      \<lparr>replica0 := flip_replica 70 (replica_new 7), replica1 := flip_replica 1 (replica_new 7)\<rparr>)) zero_stats)
    = (CorrectedByTmr 1, protected_new 7)"
  by (rule verify_double_flip_tmr) simp_all

text \<open>
  The vote never invents a value: an outcome of \<^const>\<open>CorrectedByTmr\<close> means that both
  replicas, each decoded by its own code, stand for the value written back, and the reported number
  of outvoted copies is always one.
\<close>

theorem tmr_needs_both_replicas:
  assumes "fst (run_state (verify p) st) = (CorrectedByTmr n, p')"
  shows "n = 1 \<and> candidate (replica0 p) = Some (pvalue p') \<and> candidate (replica1 p) = Some (pvalue p') \<and>
    p' = protected_new (pvalue p')"
proof -
  from assms have "snd (checked p) = CorrectedByTmr n" and p': "p' = scrubbed p"
    by (simp_all add: run_verify)
  then have v: "checked p = vote p" "snd (vote p) = CorrectedByTmr n"
    by (auto simp: checked_def split: decoded.splits)
  then show ?thesis
    unfolding p' by (auto simp: vote_cases scrubbed_def recoverable_def is_usable_def
        split: option.splits if_splits)
qed

theorem tmr_needs_both_replicas_witness:
  "fst (run_state (verify (inject_flip 0 (inject_flip 1 (protected_new 9)))) zero_stats) =
     (CorrectedByTmr 1, protected_new 9) \<and> candidate (replica1 (protected_new 9)) = Some 9"
proof -
  have d: "decode (pvalue p) (pcheck p) = DDoubleError"
    if "p = inject_flip 0 (inject_flip 1 (protected_new 9))" for p
    using that decode_double_flip [of 0 1 9]
    by (simp add: inject_flip_def flip_codeword_def protected_new_def)
  have "fst (run_state (verify (inject_flip 0 (inject_flip 1 (protected_new 9)))) zero_stats) =
     (CorrectedByTmr 1, protected_new 9)"
    by (simp add: run_verify checked_def d scrubbed_def recoverable_def is_usable_def vote_cases)
      (simp add: inject_flip_def protected_new_def vote_cases is_usable_def)
  with tmr_needs_both_replicas [OF this] show ?thesis by (simp add: inject_flip_def)
qed

text \<open>
  C29. A sparse fault campaign never changes what the word stands for: as long as no interval
  between two scrubs hits the working copy twice, a checked read after any number of flips and
  scrubs returns the stored value, with a usable outcome.
\<close>

theorem sparse_campaign_keeps_value:
  assumes "sparse False es"
  shows "fst (checked (campaign es (protected_new v))) = v \<and> recoverable (campaign es (protected_new v))"
proof -
  have "primary_state v False (protected_new v)" by (simp add: primary_state_def protected_new_def)
  then obtain h where "primary_state v h (campaign es (protected_new v))"
    using campaign_primary assms by blast
  then show ?thesis using primary_state_checked by blast
qed

theorem sparse_campaign_keeps_value_witness:
  "fst (checked (campaign [Flip 3, Flip 80, Scrub, Flip 70, Flip 80] (protected_new 12))) = 12"
  using sparse_campaign_keeps_value [of "[Flip 3, Flip 80, Scrub, Flip 70, Flip 80]" 12] by simp

text \<open>
  The counters account for every verification: over any sequence of recorded outcomes the
  number of checks grows by their number and the three damage counters together by the number of
  outcomes that were not clean (all modulo the width of the counters).
\<close>

theorem counters_balance:
  "checks (fold record_outcome outcomes st) = checks st + of_nat (length outcomes) \<and>
   ecc_corrections (fold record_outcome outcomes st) + tmr_corrections (fold record_outcome outcomes st)
     + unrecoverable (fold record_outcome outcomes st)
   = ecc_corrections st + tmr_corrections st + unrecoverable st
     + of_nat (length (filter (\<lambda>i. i \<noteq> Clean) outcomes))"
proof (induction outcomes arbitrary: st)
  case Nil
  then show ?case by simp
next
  case (Cons i outcomes)
  show ?case
    using Cons [of "record_outcome i st"]
    by (cases i) (auto simp: record_outcome_def Let_def algebra_simps)
qed

end
