(* ===== verification/Chronometer.thy ===== *)
theory Chronometer
  imports Redundancy
begin

text \<open>
  \<open>crates/nanochrono-core/src/context.rs\<close>: the chronometer, its calibration, the conversions
  between counter units and time, the elapsed reading with its once-a-second integrity
  checkpoint, and the overhead measurements.

  A read of the architectural counter or of the monotonic clock is an argument of the operation
  that makes it, in the order the operation makes its reads; a polling loop takes the list of the
  readings it polls and is \<open>None\<close> while that list does not yet end the loop.  The drift figure is
  an \<open>f64\<close> computed by floating-point arithmetic from two rates; that computation is the
  parameter \<open>ppm\<close> of \<open>elapsed_units\<close> and its value is the last field of the record, of an
  unspecified type.  The \<open>backend\<close> field is a name that no operation modelled here reads.
\<close>

record 'f chronometer =
  counter_hz :: protected
  ch_start_units :: protected
  start_ns :: u64
  window_units :: u64
  window_ns :: u64
  overhead_units :: u64
  ch_last_integrity :: integrity
  drift_ppm :: 'f

section \<open>Unit conversions\<close>

text \<open>
  \<open>(a as u128 * b) / c as u128) as u64\<close>: the product of a 64-bit value and a 64-bit factor fits
  128 bits, so only the final cast can lose bits.
\<close>

definition mul_div_u64 :: "u64 \<Rightarrow> nat \<Rightarrow> nat \<Rightarrow> u64" where
  "mul_div_u64 a b c = of_nat (unat a * b div c)"

definition units_to_ns :: "'f chronometer \<Rightarrow> u64 \<Rightarrow> u64" where
  "units_to_ns ch units =
     (let hz = get_raw (counter_hz ch)
      in if hz = 0 then 0 else mul_div_u64 units 1000000000 (unat hz))"

definition units_to_us :: "'f chronometer \<Rightarrow> u64 \<Rightarrow> u64" where
  "units_to_us ch units =
     (let hz = get_raw (counter_hz ch)
      in if hz = 0 then 0 else mul_div_u64 units 1000000 (unat hz))"

definition units_to_ms :: "'f chronometer \<Rightarrow> u64 \<Rightarrow> u64" where
  "units_to_ms ch units =
     (let hz = get_raw (counter_hz ch)
      in if hz = 0 then 0 else mul_div_u64 units 1000 (unat hz))"

definition ns_to_units :: "'f chronometer \<Rightarrow> u64 \<Rightarrow> u64" where
  "ns_to_units ch ns = mul_div_u64 ns (unat (get_raw (counter_hz ch))) 1000000000"

section \<open>Calibration\<close>

text \<open>
  The calibration loop polls the monotonic clock until \<open>window_ns\<close> nanoseconds have passed since
  \<open>ns0\<close>; \<open>None\<close> is a loop that has not ended within the given readings.
\<close>

fun calibration_wait :: "u64 \<Rightarrow> u64 \<Rightarrow> u64 list \<Rightarrow> unit option" where
  "calibration_wait window ns0 [] = None"
| "calibration_wait window ns0 (now # later) =
     (if now - ns0 \<ge> window then Some () else calibration_wait window ns0 later)"

definition set_hz :: "u64 \<Rightarrow> 'f chronometer \<Rightarrow> 'f chronometer" where
  "set_hz hz ch = ch\<lparr>counter_hz := set_value hz (counter_hz ch)\<rparr>"

definition calibrate ::
  "u64 option \<Rightarrow> u32 \<Rightarrow> u64 \<Rightarrow> u64 \<Rightarrow> u64 list \<Rightarrow> u64 \<Rightarrow> u64 \<Rightarrow> 'f chronometer \<Rightarrow> (bool \<times> 'f chronometer) option" where
  "calibrate declared ms ns0 c0 polls c1 ns1 ch =
     (case declared of
        Some hz \<Rightarrow> Some (True, set_hz hz ch)
      | None \<Rightarrow>
          (let window = ucast (max ms 1) * 1000000
           in case calibration_wait window ns0 polls of
                None \<Rightarrow> None
              | Some _ \<Rightarrow>
                  (let d_units = c1 - c0;
                       d_ns = ns1 - ns0
                   in if d_ns = 0 \<or> d_units = 0 then Some (False, ch)
                      else
                        (let hz = mul_div_u64 d_units 1000000000 (unat d_ns)
                         in Some (True, set_hz (max hz 1) ch)))))"

definition reset :: "u64 \<Rightarrow> u64 \<Rightarrow> 'f \<Rightarrow> 'f chronometer \<Rightarrow> 'f chronometer" where
  "reset units ns zero ch =
     ch\<lparr>ch_start_units := set_value units (ch_start_units ch), start_ns := ns,
        window_units := units, window_ns := ns, drift_ppm := zero\<rparr>"

definition start :: "u64 \<Rightarrow> u64 \<Rightarrow> 'f chronometer \<Rightarrow> u64 \<times> 'f chronometer" where
  "start units ns ch =
     (units, ch\<lparr>ch_start_units := set_value units (ch_start_units ch), start_ns := ns,
        window_units := units, window_ns := ns\<rparr>)"

text \<open>The construction of \<open>with_backend\<close>: the initial record, a 200 ms calibration and a reset.\<close>

definition DEFAULT_CALIBRATION_MS :: u32 where
  "DEFAULT_CALIBRATION_MS = 200"

definition with_backend ::
  "u64 \<Rightarrow> u64 option \<Rightarrow> u64 \<Rightarrow> u64 \<Rightarrow> u64 list \<Rightarrow> u64 \<Rightarrow> u64 \<Rightarrow> u64 \<Rightarrow> u64 \<Rightarrow> 'f \<Rightarrow> 'f chronometer option" where
  "with_backend read_overhead declared ns0 c0 polls c1 ns1 units ns zero =
     (let ctx = \<lparr>counter_hz = protected_new 1, ch_start_units = protected_new 0, start_ns = 0,
          window_units = 0, window_ns = 0, overhead_units = read_overhead,
          ch_last_integrity = Clean, drift_ppm = zero\<rparr>
      in case calibrate declared DEFAULT_CALIBRATION_MS ns0 c0 polls c1 ns1 ctx of
           None \<Rightarrow> None
         | Some (_, ctx) \<Rightarrow> Some (reset units ns zero ctx))"

section \<open>Elapsed time\<close>

definition elapsed_units ::
  "(u64 \<Rightarrow> u64 \<Rightarrow> 'f) \<Rightarrow> u64 \<Rightarrow> u64 \<Rightarrow> 'f chronometer \<Rightarrow> (u64 \<times> 'f chronometer) counted" where
  "elapsed_units ppm now_units now_ns ch =
     do {
       ch \<leftarrow> (let d_ns = now_ns - window_ns ch
              in if d_ns \<ge> 1000000000 then
                   do {
                     (i1, hz_word) \<leftarrow> verify (counter_hz ch);
                     (i2, start_word) \<leftarrow> verify (ch_start_units ch);
                     let d_units = now_units - window_units ch;
                         instant_hz = mul_div_u64 d_units 1000000000 (unat d_ns);
                         hz = get_raw hz_word;
                         drift = (if instant_hz \<noteq> 0 \<and> hz \<noteq> 0 then ppm instant_hz hz else drift_ppm ch)
                     in State_Monad.return
                          (ch\<lparr>counter_hz := hz_word, ch_start_units := start_word,
                              ch_last_integrity := integrity_max i1 i2, drift_ppm := drift,
                              window_units := now_units, window_ns := now_ns\<rparr>)
                   }
                 else State_Monad.return ch);
       (origin, _) \<leftarrow> get_checked (ch_start_units ch);
       State_Monad.return (now_units - origin, ch)
     }"

definition elapsed_ns ::
  "(u64 \<Rightarrow> u64 \<Rightarrow> 'f) \<Rightarrow> u64 \<Rightarrow> u64 \<Rightarrow> 'f chronometer \<Rightarrow> (u64 \<times> 'f chronometer) counted" where
  "elapsed_ns ppm now_units now_ns ch =
     do {
       (units, ch) \<leftarrow> elapsed_units ppm now_units now_ns ch;
       State_Monad.return (units_to_ns ch units, ch)
     }"

definition elapsed_us ::
  "(u64 \<Rightarrow> u64 \<Rightarrow> 'f) \<Rightarrow> u64 \<Rightarrow> u64 \<Rightarrow> 'f chronometer \<Rightarrow> (u64 \<times> 'f chronometer) counted" where
  "elapsed_us ppm now_units now_ns ch =
     do {
       (ns, ch) \<leftarrow> elapsed_ns ppm now_units now_ns ch;
       State_Monad.return (ns div 1000, ch)
     }"

definition elapsed_ms ::
  "(u64 \<Rightarrow> u64 \<Rightarrow> 'f) \<Rightarrow> u64 \<Rightarrow> u64 \<Rightarrow> 'f chronometer \<Rightarrow> (u64 \<times> 'f chronometer) counted" where
  "elapsed_ms ppm now_units now_ns ch =
     do {
       (ns, ch) \<leftarrow> elapsed_ns ppm now_units now_ns ch;
       State_Monad.return (ns div 1000000, ch)
     }"

section \<open>Busy waiting and integrity\<close>

text \<open>The spin loop reads the counter until it reaches the target; \<open>None\<close> is still spinning.\<close>

fun spin_loop :: "u64 \<Rightarrow> u64 list \<Rightarrow> unit option" where
  "spin_loop target [] = None"
| "spin_loop target (now # later) = (if now < target then spin_loop target later else Some ())"

definition spin_ns :: "'f chronometer \<Rightarrow> u64 \<Rightarrow> u64 \<Rightarrow> u64 list \<Rightarrow> unit option" where
  "spin_ns ch ns now polls =
     (if ns = 0 then Some () else spin_loop (now + ns_to_units ch ns) polls)"

definition saturating_mul_u64 :: "u64 \<Rightarrow> u64 \<Rightarrow> u64" where
  "saturating_mul_u64 a b = (if unat a * unat b < 2 ^ 64 then a * b else - 1)"

definition spin_us :: "'f chronometer \<Rightarrow> u64 \<Rightarrow> u64 \<Rightarrow> u64 list \<Rightarrow> unit option" where
  "spin_us ch us now polls = spin_ns ch (saturating_mul_u64 us 1000) now polls"

definition verify_calibration :: "'f chronometer \<Rightarrow> (integrity \<times> 'f chronometer) counted" where
  "verify_calibration ch =
     do {
       (i, word) \<leftarrow> verify (counter_hz ch);
       State_Monad.return (i, ch\<lparr>counter_hz := word, ch_last_integrity := i\<rparr>)
     }"

definition inject_calibration_flip :: "nat \<Rightarrow> 'f chronometer \<Rightarrow> 'f chronometer" where
  "inject_calibration_flip b ch = ch\<lparr>counter_hz := inject_flip b (counter_hz ch)\<rparr>"

section \<open>Overhead measurements\<close>

text \<open>
  The readings are pairs: the counter before and after each measured call.  The list has one entry
  per iteration, of which there is at least one.
\<close>

definition measure_overhead :: "u64 list \<Rightarrow> 'f chronometer \<Rightarrow> u64 \<times> 'f chronometer" where
  "measure_overhead samples ch =
     (let best = (case samples of [] \<Rightarrow> 0 | s # ss \<Rightarrow> fold min ss s)
      in (best, ch\<lparr>overhead_units := best\<rparr>))"

definition measure_ffi_overhead :: "(u64 \<times> u64) list \<Rightarrow> u64" where
  "measure_ffi_overhead pairs =
     (case map (\<lambda>(a, b). b - a) pairs of [] \<Rightarrow> 0 | s # ss \<Rightarrow> fold min ss s)"

definition measure_call_overhead :: "(u64 \<times> u64) list \<Rightarrow> u64" where
  "measure_call_overhead pairs =
     (let best = fold (\<lambda>(a, b) best. min best (b - a)) pairs (- 1)
      in if best = - 1 then 0 else best)"

definition measure_call_avg :: "(u64 \<times> u64) list \<Rightarrow> u32 \<Rightarrow> u64" where
  "measure_call_avg pairs iterations =
     (let n = max iterations 1;
          sum = fold (\<lambda>(a, b) sum. sum + (b - a)) pairs 0
      in sum div ucast n)"

definition collect_samples :: "(u64 \<times> u64) list \<Rightarrow> u64 list" where
  "collect_samples pairs = fold (\<lambda>(a, b) out. out @ [b - a]) pairs []"

section \<open>Lemmas\<close>

lemma unat_mul_div_u64:
  "unat a * b div c < 2 ^ 64 \<Longrightarrow> unat (mul_div_u64 a b c) = unat a * b div c"
  by (simp add: mul_div_u64_def unsigned_of_nat take_bit_nat_eq_self)

lemma mul_div_u64_le:
  assumes "b \<le> c"
  shows "unat (mul_div_u64 a b c) = unat a * b div c"
proof (cases "c = 0")
  case False
  have "unat a * b div c \<le> unat a * c div c"
    using assms by (intro div_le_mono mult_le_mono2)
  also have "\<dots> = unat a" using False by simp
  also have "\<dots> < 2 ^ LENGTH(64)" by (rule unsigned_less)
  also have "\<dots> = 2 ^ 64" by simp
  finally show ?thesis by (rule unat_mul_div_u64)
qed (use assms in \<open>simp add: mul_div_u64_def\<close>)

lemma run_verify_calibration:
  "run_state (verify_calibration ch) st =
     ((snd (checked (counter_hz ch)), ch\<lparr>counter_hz := scrubbed (counter_hz ch),
        ch_last_integrity := snd (checked (counter_hz ch))\<rparr>),
      record_outcome (snd (checked (counter_hz ch))) st)"
  by (simp add: verify_calibration_def State_Monad.bind_def State_Monad.return_def run_verify)

lemma spin_loop_stops:
  "spin_loop target polls = Some () \<Longrightarrow>
     \<exists>k<length polls. target \<le> polls ! k \<and> (\<forall>j<k. polls ! j < target)"
proof (induction polls)
  case Nil
  then show ?case by simp
next
  case (Cons x polls)
  show ?case
  proof (cases "x < target")
    case True
    with Cons obtain k where "k < length polls" "target \<le> polls ! k" "\<forall>j<k. polls ! j < target"
      by auto
    with True show ?thesis by (intro exI [of _ "Suc k"]) (auto simp: less_Suc_eq_0_disj)
  qed auto
qed

text \<open>The state an elapsed reading leaves: scrubbed at a checkpoint, unchanged otherwise.\<close>

definition checkpoint_due :: "u64 \<Rightarrow> 'f chronometer \<Rightarrow> bool" where
  "checkpoint_due now_ns ch \<longleftrightarrow> now_ns - window_ns ch \<ge> 1000000000"

lemma elapsed_units_run:
  "fst (run_state (elapsed_units ppm now_units now_ns ch) st) =
     (now_units - fst (checked (if checkpoint_due now_ns ch then scrubbed (ch_start_units ch) else ch_start_units ch)),
      if checkpoint_due now_ns ch then
        ch\<lparr>counter_hz := scrubbed (counter_hz ch), ch_start_units := scrubbed (ch_start_units ch),
           ch_last_integrity := integrity_max (snd (checked (counter_hz ch))) (snd (checked (ch_start_units ch))),
           drift_ppm := drift_ppm (snd (fst (run_state (elapsed_units ppm now_units now_ns ch) st))),
           window_units := now_units, window_ns := now_ns\<rparr>
      else ch)"
  by (simp add: elapsed_units_def checkpoint_due_def State_Monad.bind_def State_Monad.return_def
      run_verify run_get_checked Let_def case_prod_beta)

lemma elapsed_units_origin:
  assumes "recoverable (ch_start_units ch)"
  shows "fst (fst (run_state (elapsed_units ppm now_units now_ns ch) st)) =
    now_units - fst (checked (ch_start_units ch))"
  using assms by (subst elapsed_units_run) (simp add: scrubbed_checked)

section \<open>Properties\<close>

text \<open>
  The conversion to nanoseconds is the exact quotient rounded down whenever that quotient fits
  64 bits, and an uncalibrated rate of zero gives zero instead of a division by zero.
\<close>

theorem units_to_ns_exact:
  assumes "get_raw (counter_hz ch) \<noteq> 0 \<Longrightarrow>
      unat units * 1000000000 div unat (get_raw (counter_hz ch)) < 2 ^ 64"
  shows "unat (units_to_ns ch units) =
     (if get_raw (counter_hz ch) = 0 then 0
      else unat units * 1000000000 div unat (get_raw (counter_hz ch)))"
  using assms by (simp add: units_to_ns_def Let_def unat_mul_div_u64)

definition demo_chronometer :: "u64 \<Rightarrow> u64 \<Rightarrow> unit chronometer" where
  "demo_chronometer hz origin = \<lparr>counter_hz = protected_new hz, ch_start_units = protected_new origin,
     start_ns = 0, window_units = 0, window_ns = 0, overhead_units = 20,
     ch_last_integrity = Clean, drift_ppm = ()\<rparr>"

theorem units_to_ns_exact_witness:
  "unat (units_to_ns (demo_chronometer 2400000000 0) 24) = 10"
  using units_to_ns_exact [of "demo_chronometer 2400000000 0" 24]
  by (simp add: demo_chronometer_def get_raw_def)

text \<open>
  Converting counter units to nanoseconds and back loses at most the units of one nanosecond,
  plus one, and never gains any.
\<close>

theorem units_ns_round_trip:
  assumes hz: "0 < unat (get_raw (counter_hz ch))"
    and fits: "unat units * 1000000000 div unat (get_raw (counter_hz ch)) < 2 ^ 64"
  shows "unat (ns_to_units ch (units_to_ns ch units)) \<le> unat units \<and>
    unat units \<le> unat (ns_to_units ch (units_to_ns ch units)) + unat (get_raw (counter_hz ch)) div 1000000000 + 1"
proof -
  let ?h = "unat (get_raw (counter_hz ch))" and ?u = "unat units"
  let ?G = "1000000000 :: nat"
  define n where "n = ?u * ?G div ?h"
  have "get_raw (counter_hz ch) \<noteq> 0" using hz by auto
  then have n: "unat (units_to_ns ch units) = n"
    using fits by (simp add: units_to_ns_def Let_def unat_mul_div_u64 n_def)
  have lower: "n * ?h \<le> ?u * ?G" by (simp add: n_def)
  have upper: "?u * ?G < n * ?h + ?h"
    using hz dividend_less_div_times [of ?h "?u * ?G"] by (simp add: n_def)
  have bk: "n * ?h div ?G \<le> ?u"
    using div_le_mono [OF lower, of ?G] by simp
  have "?u < 2 ^ LENGTH(64)" by (rule unsigned_less)
  with bk have "unat (ns_to_units ch (units_to_ns ch units)) = n * ?h div ?G"
    by (simp add: ns_to_units_def unat_mul_div_u64 n)
  moreover have "?u \<le> n * ?h div ?G + ?h div ?G + 1"
  proof -
    have "?u * ?G < (n * ?h div ?G + 1) * ?G + (?h div ?G + 1) * ?G"
      using upper dividend_less_div_times [of ?G "n * ?h"] dividend_less_div_times [of ?G "?h"]
      by (simp add: algebra_simps)
    then have "?u * ?G < (n * ?h div ?G + ?h div ?G + 2) * ?G" by (simp add: algebra_simps)
    then show ?thesis by simp
  qed
  ultimately show ?thesis using bk by simp
qed

theorem units_ns_round_trip_witness:
  "unat (ns_to_units (demo_chronometer 24000000 0) (units_to_ns (demo_chronometer 24000000 0) 1000)) \<le> 1000 \<and>
   1000 \<le> unat (ns_to_units (demo_chronometer 24000000 0) (units_to_ns (demo_chronometer 24000000 0) 1000)) + 1"
  using units_ns_round_trip [of "demo_chronometer 24000000 0" 1000]
  by (simp add: demo_chronometer_def get_raw_def)

text \<open>
  A measured calibration is self-consistent: it succeeds exactly when both deltas are nonzero,
  stores a nonzero rate under a fresh code, and converting the measured units back with the new
  rate gives at least the measured nanoseconds (the rate is rounded down).
\<close>

theorem calibrate_self_consistent:
  assumes cal: "calibrate None ms ns0 c0 polls c1 ns1 ch = Some (True, ch')"
    and fits: "unat (c1 - c0) * 1000000000 div unat (ns1 - ns0) < 2 ^ 64"
      "unat (c1 - c0) * 1000000000 < 2 ^ 64"
    and rate: "unat (ns1 - ns0) \<le> unat (c1 - c0) * 1000000000"
  shows "counter_hz ch' = protected_new (get_raw (counter_hz ch')) \<and>
    unat (get_raw (counter_hz ch')) = unat (c1 - c0) * 1000000000 div unat (ns1 - ns0) \<and>
    unat (ns1 - ns0) \<le> unat (units_to_ns ch' (c1 - c0))"
proof -
  define hz where "hz = mul_div_u64 (c1 - c0) 1000000000 (unat (ns1 - ns0))"
  from cal have nz: "ns1 - ns0 \<noteq> 0" "c1 - c0 \<noteq> 0" and ch': "ch' = set_hz (max hz 1) ch"
    by (auto simp: calibrate_def Let_def hz_def split: option.splits if_splits)
  let ?d = "unat (ns1 - ns0)" and ?u = "unat (c1 - c0)"
  have d: "0 < ?d" using nz by (simp add: unat_gt_0)
  have q: "unat hz = ?u * 1000000000 div ?d" using fits(1) by (simp add: hz_def unat_mul_div_u64)
  have pos: "0 < ?u * 1000000000 div ?d"
    using rate d by (simp add: div_greater_zero_iff)
  then have "hz \<noteq> 0" using q by auto
  then have "1 \<le> hz" by (simp add: word_le_nat_alt Suc_le_eq unat_gt_0)
  then have "max hz 1 = hz" by (simp add: max_def)
  then have raw: "get_raw (counter_hz ch') = hz" "counter_hz ch' = protected_new hz"
    by (simp_all add: ch' set_hz_def get_raw_def)
  have "?d * unat hz \<le> ?u * 1000000000" by (simp add: q mult.commute)
  then have "?d \<le> ?u * 1000000000 div unat hz"
    using pos q by (simp add: less_eq_div_iff_mult_less_eq)
  moreover have "?u * 1000000000 div unat hz < 2 ^ 64"
    using fits(2) by (meson div_le_dividend le_less_trans)
  then have "unat (units_to_ns ch' (c1 - c0)) = ?u * 1000000000 div unat hz"
    using \<open>hz \<noteq> 0\<close> raw by (simp add: units_to_ns_def Let_def unat_mul_div_u64)
  ultimately show ?thesis using raw q by simp
qed

theorem calibrate_self_consistent_witness:
  "\<exists>ch'. calibrate None 10 0 0 [5, 10000000] 240000 10000000 (demo_chronometer 1 0) = Some (True, ch') \<and>
     get_raw (counter_hz ch') = 24000000 \<and> unat (units_to_ns ch' 240000) \<ge> 10000000"
proof -
  let ?ch = "set_hz 24000000 (demo_chronometer 1 0)"
  have c: "calibrate None 10 0 0 [5, 10000000] 240000 10000000 (demo_chronometer 1 0) = Some (True, ?ch)"
    by (simp add: calibrate_def mul_div_u64_def max_def word_le_nat_alt)
  from calibrate_self_consistent [OF c] have "10000000 \<le> unat (units_to_ns ?ch 240000)" by simp
  moreover have "get_raw (counter_hz ?ch) = 24000000" by (simp add: set_hz_def get_raw_def)
  ultimately show ?thesis using c by blast
qed

text \<open>
  The elapsed reading is immune to recoverable damage of its origin: the difference is taken
  from the value the origin stands for, at a checkpoint and between checkpoints.
\<close>

theorem elapsed_units_immune:
  assumes "recoverable (ch_start_units ch)"
  shows "fst (fst (run_state (elapsed_units ppm now_units now_ns ch) st)) =
    now_units - fst (checked (ch_start_units ch))"
  using elapsed_units_origin [OF assms] .

theorem elapsed_units_immune_witness:
  "fst (fst (run_state (elapsed_units (\<lambda>_ _. ()) 1500 10 (demo_chronometer 1000000000 500)) zero_stats)) = 1000"
  using elapsed_units_immune [where ch = "demo_chronometer 1000000000 500" and ppm = "\<lambda>_ _. ()"
      and now_units = 1500 and now_ns = 10 and st = zero_stats]
  by (simp add: demo_chronometer_def)

text \<open>
  At a checkpoint, recoverable damage to the rate is repaired before it is used: the
  nanoseconds reported are those of the undamaged rate and origin, and both stored words are clean
  afterwards.
\<close>

theorem checkpoint_repairs_rate:
  assumes "checkpoint_due now_ns ch" "recoverable (counter_hz ch)" "recoverable (ch_start_units ch)"
  shows "case fst (run_state (elapsed_ns ppm now_units now_ns ch) st) of (ns, ch') \<Rightarrow>
    ns = units_to_ns (ch\<lparr>counter_hz := protected_new (fst (checked (counter_hz ch)))\<rparr>)
           (now_units - fst (checked (ch_start_units ch))) \<and>
    snd (checked (counter_hz ch')) = Clean \<and> snd (checked (ch_start_units ch')) = Clean"
  using assms
  by (simp add: elapsed_ns_def elapsed_units_def checkpoint_due_def State_Monad.bind_def
      State_Monad.return_def run_verify run_get_checked Let_def case_prod_beta scrubbed_checked
      units_to_ns_def get_raw_def)

theorem checkpoint_repairs_rate_witness:
  "fst (fst (run_state (elapsed_ns (\<lambda>_ _. ()) 2500 2000000000
      ((demo_chronometer 1000000000 500)\<lparr>counter_hz := inject_flip 3 (protected_new 1000000000)\<rparr>)) zero_stats)) = 2000"
proof -
  let ?w = "inject_flip 3 (protected_new 1000000000)"
  let ?c = "(demo_chronometer 1000000000 500)\<lparr>counter_hz := ?w\<rparr>"
  have "fst (checked ?w) = 1000000000" "recoverable ?w"
    using checked_inject_flip [of 3 1000000000] by simp_all
  moreover have "checkpoint_due 2000000000 ?c"
    by (simp add: checkpoint_due_def demo_chronometer_def)
  ultimately show ?thesis
    using checkpoint_repairs_rate [where ch = ?c and ppm = "\<lambda>_ _. ()" and now_units = 2500
      and now_ns = 2000000000 and st = zero_stats]
    by (simp add: demo_chronometer_def case_prod_beta units_to_ns_def get_raw_def mul_div_u64_def)
qed

text \<open>
  A spin that ends has waited: when the target does not wrap, the counter reading that ends
  the loop is at least the requested number of units after the start, and every earlier reading
  was short of it.
\<close>

theorem spin_waits_long_enough:
  assumes "spin_ns ch ns now polls = Some ()" "ns \<noteq> 0"
    and "unat now + unat (ns_to_units ch ns) < 2 ^ 64"
  shows "\<exists>k<length polls. unat now + unat (ns_to_units ch ns) \<le> unat (polls ! k) \<and>
    (\<forall>j<k. unat (polls ! j) < unat now + unat (ns_to_units ch ns))"
proof -
  have "spin_loop (now + ns_to_units ch ns) polls = Some ()"
    using assms(1,2) by (simp add: spin_ns_def)
  from spin_loop_stops [OF this] show ?thesis
    using assms(3) by (simp add: word_le_nat_alt word_less_nat_alt unat_word_ariths)
qed

theorem spin_waits_long_enough_witness:
  "spin_ns (demo_chronometer 1000000000 0) 100 50 [60, 149, 150, 151] = Some () \<and>
   (\<exists>k<length [60, 149, 150, 151 :: u64]. unat (50 :: u64) + unat (100 :: u64) \<le> unat ([60, 149, 150, 151 :: u64] ! k))"
proof -
  have s: "spin_ns (demo_chronometer 1000000000 0) 100 50 [60, 149, 150, 151] = Some ()"
    "ns_to_units (demo_chronometer 1000000000 0) 100 = 100"
    by (simp_all add: spin_ns_def ns_to_units_def mul_div_u64_def demo_chronometer_def get_raw_def)
  with spin_waits_long_enough [OF s(1)] show ?thesis unfolding s(2) by auto
qed

end
