(* ===== verification/Stopwatch.thy ===== *)
theory Stopwatch
  imports Chronometer
begin

text \<open>
  \<open>crates/nanochrono-core/src/stopwatch.rs\<close>: the stopwatch state machine.  Every number it keeps
  across time is a protected word.  A read of the counter is an argument of the operation that
  makes it; the outcomes recorded by the verifications go to the counters of the state monad of
  theory Redundancy.

  The abstract specification is a stopwatch over plain numbers.  The refinement lemma says that
  the protected stopwatch, under any fault campaign against its total that its scrubs can keep up
  with, behaves as the plain one does with no faults at all.
\<close>

section \<open>The state machine\<close>

datatype stopwatch_state = Reset | Running | Paused | Stopped

definition stopwatch_state_name :: "stopwatch_state \<Rightarrow> string" where
  "stopwatch_state_name s = (case s of Reset \<Rightarrow> ''reset'' | Running \<Rightarrow> ''running''
     | Paused \<Rightarrow> ''paused'' | Stopped \<Rightarrow> ''stopped'')"

definition is_running :: "stopwatch_state \<Rightarrow> bool" where
  "is_running s \<longleftrightarrow> s = Running"

record stopwatch =
  sw_state :: stopwatch_state
  accumulated_ns :: protected
  start_units :: "protected option"
  laps :: "protected list"
  last_integrity :: integrity

definition stopwatch_new :: stopwatch where
  "stopwatch_new = \<lparr>sw_state = Reset, accumulated_ns = protected_new 0, start_units = None,
     laps = [], last_integrity = Clean\<rparr>"

text \<open>The lap iterator, consumed to its end.\<close>

fun lap_values :: "protected list \<Rightarrow> u64 list counted" where
  "lap_values [] = State_Monad.return []"
| "lap_values (l # ls) =
     do {
       (v, _) \<leftarrow> get_checked l;
       vs \<leftarrow> lap_values ls;
       State_Monad.return (v # vs)
     }"

definition lap_count :: "stopwatch \<Rightarrow> nat" where
  "lap_count sw = length (laps sw)"

definition last_lap :: "stopwatch \<Rightarrow> u64 option counted" where
  "last_lap sw =
     (if laps sw = [] then State_Monad.return None
      else do {
        (v, _) \<leftarrow> get_checked (last (laps sw));
        State_Monad.return (Some v)
      })"

definition sw_elapsed_ns :: "'f chronometer \<Rightarrow> u64 \<Rightarrow> stopwatch \<Rightarrow> u64 counted" where
  "sw_elapsed_ns ch now sw =
     do {
       (accumulated, _) \<leftarrow> get_checked (accumulated_ns sw);
       (case start_units sw of
          Some start_word \<Rightarrow>
            do {
              (origin, _) \<leftarrow> get_checked start_word;
              State_Monad.return (saturating_add accumulated (units_to_ns ch (now - origin)))
            }
        | None \<Rightarrow> State_Monad.return accumulated)
     }"

fun integrity_laps :: "integrity \<Rightarrow> protected list \<Rightarrow> integrity counted" where
  "integrity_laps worst [] = State_Monad.return worst"
| "integrity_laps worst (l # ls) =
     do {
       (_, i) \<leftarrow> get_checked l;
       integrity_laps (integrity_max worst i) ls
     }"

definition sw_integrity :: "stopwatch \<Rightarrow> integrity counted" where
  "sw_integrity sw =
     do {
       (_, worst) \<leftarrow> get_checked (accumulated_ns sw);
       worst \<leftarrow> (case start_units sw of
          Some start_word \<Rightarrow>
            do {
              (_, i) \<leftarrow> get_checked start_word;
              State_Monad.return (integrity_max worst i)
            }
        | None \<Rightarrow> State_Monad.return worst);
       integrity_laps worst (laps sw)
     }"

fun verify_laps :: "integrity \<Rightarrow> protected list \<Rightarrow> (integrity \<times> protected list) counted" where
  "verify_laps worst [] = State_Monad.return (worst, [])"
| "verify_laps worst (l # ls) =
     do {
       (i, l') \<leftarrow> verify l;
       (worst', ls') \<leftarrow> verify_laps (integrity_max worst i) ls;
       State_Monad.return (worst', l' # ls')
     }"

definition sw_verify :: "stopwatch \<Rightarrow> (integrity \<times> stopwatch) counted" where
  "sw_verify sw =
     do {
       (worst, acc) \<leftarrow> verify (accumulated_ns sw);
       (worst, start_word) \<leftarrow> (case start_units sw of
          Some start_word \<Rightarrow>
            do {
              (i, start_word') \<leftarrow> verify start_word;
              State_Monad.return (integrity_max worst i, Some start_word')
            }
        | None \<Rightarrow> State_Monad.return (worst, None));
       (worst, ls) \<leftarrow> verify_laps worst (laps sw);
       State_Monad.return
         (worst, sw\<lparr>accumulated_ns := acc, start_units := start_word, laps := ls, last_integrity := worst\<rparr>)
     }"

definition sw_start :: "u64 \<Rightarrow> stopwatch \<Rightarrow> stopwatch" where
  "sw_start now sw =
     sw\<lparr>accumulated_ns := protected_new 0, laps := [], last_integrity := Clean,
        start_units := Some (protected_new now), sw_state := Running\<rparr>"

definition sw_resume :: "u64 \<Rightarrow> stopwatch \<Rightarrow> stopwatch counted" where
  "sw_resume now sw =
     (if sw_state sw = Running then State_Monad.return sw
      else do {
        (_, sw) \<leftarrow> sw_verify sw;
        State_Monad.return (sw\<lparr>start_units := Some (protected_new now), sw_state := Running\<rparr>)
      })"

definition sw_freeze :: "'f chronometer \<Rightarrow> u64 \<Rightarrow> stopwatch \<Rightarrow> stopwatch counted" where
  "sw_freeze ch now sw =
     do {
       (_, sw) \<leftarrow> sw_verify sw;
       State_Monad.return
         (case start_units sw of
            Some start_word \<Rightarrow>
              (let live = now - get_raw start_word;
                   total = saturating_add (get_raw (accumulated_ns sw)) (units_to_ns ch live)
               in sw\<lparr>start_units := None, accumulated_ns := set_value total (accumulated_ns sw)\<rparr>)
          | None \<Rightarrow> sw)
     }"

definition sw_pause :: "'f chronometer \<Rightarrow> u64 \<Rightarrow> stopwatch \<Rightarrow> stopwatch counted" where
  "sw_pause ch now sw =
     (if sw_state sw \<noteq> Running then State_Monad.return sw
      else do {
        sw \<leftarrow> sw_freeze ch now sw;
        State_Monad.return (sw\<lparr>sw_state := Paused\<rparr>)
      })"

definition sw_stop :: "'f chronometer \<Rightarrow> u64 \<Rightarrow> stopwatch \<Rightarrow> stopwatch counted" where
  "sw_stop ch now sw =
     do {
       sw \<leftarrow> (if sw_state sw = Running then sw_freeze ch now sw else State_Monad.return sw);
       State_Monad.return (sw\<lparr>sw_state := Stopped\<rparr>)
     }"

definition sw_reset :: "stopwatch \<Rightarrow> stopwatch" where
  "sw_reset sw =
     sw\<lparr>accumulated_ns := protected_new 0, start_units := None, laps := [],
        last_integrity := Clean, sw_state := Reset\<rparr>"

definition sw_lap :: "'f chronometer \<Rightarrow> u64 \<Rightarrow> stopwatch \<Rightarrow> (u64 \<times> stopwatch) counted" where
  "sw_lap ch now sw =
     do {
       (_, sw) \<leftarrow> sw_verify sw;
       elapsed \<leftarrow> sw_elapsed_ns ch now sw;
       State_Monad.return (elapsed, sw\<lparr>laps := laps sw @ [protected_new elapsed]\<rparr>)
     }"

definition sw_toggle :: "'f chronometer \<Rightarrow> u64 \<Rightarrow> stopwatch \<Rightarrow> stopwatch counted" where
  "sw_toggle ch now sw =
     (case sw_state sw of
        Reset \<Rightarrow> State_Monad.return (sw_start now sw)
      | Running \<Rightarrow> sw_pause ch now sw
      | Paused \<Rightarrow> sw_resume now sw
      | Stopped \<Rightarrow> sw_resume now sw)"

definition inject_total_flip :: "nat \<Rightarrow> stopwatch \<Rightarrow> stopwatch" where
  "inject_total_flip b sw = sw\<lparr>accumulated_ns := inject_flip b (accumulated_ns sw)\<rparr>"

section \<open>Actions\<close>

text \<open>
  The public operations as events of one transition relation.  The number is the counter reading
  the operation makes; \<open>SwFlip\<close> is a fault in the stored total.
\<close>

datatype sw_event =
    SwStart u64 | SwResume u64 | SwPause u64 | SwStop u64 | SwReset | SwLap u64 | SwToggle u64
  | SwVerify | SwFlip nat

definition sw_apply :: "'f chronometer \<Rightarrow> sw_event \<Rightarrow> stopwatch \<Rightarrow> stopwatch counted" where
  "sw_apply ch e sw =
     (case e of
        SwStart now \<Rightarrow> State_Monad.return (sw_start now sw)
      | SwResume now \<Rightarrow> sw_resume now sw
      | SwPause now \<Rightarrow> sw_pause ch now sw
      | SwStop now \<Rightarrow> sw_stop ch now sw
      | SwReset \<Rightarrow> State_Monad.return (sw_reset sw)
      | SwLap now \<Rightarrow> do { (_, sw) \<leftarrow> sw_lap ch now sw; State_Monad.return sw }
      | SwToggle now \<Rightarrow> sw_toggle ch now sw
      | SwVerify \<Rightarrow> do { (_, sw) \<leftarrow> sw_verify sw; State_Monad.return sw }
      | SwFlip b \<Rightarrow> State_Monad.return (inject_total_flip b sw))"

fun sw_run :: "'f chronometer \<Rightarrow> sw_event list \<Rightarrow> stopwatch \<Rightarrow> stopwatch counted" where
  "sw_run ch [] sw = State_Monad.return sw"
| "sw_run ch (e # es) sw = do { sw \<leftarrow> sw_apply ch e sw; sw_run ch es sw }"

inductive sw_reachable :: "'f chronometer \<Rightarrow> stopwatch \<Rightarrow> integrity_stats \<Rightarrow> bool" for ch where
  sw_init: "sw_reachable ch stopwatch_new st"
| sw_next: "sw_reachable ch sw st \<Longrightarrow> run_state (sw_apply ch e sw) st = (sw', st') \<Longrightarrow> sw_reachable ch sw' st'"

inductive_cases sw_reachableE: "sw_reachable ch sw st"

section \<open>The plain stopwatch\<close>

text \<open>The abstract specification: no protected words, no counters, nothing to scrub.\<close>

record plain_stopwatch =
  p_state :: stopwatch_state
  p_total :: u64
  p_start :: "u64 option"
  p_laps :: "u64 list"

definition plain_new :: plain_stopwatch where
  "plain_new = \<lparr>p_state = Reset, p_total = 0, p_start = None, p_laps = []\<rparr>"

definition plain_elapsed :: "(u64 \<Rightarrow> u64) \<Rightarrow> u64 \<Rightarrow> plain_stopwatch \<Rightarrow> u64" where
  "plain_elapsed conv now p =
     (case p_start p of None \<Rightarrow> p_total p | Some s \<Rightarrow> saturating_add (p_total p) (conv (now - s)))"

definition plain_halt :: "(u64 \<Rightarrow> u64) \<Rightarrow> u64 \<Rightarrow> stopwatch_state \<Rightarrow> plain_stopwatch \<Rightarrow> plain_stopwatch" where
  "plain_halt conv now s p = p\<lparr>p_total := plain_elapsed conv now p, p_start := None, p_state := s\<rparr>"

definition plain_go :: "u64 \<Rightarrow> plain_stopwatch \<Rightarrow> plain_stopwatch" where
  "plain_go now p = p\<lparr>p_start := Some now, p_state := Running\<rparr>"

definition plain_begin :: "u64 \<Rightarrow> plain_stopwatch" where
  "plain_begin now = plain_go now plain_new"

fun plain_apply :: "(u64 \<Rightarrow> u64) \<Rightarrow> sw_event \<Rightarrow> plain_stopwatch \<Rightarrow> plain_stopwatch" where
  "plain_apply conv (SwStart now) p = plain_begin now"
| "plain_apply conv (SwResume now) p = (if p_state p = Running then p else plain_go now p)"
| "plain_apply conv (SwPause now) p = (if p_state p = Running then plain_halt conv now Paused p else p)"
| "plain_apply conv (SwStop now) p =
     (if p_state p = Running then plain_halt conv now Stopped p else p\<lparr>p_state := Stopped\<rparr>)"
| "plain_apply conv SwReset p = plain_new"
| "plain_apply conv (SwLap now) p = p\<lparr>p_laps := p_laps p @ [plain_elapsed conv now p]\<rparr>"
| "plain_apply conv (SwToggle now) p =
     (case p_state p of Reset \<Rightarrow> plain_begin now
      | Running \<Rightarrow> plain_halt conv now Paused p
      | _ \<Rightarrow> plain_go now p)"
| "plain_apply conv SwVerify p = p"
| "plain_apply conv (SwFlip b) p = p"

definition sw_abs :: "stopwatch \<Rightarrow> plain_stopwatch" where
  "sw_abs sw = \<lparr>p_state = sw_state sw, p_total = fst (checked (accumulated_ns sw)),
     p_start = map_option (\<lambda>w. fst (checked w)) (start_units sw),
     p_laps = map (\<lambda>w. fst (checked w)) (laps sw)\<rparr>"

definition sw_words :: "stopwatch \<Rightarrow> protected list" where
  "sw_words sw = accumulated_ns sw # (case start_units sw of None \<Rightarrow> [] | Some w \<Rightarrow> [w]) @ laps sw"

definition healthy :: "stopwatch \<Rightarrow> bool" where
  "healthy sw \<longleftrightarrow> (\<forall>w\<in>set (sw_words sw). recoverable w)"

section \<open>What the operations compute\<close>

definition sw_scrubbed :: "stopwatch \<Rightarrow> stopwatch" where
  "sw_scrubbed sw =
     sw\<lparr>accumulated_ns := scrubbed (accumulated_ns sw), start_units := map_option scrubbed (start_units sw),
        laps := map scrubbed (laps sw), last_integrity := pw.worst (sw_words sw)\<rparr>"

abbreviation outcomes :: "protected list \<Rightarrow> integrity list" where
  "outcomes ws \<equiv> map (\<lambda>w. snd (checked w)) ws"

lemma run_verify_laps [run_simps]:
  "run_state (verify_laps worst ls) st =
     ((fold (\<lambda>w acc. integrity_max acc (snd (checked w))) ls worst, map scrubbed ls),
      fold record_outcome (outcomes ls) st)"
  by (induction worst ls arbitrary: st rule: verify_laps.induct) (simp_all add: run_simps)

lemma run_sw_verify [run_simps]:
  "run_state (sw_verify sw) st =
     ((pw.worst (sw_words sw), sw_scrubbed sw), fold record_outcome (outcomes (sw_words sw)) st)"
  by (cases "start_units sw")
     (simp_all add: sw_verify_def sw_scrubbed_def sw_words_def pw.worst_def run_simps Let_def)

lemma run_integrity_laps:
  "fst (run_state (integrity_laps worst ls) st) =
     fold (\<lambda>w acc. integrity_max acc (snd (checked w))) ls worst"
  by (induction worst ls arbitrary: st rule: integrity_laps.induct) (simp_all add: run_simps case_prod_beta)

lemma run_sw_integrity: "fst (run_state (sw_integrity sw) st) = pw.worst (sw_words sw)"
  by (cases "start_units sw")
     (simp_all add: sw_integrity_def sw_words_def pw.worst_def run_simps run_integrity_laps case_prod_beta)

lemma run_sw_elapsed:
  "fst (run_state (sw_elapsed_ns ch now sw) st) = plain_elapsed (units_to_ns ch) now (sw_abs sw)"
  by (cases "start_units sw") (simp_all add: sw_elapsed_ns_def plain_elapsed_def sw_abs_def run_simps case_prod_beta)

lemma healthy_cases:
  "healthy sw \<longleftrightarrow> recoverable (accumulated_ns sw) \<and>
     (\<forall>w\<in>set_option (start_units sw). recoverable w) \<and> (\<forall>w\<in>set (laps sw). recoverable w)"
  by (auto simp: healthy_def sw_words_def split: option.splits)

lemma healthy_scrubbed [simp]: "healthy sw \<Longrightarrow> healthy (sw_scrubbed sw)"
  by (auto simp: healthy_cases sw_scrubbed_def)

lemma abs_scrubbed [simp]: "healthy sw \<Longrightarrow> sw_abs (sw_scrubbed sw) = sw_abs sw"
  by (auto simp: healthy_cases sw_scrubbed_def sw_abs_def scrubbed_checked option.map_comp
      comp_def intro!: option.map_cong)

lemma state_scrubbed [simp]: "sw_state (sw_scrubbed sw) = sw_state sw"
  by (simp add: sw_scrubbed_def)

lemma run_sw_freeze:
  assumes "healthy sw"
  shows "let sw' = fst (run_state (sw_freeze ch now sw) st) in
    healthy sw' \<and> sw_state sw' = sw_state sw \<and> start_units sw' = None \<and>
    sw_abs sw' = (sw_abs sw)\<lparr>p_total := plain_elapsed (units_to_ns ch) now (sw_abs sw), p_start := None\<rparr>"
  using assms
  by (cases "start_units sw")
     (auto simp: sw_freeze_def run_simps Let_def sw_scrubbed_def healthy_cases sw_abs_def
        plain_elapsed_def get_raw_def scrubbed_checked comp_def)

section \<open>Refinement\<close>

definition is_flip :: "sw_event \<Rightarrow> bool" where
  "is_flip e = (case e of SwFlip _ \<Rightarrow> True | _ \<Rightarrow> False)"

abbreviation sw_after :: "'f chronometer \<Rightarrow> sw_event \<Rightarrow> stopwatch \<Rightarrow> integrity_stats \<Rightarrow> stopwatch" where
  "sw_after ch e sw st \<equiv> fst (run_state (sw_apply ch e sw) st)"

lemma fst_run_pause:
  assumes "healthy sw"
  shows "let sw' = fst (run_state (sw_pause ch now sw) st) in
    healthy sw' \<and> sw_abs sw' = plain_apply (units_to_ns ch) (SwPause now) (sw_abs sw)"
proof (cases "sw_state sw = Running")
  case True
  then show ?thesis
    using run_sw_freeze [OF assms, of ch now st]
    by (auto simp: sw_pause_def run_simps case_prod_beta Let_def healthy_cases plain_halt_def sw_abs_def)
next
  case False
  with assms show ?thesis by (simp add: sw_pause_def run_simps sw_abs_def)
qed

lemma fst_run_stop:
  assumes "healthy sw"
  shows "let sw' = fst (run_state (sw_stop ch now sw) st) in
    healthy sw' \<and> sw_abs sw' = plain_apply (units_to_ns ch) (SwStop now) (sw_abs sw)"
proof (cases "sw_state sw = Running")
  case True
  then show ?thesis
    using run_sw_freeze [OF assms, of ch now st]
    by (auto simp: sw_stop_def run_simps case_prod_beta Let_def healthy_cases plain_halt_def sw_abs_def)
next
  case False
  with assms show ?thesis by (auto simp: sw_stop_def run_simps sw_abs_def healthy_cases)
qed

lemma fst_run_resume:
  assumes "healthy sw"
  shows "let sw' = fst (run_state (sw_resume now sw) st) in
    healthy sw' \<and> sw_abs sw' = plain_apply conv (SwResume now) (sw_abs sw)"
proof (cases "sw_state sw = Running")
  case True
  with assms show ?thesis by (simp add: sw_resume_def run_simps sw_abs_def)
next
  case False
  from assms have "healthy (sw_scrubbed sw)" "sw_abs (sw_scrubbed sw) = sw_abs sw" by simp_all
  with False show ?thesis
    by (auto simp: sw_resume_def run_simps healthy_cases sw_abs_def plain_go_def)
qed

lemma fst_run_lap:
  assumes "healthy sw"
  shows "let sw' = snd (fst (run_state (sw_lap ch now sw) st)) in
    healthy sw' \<and> sw_abs sw' = plain_apply (units_to_ns ch) (SwLap now) (sw_abs sw)"
proof -
  from assms have "healthy (sw_scrubbed sw)" "sw_abs (sw_scrubbed sw) = sw_abs sw" by simp_all
  then show ?thesis
    by (auto simp: sw_lap_def run_simps run_sw_elapsed case_prod_beta healthy_cases sw_abs_def)
qed

lemma fst_run_start:
  "healthy (sw_start now sw)" "sw_abs (sw_start now sw) = plain_begin now"
  "healthy (sw_reset sw)" "sw_abs (sw_reset sw) = plain_new"
  "healthy stopwatch_new" "sw_abs stopwatch_new = plain_new"
  by (simp_all add: sw_start_def sw_reset_def stopwatch_new_def healthy_cases sw_abs_def
      plain_begin_def plain_go_def plain_new_def)

lemma sw_apply_refines:
  assumes "healthy sw" "\<not> is_flip e"
  shows "healthy (sw_after ch e sw st) \<and>
    sw_abs (sw_after ch e sw st) = plain_apply (units_to_ns ch) e (sw_abs sw)"
proof (cases e)
  case (SwStart now)
  then show ?thesis by (simp add: sw_apply_def run_simps fst_run_start)
next
  case (SwResume now)
  then show ?thesis using fst_run_resume [OF assms(1)] by (auto simp: sw_apply_def Let_def)
next
  case (SwPause now)
  then show ?thesis using fst_run_pause [OF assms(1)] by (auto simp: sw_apply_def Let_def)
next
  case (SwStop now)
  then show ?thesis using fst_run_stop [OF assms(1)] by (auto simp: sw_apply_def Let_def)
next
  case SwReset
  then show ?thesis by (simp add: sw_apply_def run_simps fst_run_start)
next
  case (SwLap now)
  then show ?thesis using fst_run_lap [OF assms(1)]
    by (auto simp: sw_apply_def Let_def run_simps case_prod_beta)
next
  case (SwToggle now)
  then show ?thesis
    using fst_run_pause [OF assms(1), of ch now st]
      fst_run_resume [OF assms(1), of now st "units_to_ns ch"]
    by (cases "sw_state sw")
       (auto simp: sw_apply_def sw_toggle_def run_simps fst_run_start Let_def, simp_all add: sw_abs_def)
next
  case SwVerify
  then show ?thesis using assms(1) by (simp add: sw_apply_def run_simps)
next
  case (SwFlip b)
  then show ?thesis using assms(2) by (simp add: is_flip_def)
qed

section \<open>Fault campaigns against the total\<close>

text \<open>
  A run is \<^emph>\<open>gentle\<close> when the working copy of the total is hit at most once between two of the
  operations that always scrub or replace it.  Hits on the replicas are not limited.
\<close>

definition scrubs :: "sw_event \<Rightarrow> bool" where
  "scrubs e = (case e of SwStart _ \<Rightarrow> True | SwReset \<Rightarrow> True | SwLap _ \<Rightarrow> True | SwVerify \<Rightarrow> True | _ \<Rightarrow> False)"

fun gentle :: "bool \<Rightarrow> sw_event list \<Rightarrow> bool" where
  "gentle hit [] = True"
| "gentle hit (e # es) =
     (case e of
        SwFlip b \<Rightarrow> (if b < 72 then \<not> hit \<and> gentle True es else gentle hit es)
      | _ \<Rightarrow> gentle (hit \<and> \<not> scrubs e) es)"

definition total_state :: "bool \<Rightarrow> stopwatch \<Rightarrow> bool" where
  "total_state hit sw \<longleftrightarrow> primary_state (fst (checked (accumulated_ns sw))) hit (accumulated_ns sw)"

lemma primary_state_new [simp]: "primary_state v hit (protected_new v)"
  by (simp add: primary_state_def protected_new_def)

lemma primary_state_mono: "primary_state v hit p \<Longrightarrow> (hit \<Longrightarrow> hit') \<Longrightarrow> primary_state v hit' p"
  by (auto simp: primary_state_def)

lemma total_after:
  assumes "\<not> is_flip e"
  shows "let acc = accumulated_ns (sw_after ch e sw st) in
    acc = scrubbed (accumulated_ns sw) \<or> (\<exists>v. acc = protected_new v) \<or>
    \<not> scrubs e \<and> acc = accumulated_ns sw"
proof -
  have fr: "accumulated_ns (fst (run_state (sw_freeze ch now sw) st)) = scrubbed (accumulated_ns sw) \<or>
      (\<exists>v. accumulated_ns (fst (run_state (sw_freeze ch now sw) st)) = protected_new v)" for now st
    by (auto simp: sw_freeze_def run_simps sw_scrubbed_def Let_def split: option.splits)
  show ?thesis
    using assms fr
    by (cases e; cases "sw_state sw")
       (auto simp: sw_apply_def is_flip_def scrubs_def run_simps sw_pause_def sw_stop_def sw_resume_def
          sw_lap_def sw_start_def sw_reset_def sw_toggle_def case_prod_beta sw_scrubbed_def Let_def)
qed

lemma total_state_after:
  assumes "\<not> is_flip e" "total_state hit sw"
  shows "total_state (hit \<and> \<not> scrubs e) (sw_after ch e sw st)"
proof -
  let ?acc = "accumulated_ns sw"
  have s: "primary_state (fst (checked (scrubbed ?acc))) False (scrubbed ?acc)"
    using assms(2) primary_state_scrub [of "fst (checked ?acc)" hit ?acc]
      primary_state_checked(2) [of "fst (checked ?acc)" hit ?acc]
    by (simp add: total_state_def scrubbed_checked)
  from total_after [OF assms(1), of ch sw st]
  consider "accumulated_ns (sw_after ch e sw st) = scrubbed ?acc"
    | v where "accumulated_ns (sw_after ch e sw st) = protected_new v"
    | "\<not> scrubs e" "accumulated_ns (sw_after ch e sw st) = ?acc"
    by (auto simp: Let_def)
  then show ?thesis
  proof cases
    case 1
    with s show ?thesis by (auto simp: total_state_def intro: primary_state_mono)
  next
    case 2
    then show ?thesis by (simp add: total_state_def)
  next
    case 3
    with assms(2) show ?thesis by (simp add: total_state_def)
  qed
qed

lemma total_state_flip:
  assumes "total_state hit sw" "b < 72 \<Longrightarrow> \<not> hit" "healthy sw"
  shows "total_state (hit \<or> b < 72) (inject_total_flip b sw)"
    and "healthy (inject_total_flip b sw)" and "sw_abs (inject_total_flip b sw) = sw_abs sw"
proof -
  let ?v = "fst (checked (accumulated_ns sw))"
  have p: "primary_state ?v (hit \<or> b < 72) (inject_flip b (accumulated_ns sw))"
    using assms(1,2) by (intro primary_state_flip) (simp_all add: total_state_def)
  from primary_state_checked [OF this] p assms(3)
  show "total_state (hit \<or> b < 72) (inject_total_flip b sw)" "healthy (inject_total_flip b sw)"
    "sw_abs (inject_total_flip b sw) = sw_abs sw"
    by (auto simp: total_state_def inject_total_flip_def healthy_cases sw_abs_def)
qed

lemma gentle_run:
  assumes "healthy sw" "total_state hit sw" "gentle hit es"
  shows "healthy (fst (run_state (sw_run ch es sw) st)) \<and>
    sw_abs (fst (run_state (sw_run ch es sw) st)) = fold (plain_apply (units_to_ns ch)) es (sw_abs sw)"
  using assms
proof (induction es arbitrary: hit sw st)
  case Nil
  then show ?case by (simp add: run_simps)
next
  case (Cons e es)
  show ?case
  proof (cases "is_flip e")
    case True
    then obtain b where e: "e = SwFlip b" by (cases e) (auto simp: is_flip_def)
    with Cons.prems have "b < 72 \<Longrightarrow> \<not> hit" and g: "gentle (hit \<or> b < 72) es"
      by (auto split: if_splits)
    from total_state_flip [OF Cons.prems(2) this(1) Cons.prems(1)] Cons.IH [OF _ _ g]
    show ?thesis by (simp add: e sw_apply_def run_simps)
  next
    case False
    with Cons.prems(3) have g: "gentle (hit \<and> \<not> scrubs e) es"
      by (cases e) (auto simp: is_flip_def)
    from sw_apply_refines [OF Cons.prems(1) False, of ch st] total_state_after [OF False Cons.prems(2), of ch st]
      Cons.IH [OF _ _ g]
    show ?thesis by (simp add: run_simps case_prod_beta)
  qed
qed

section \<open>Segments\<close>

text \<open>A start, and the pauses and resumes that follow it, as events; each pair is one live segment.\<close>

fun resume_pause :: "(u64 \<times> u64) list \<Rightarrow> sw_event list" where
  "resume_pause [] = []"
| "resume_pause ((s, e) # segs) = SwResume s # SwPause e # resume_pause segs"

definition segment_total :: "(u64 \<Rightarrow> u64) \<Rightarrow> u64 \<Rightarrow> (u64 \<times> u64) list \<Rightarrow> u64" where
  "segment_total conv v segs = fold (\<lambda>(s, e) acc. saturating_add acc (conv (e - s))) segs v"

lemma plain_segments:
  assumes "p_state p \<noteq> Running" "p_start p = None"
  shows "p_total (fold (plain_apply conv) (resume_pause segs) p) = segment_total conv (p_total p) segs \<and>
    p_start (fold (plain_apply conv) (resume_pause segs) p) = None"
  using assms
  by (induction segs arbitrary: p rule: resume_pause.induct)
     (simp_all add: plain_go_def plain_halt_def plain_elapsed_def segment_total_def)

lemma gentle_resume_pause: "gentle hit (resume_pause segs)"
  by (induction segs arbitrary: hit rule: resume_pause.induct) (simp_all add: scrubs_def)

lemma unat_segment_total:
  assumes "unat v + sum_list (map (\<lambda>(s, e). unat (conv (e - s))) segs) < 2 ^ 64"
  shows "unat (segment_total conv v segs) = unat v + sum_list (map (\<lambda>(s, e). unat (conv (e - s))) segs)"
  using assms
proof (induction segs arbitrary: v)
  case Nil
  then show ?case by (simp add: segment_total_def)
next
  case (Cons seg segs)
  obtain s e where seg: "seg = (s, e)" by fastforce
  have v: "unat (saturating_add v (conv (e - s))) = unat v + unat (conv (e - s))"
    using Cons.prems by (simp add: unat_saturating_add seg)
  have "unat (segment_total conv (saturating_add v (conv (e - s))) segs) =
      unat v + unat (conv (e - s)) + sum_list (map (\<lambda>(s, e). unat (conv (e - s))) segs)"
    using Cons.IH [of "saturating_add v (conv (e - s))"] Cons.prems v by (simp add: seg)
  then show ?case by (simp add: segment_total_def seg)
qed

section \<open>Properties\<close>

text \<open>
  C5. Every operation of the stopwatch refines the plain stopwatch: whatever damage its words
  have taken, as long as each is still recoverable, the operation has the effect of the plain
  operation on the values they stand for, and leaves every word recoverable.
\<close>

theorem stopwatch_refines_plain:
  assumes "healthy sw" "\<not> is_flip e"
  shows "healthy (fst (run_state (sw_apply ch e sw) st)) \<and>
    sw_abs (fst (run_state (sw_apply ch e sw) st)) = plain_apply (units_to_ns ch) e (sw_abs sw)"
  by (rule sw_apply_refines [OF assms])

theorem stopwatch_refines_plain_witness:
  "sw_abs (fst (run_state (sw_apply (demo_chronometer 1000000000 0) (SwPause 75)
      (inject_total_flip 9 (sw_start 25 stopwatch_new))) zero_stats)) =
    \<lparr>p_state = Paused, p_total = 50, p_start = None, p_laps = []\<rparr>"
proof -
  let ?sw = "inject_total_flip 9 (sw_start 25 stopwatch_new)"
  have "healthy ?sw" "sw_abs ?sw = \<lparr>p_state = Running, p_total = 0, p_start = Some 25, p_laps = []\<rparr>"
    using checked_inject_flip [of 9 0]
    by (simp_all add: healthy_cases sw_abs_def inject_total_flip_def sw_start_def stopwatch_new_def)
  then show ?thesis
    using stopwatch_refines_plain [of ?sw "SwPause 75" "demo_chronometer 1000000000 0" zero_stats]
    by (simp add: is_flip_def plain_halt_def plain_elapsed_def units_to_ns_def get_raw_def
        demo_chronometer_def mul_div_u64_def)
qed

text \<open>
  C6. A stopwatch under fire behaves as one with no faults: over any run of operations and flips
  of the total in which the working copy is hit at most once between two scrubbing operations,
  the state reached stands for the state of the plain stopwatch that took the operations alone,
  and its elapsed reading is the plain one.
\<close>

theorem stopwatch_fault_transparent:
  assumes "gentle False es"
  shows "let sw = fst (run_state (sw_run ch es stopwatch_new) st);
             p = fold (plain_apply (units_to_ns ch)) (filter (\<lambda>e. \<not> is_flip e) es) plain_new
         in sw_abs sw = p \<and>
            fst (run_state (sw_elapsed_ns ch now sw) st') = plain_elapsed (units_to_ns ch) now p"
proof -
  have "fold (plain_apply conv) (filter (\<lambda>e. \<not> is_flip e) es) p = fold (plain_apply conv) es p"
    for conv p es
    by (induction es arbitrary: p) (auto simp: is_flip_def split: sw_event.splits)
  moreover have "total_state False stopwatch_new"
    by (simp add: total_state_def stopwatch_new_def)
  ultimately show ?thesis
    using gentle_run [OF fst_run_start(5) _ assms, of ch st]
    by (simp add: run_sw_elapsed fst_run_start Let_def)
qed

theorem stopwatch_fault_transparent_witness:
  "fst (run_state (sw_elapsed_ns (demo_chronometer 1000000000 0) 0 (fst (run_state
      (sw_run (demo_chronometer 1000000000 0) [SwStart 10, SwFlip 40, SwPause 30, SwVerify, SwFlip 3] stopwatch_new)
      zero_stats))) zero_stats) = 20"
  using stopwatch_fault_transparent [of "[SwStart 10, SwFlip 40, SwPause 30, SwVerify, SwFlip 3]"
      "demo_chronometer 1000000000 0" zero_stats 0 zero_stats]
  by (simp add: Let_def is_flip_def scrubs_def plain_elapsed_def plain_begin_def plain_go_def plain_halt_def
      plain_new_def units_to_ns_def get_raw_def demo_chronometer_def mul_div_u64_def)

text \<open>
  The accumulator and the live segment never overlap: in every reachable state a segment
  start is stored exactly while the stopwatch runs.
\<close>

theorem start_word_iff_running:
  assumes "sw_reachable ch sw st"
  shows "start_units sw \<noteq> None \<longleftrightarrow> sw_state sw = Running"
  using assms
proof (induction rule: sw_reachable.induct)
  case (sw_init st)
  then show ?case by (simp add: stopwatch_new_def)
next
  case (sw_next sw st e sw' st')
  have "sw' = fst (run_state (sw_apply ch e sw) st)" using sw_next.hyps(2) by simp
  with sw_next.IH show ?case
    by (cases e; cases "sw_state sw")
       (auto simp: sw_apply_def run_simps sw_pause_def sw_stop_def sw_resume_def sw_lap_def sw_start_def
          sw_reset_def sw_toggle_def case_prod_beta sw_scrubbed_def sw_freeze_def Let_def
          inject_total_flip_def)
qed

theorem start_word_iff_running_witness:
  "start_units (sw_start 5 stopwatch_new) \<noteq> None"
proof -
  have "sw_reachable (demo_chronometer 1 0) (sw_start 5 stopwatch_new) zero_stats"
    by (rule sw_next [OF sw_init [of _ zero_stats], where e = "SwStart 5"])
      (simp add: sw_apply_def run_simps)
  from start_word_iff_running [OF this] show ?thesis by (simp add: sw_start_def)
qed

text \<open>
  A resumed stopwatch does not count its total twice: after any number of resume/pause
  segments the elapsed reading is exactly the sum of the segment lengths, each converted on its
  own, as long as that sum fits 64 bits.
\<close>

theorem segments_add_up:
  assumes "sum_list (map (\<lambda>(s, e). unat (units_to_ns ch (e - s))) segs) < 2 ^ 64"
  shows "unat (fst (run_state (sw_elapsed_ns ch now
      (fst (run_state (sw_run ch (resume_pause segs) stopwatch_new) st))) st')) =
    sum_list (map (\<lambda>(s, e). unat (units_to_ns ch (e - s))) segs)"
proof -
  have "total_state False stopwatch_new"
    by (simp add: total_state_def stopwatch_new_def)
  with gentle_run [OF fst_run_start(5) _ gentle_resume_pause, of False ch segs st]
  have "sw_abs (fst (run_state (sw_run ch (resume_pause segs) stopwatch_new) st)) =
      fold (plain_apply (units_to_ns ch)) (resume_pause segs) plain_new"
    by (simp add: fst_run_start)
  then show ?thesis
    using plain_segments [of plain_new "units_to_ns ch" segs] unat_segment_total [of 0 "units_to_ns ch" segs] assms
    by (simp add: run_sw_elapsed plain_elapsed_def plain_new_def)
qed

theorem segments_add_up_witness:
  "unat (fst (run_state (sw_elapsed_ns (demo_chronometer 1000000000 0) 999
      (fst (run_state (sw_run (demo_chronometer 1000000000 0) (resume_pause [(10, 30), (100, 105)]) stopwatch_new)
        zero_stats))) zero_stats)) = 25"
  using segments_add_up [of "demo_chronometer 1000000000 0" "[(10, 30), (100, 105)]" 999 zero_stats zero_stats]
  by (simp add: units_to_ns_def get_raw_def demo_chronometer_def mul_div_u64_def)

text \<open>
  The read-only integrity poll and the scrub report the same worst outcome, it is usable
  exactly when every stored word is recoverable, and after such a scrub a second poll finds
  nothing wrong, while the elapsed reading is the one before the scrub.
\<close>

theorem scrub_agrees_with_poll:
  assumes "is_usable (fst (run_state (sw_integrity sw) st))"
  shows "case run_state (sw_verify sw) st' of ((worst, sw'), _) \<Rightarrow>
    worst = fst (run_state (sw_integrity sw) st) \<and> last_integrity sw' = worst \<and> healthy sw \<and>
    fst (run_state (sw_integrity sw') st) = Clean \<and>
    fst (run_state (sw_elapsed_ns ch now sw') st) = fst (run_state (sw_elapsed_ns ch now sw) st)"
proof -
  have w: "\<forall>w\<in>set (sw_words sw). is_usable (snd (checked w))"
    using assms by (simp add: run_sw_integrity pw.worst_usable_iff)
  then have h: "healthy sw" by (simp add: healthy_def recoverable_def)
  have "sw_words (sw_scrubbed sw) = map scrubbed (sw_words sw)"
    by (simp add: sw_words_def sw_scrubbed_def split: option.splits)
  with pw.worst_scrubbed [OF w] h show ?thesis
    by (simp add: run_sw_verify run_sw_integrity run_sw_elapsed)
      (simp add: sw_scrubbed_def)
qed

theorem scrub_agrees_with_poll_witness:
  "last_integrity (snd (fst (run_state (sw_verify (sw_start 5 stopwatch_new)) zero_stats))) = Clean"
proof -
  have "fst (run_state (sw_integrity (sw_start 5 stopwatch_new)) zero_stats) = Clean"
    by (simp add: run_sw_integrity sw_words_def sw_start_def stopwatch_new_def pw.worst_def)
  then show ?thesis
    using scrub_agrees_with_poll [where sw = "sw_start 5 stopwatch_new" and st = zero_stats and st' = zero_stats
      and ch = "demo_chronometer 1 0" and now = 0]
    by (simp add: is_usable_def case_prod_beta)
qed

end
