(* ===== verification/Time_Format.thy ===== *)
theory Time_Format
  imports NC_Prelude "HOL-Library.Char_ord"
begin

text \<open>
  \<open>crates/nanochrono-core/src/format.rs\<close>: civil time from Unix nanoseconds and the display
  formats.  The signed 64 and 128 bit intermediates are integers: an instant is at most
  \<open>2 ^ 64\<close> nanoseconds and an offset at most \<open>2 ^ 31\<close> minutes from it, so every one of them stays
  below \<open>2 ^ 70\<close> in the 128-bit part and below \<open>2 ^ 38\<close> in the 64-bit part.  The broken-down fields
  are naturals.  The offset of the machine's configured zone is a parameter, \<open>local_offset\<close>.

  The specification side is the Gregorian calendar: leap years, month lengths and the successor of
  a date.  The lemmas show that the era arithmetic is the calendar, and that the fixed-width
  formats can be read back.
\<close>

datatype time_zone_mode = Local | Utc | CustomOffset int

definition zone_name :: "time_zone_mode \<Rightarrow> string" where
  "zone_name m = (case m of Local \<Rightarrow> ''local'' | Utc \<Rightarrow> ''utc'' | CustomOffset _ \<Rightarrow> ''utc-offset'')"

definition offset_minutes :: "(u64 \<Rightarrow> int) \<Rightarrow> time_zone_mode \<Rightarrow> u64 \<Rightarrow> int" where
  "offset_minutes local_offset m unix_ns =
     (case m of Local \<Rightarrow> local_offset unix_ns | Utc \<Rightarrow> 0 | CustomOffset k \<Rightarrow> k)"

datatype detail_mode = Simple | Nano

definition detail_name :: "detail_mode \<Rightarrow> string" where
  "detail_name d = (case d of Simple \<Rightarrow> ''simple'' | Nano \<Rightarrow> ''nano'')"

record civil_time =
  year :: int
  month :: nat
  day :: nat
  hour :: nat
  minute :: nat
  second :: nat
  nanosecond :: nat
  weekday :: nat

definition WEEKDAY_NAMES :: "string list" where
  "WEEKDAY_NAMES = [''SUNDAY'', ''MONDAY'', ''TUESDAY'', ''WEDNESDAY'', ''THURSDAY'', ''FRIDAY'', ''SATURDAY'']"

definition MONTH_NAMES :: "string list" where
  "MONTH_NAMES = [''JANUARY'', ''FEBRUARY'', ''MARCH'', ''APRIL'', ''MAY'', ''JUNE'', ''JULY'', ''AUGUST'',
     ''SEPTEMBER'', ''OCTOBER'', ''NOVEMBER'', ''DECEMBER'']"

definition weekday_name :: "civil_time \<Rightarrow> string" where
  "weekday_name c = WEEKDAY_NAMES ! (weekday c mod 7)"

definition month_name :: "civil_time \<Rightarrow> string" where
  "month_name c = MONTH_NAMES ! ((max (month c) 1 - 1) mod 12)"

section \<open>Civil time\<close>

text \<open>The date part of \<open>civil_from_unix_ns\<close>: year, month and day of a day number.\<close>

definition civil_date :: "int \<Rightarrow> int \<times> int \<times> int" where
  "civil_date days =
     (let z = days + 719468;
          era = z div 146097;
          doe = z mod 146097;
          yoe = (doe - doe div 1460 + doe div 36524 - doe div 146096) div 365;
          y = yoe + era * 400;
          doy = doe - (365 * yoe + yoe div 4 - yoe div 100);
          mp = (5 * doy + 2) div 153;
          d = doy - (153 * mp + 2) div 5 + 1;
          m = (if mp < 10 then mp + 3 else mp - 9)
      in (if m \<le> 2 then y + 1 else y, m, d))"

definition civil_from_unix_ns :: "u64 \<Rightarrow> int \<Rightarrow> civil_time" where
  "civil_from_unix_ns unix_ns offset =
     (let adjusted = max (uint unix_ns + offset * 60 * 1000000000) 0;
          total_secs = adjusted div 1000000000;
          nanos = adjusted mod 1000000000;
          days = total_secs div 86400;
          secs_of_day = total_secs mod 86400;
          wd = (days + 4) mod 7;
          (y, m, d) = civil_date days
      in \<lparr>year = y, month = nat m, day = nat d, hour = nat (secs_of_day div 3600),
          minute = nat ((secs_of_day div 60) mod 60), second = nat (secs_of_day mod 60),
          nanosecond = nat nanos, weekday = nat wd\<rparr>)"

section \<open>Formatting\<close>

text \<open>\<open>{}\<close> and \<open>{:0w}\<close> of an unsigned number: decimal, zero-padded on the left to \<open>w\<close> digits.\<close>

definition digit :: "nat \<Rightarrow> char" where
  "digit d = char_of (48 + d)"

fun show_nat :: "nat \<Rightarrow> string" where
  "show_nat n = (if n < 10 then [digit n] else show_nat (n div 10) @ [digit (n mod 10)])"

declare show_nat.simps [simp del]

definition pad0 :: "nat \<Rightarrow> nat \<Rightarrow> string" where
  "pad0 w n = (let s = show_nat n in replicate (w - length s) (CHR ''0'') @ s)"

definition format_elapsed_nano :: "u64 \<Rightarrow> string" where
  "format_elapsed_nano ns =
     (let h = ns div 3600000000000;
          m = (ns div 60000000000) mod 60;
          s = (ns div 1000000000) mod 60;
          ms = (ns div 1000000) mod 1000;
          us = (ns div 1000) mod 1000;
          n = ns mod 1000
      in pad0 2 (unat h) @ '':'' @ pad0 2 (unat m) @ '':'' @ pad0 2 (unat s) @ '':'' @
         pad0 3 (unat ms) @ '':'' @ pad0 3 (unat us) @ '':'' @ pad0 3 (unat n))"

definition format_elapsed_simple :: "u64 \<Rightarrow> string" where
  "format_elapsed_simple ns =
     (let total_ms = ns div 1000000;
          ms = total_ms mod 1000;
          total_s = total_ms div 1000;
          s = total_s mod 60;
          m = total_s div 60
      in pad0 2 (unat m) @ '':'' @ pad0 2 (unat s) @ ''.'' @ pad0 3 (unat ms))"

definition format_elapsed :: "u64 \<Rightarrow> detail_mode \<Rightarrow> string" where
  "format_elapsed ns detail =
     (case detail of Simple \<Rightarrow> format_elapsed_simple ns | Nano \<Rightarrow> format_elapsed_nano ns)"

text \<open>\<open>{:04}\<close> of the signed year: a negative year would be printed with its sign inside the width.\<close>

definition pad_year :: "int \<Rightarrow> string" where
  "pad_year y = (if y < 0 then ''-'' @ pad0 3 (nat (- y)) else pad0 4 (nat y))"

definition date_time :: "civil_time \<Rightarrow> string" where
  "date_time c =
     pad_year (year c) @ ''-'' @ pad0 2 (month c) @ ''-'' @ pad0 2 (day c) @ '' '' @
     pad0 2 (hour c) @ '':'' @ pad0 2 (minute c) @ '':'' @ pad0 2 (second c) @ ''.'' @
     pad0 9 (nanosecond c)"

definition format_unix_utc :: "u64 \<Rightarrow> string" where
  "format_unix_utc unix_ns = (let c = civil_from_unix_ns unix_ns 0 in date_time c @ ''Z'')"

definition format_offset :: "int \<Rightarrow> string" where
  "format_offset offset =
     (let sign = (if offset < 0 then CHR ''-'' else CHR ''+'');
          a = nat \<bar>offset\<bar>
      in ''UTC'' @ [sign] @ pad0 2 (a div 60) @ '':'' @ pad0 2 (a mod 60))"

definition format_unix_zoned :: "(u64 \<Rightarrow> int) \<Rightarrow> u64 \<Rightarrow> time_zone_mode \<Rightarrow> string" where
  "format_unix_zoned local_offset unix_ns mode =
     (let offset = offset_minutes local_offset mode unix_ns;
          c = civil_from_unix_ns unix_ns offset;
          suffix = (case mode of Utc \<Rightarrow> ''Z'' | _ \<Rightarrow> format_offset offset)
      in date_time c @ '' '' @ suffix)"

definition format_clock_face :: "(u64 \<Rightarrow> int) \<Rightarrow> u64 \<Rightarrow> time_zone_mode \<Rightarrow> bool \<Rightarrow> string" where
  "format_clock_face local_offset unix_ns mode fractional =
     (let offset = offset_minutes local_offset mode unix_ns;
          c = civil_from_unix_ns unix_ns offset
      in if fractional then
           pad0 2 (hour c) @ '':'' @ pad0 2 (minute c) @ '':'' @ pad0 2 (second c) @ ''.'' @ pad0 9 (nanosecond c)
         else pad0 2 (hour c) @ '':'' @ pad0 2 (minute c) @ '':'' @ pad0 2 (second c))"

definition format_long_date :: "(u64 \<Rightarrow> int) \<Rightarrow> u64 \<Rightarrow> time_zone_mode \<Rightarrow> string" where
  "format_long_date local_offset unix_ns mode =
     (let c = civil_from_unix_ns unix_ns (offset_minutes local_offset mode unix_ns)
      in weekday_name c @ '', '' @ month_name c @ '' '' @ pad0 2 (day c) @ '', '' @ pad_year (year c))"

section \<open>The calendar\<close>

definition leap :: "int \<Rightarrow> bool" where
  "leap y \<longleftrightarrow> (4 dvd y \<and> \<not> 100 dvd y) \<or> 400 dvd y"

definition month_length :: "int \<Rightarrow> int \<Rightarrow> int" where
  "month_length y m = (if m = 2 then (if leap y then 29 else 28) else if m \<in> {4, 6, 9, 11} then 30 else 31)"

definition valid_date :: "int \<times> int \<times> int \<Rightarrow> bool" where
  "valid_date = (\<lambda>(y, m, d). 1 \<le> m \<and> m \<le> 12 \<and> 1 \<le> d \<and> d \<le> month_length y m)"

definition next_day :: "int \<times> int \<times> int \<Rightarrow> int \<times> int \<times> int" where
  "next_day = (\<lambda>(y, m, d).
     if d < month_length y m then (y, m, d + 1) else if m < 12 then (y, m + 1, 1) else (y + 1, 1, 1))"

text \<open>The day number of a date, by counting the days of the years that start in March.\<close>

definition days_of_date :: "int \<times> int \<times> int \<Rightarrow> int" where
  "days_of_date = (\<lambda>(y, m, d).
     let y' = (if m \<le> 2 then y - 1 else y);
         mp = (if m \<le> 2 then m + 9 else m - 3)
     in 365 * y' + y' div 4 - y' div 100 + y' div 400 + (153 * mp + 2) div 5 + d - 1 - 719468)"

text \<open>
  The year of the era: a day of the 400-year cycle is \<open>c\<close> centuries, \<open>q\<close> leap cycles, \<open>t\<close> years
  and a day of a year that starts in March, and the closed formula finds the year.
\<close>

lemma year_of_era:
  fixes c q t doy :: int
  assumes "0 \<le> c" "c \<le> 3" "0 \<le> q" "q \<le> 24" "0 \<le> t" "t \<le> 3" "0 \<le> doy" "doy \<le> 365"
    and "doy = 365 \<longrightarrow> t = 3 \<and> (q < 24 \<or> c = 3)"
    and doe: "doe = 36524 * c + 1461 * q + 365 * t + doy"
  shows "(doe - doe div 1460 + doe div 36524 - doe div 146096) div 365 = 100 * c + 4 * q + t"
proof -
  define e :: int where "e = (if 1460 \<le> 24 * c + q + 365 * t + doy then 1 else 0)"
  have b: "doe div 1460 = 25 * c + q + e"
    by (rule int_div_pos_eq [where r = "24 * c + q + 365 * t + doy - 1460 * e"])
      (use assms in \<open>auto simp: e_def\<close>)
  have a: "doe div 36524 - doe div 146096 = c"
  proof (cases "doe = 146096")
    case True
    with assms show ?thesis by simp
  next
    case False
    with assms have "1461 * q + 365 * t + doy < 36524" "doe < 146096" "0 \<le> doe"
      by linarith+
    moreover from this have "doe div 36524 = c"
      by (intro int_div_pos_eq [where r = "1461 * q + 365 * t + doy"]) (use assms in auto)
    ultimately show ?thesis by simp
  qed
  have "doe - doe div 1460 + doe div 36524 - doe div 146096 = 365 * (100 * c + 4 * q + t) + (doy - e)"
    using a b doe by simp
  moreover have "0 \<le> doy - e" "doy - e < 365"
    using assms by (auto simp: e_def)
  ultimately show ?thesis
    by (intro int_div_pos_eq [where r = "doy - e"]) auto
qed

lemma era_split:
  fixes doe :: int
  assumes "0 \<le> doe" "doe < 146097"
  obtains c q t doy where "0 \<le> c" "c \<le> 3" "0 \<le> q" "q \<le> 24" "0 \<le> t" "t \<le> 3" "0 \<le> doy" "doy \<le> 365"
    "doy = 365 \<longrightarrow> t = 3 \<and> (q < 24 \<or> c = 3)" "doe = 36524 * c + 1461 * q + 365 * t + doy"
proof -
  define c where "c = min 3 (doe div 36524)"
  define r where "r = doe - 36524 * c"
  define q where "q = r div 1461"
  define s where "s = r mod 1461"
  define t where "t = min 3 (s div 365)"
  have c: "0 \<le> c" "c \<le> 3" and r: "0 \<le> r" "r \<le> 36524" "c < 3 \<Longrightarrow> r < 36524"
    using assms by (auto simp: c_def r_def min_def)
  have q: "0 \<le> q" "q \<le> 24" using r by (auto simp: q_def)
  have s: "0 \<le> s" "s \<le> 1460" "r = 1461 * q + s" by (auto simp: s_def q_def)
  have t: "0 \<le> t" "t \<le> 3" "0 \<le> s - 365 * t" "s - 365 * t \<le> 365" "s - 365 * t = 365 \<longrightarrow> t = 3"
    using s(1,2) by (auto simp: t_def min_def)
  show ?thesis
  proof (rule that [OF c q t(1-4)])
    show "s - 365 * t = 365 \<longrightarrow> t = 3 \<and> (q < 24 \<or> c = 3)"
      using t(5) q s(3) r c by linarith
    show "doe = 36524 * c + 1461 * q + 365 * t + (s - 365 * t)"
      using s(3) by (simp add: r_def)
  qed
qed

text \<open>What \<^const>\<open>civil_date\<close> computes, from the position of the day in the cycle.\<close>

lemma civil_date_split:
  fixes c q t doy era :: int
  assumes "0 \<le> c" "c \<le> 3" "0 \<le> q" "q \<le> 24" "0 \<le> t" "t \<le> 3" "0 \<le> doy" "doy \<le> 365"
    and "doy = 365 \<longrightarrow> t = 3 \<and> (q < 24 \<or> c = 3)"
    and days: "days = 146097 * era + (36524 * c + 1461 * q + 365 * t + doy) - 719468"
  shows "civil_date days =
    (let y = 100 * c + 4 * q + t + era * 400;
         mp = (5 * doy + 2) div 153;
         m = (if mp < 10 then mp + 3 else mp - 9)
     in (if m \<le> 2 then y + 1 else y, m, doy - (153 * mp + 2) div 5 + 1))"
proof -
  define doe where "doe = 36524 * c + 1461 * q + 365 * t + doy"
  have b: "0 \<le> doe" "doe < 146097" using assms by (auto simp: doe_def)
  have z: "days + 719468 = 146097 * era + doe" using days by (simp add: doe_def)
  have dm: "(days + 719468) div 146097 = era" "(days + 719468) mod 146097 = doe"
    unfolding z using b by auto
  have y: "(doe - doe div 1460 + doe div 36524 - doe div 146096) div 365 = 100 * c + 4 * q + t"
    by (rule year_of_era [OF assms(1-9) doe_def])
  have "(100 * c + 4 * q + t) div 4 = 25 * c + q"
    by (rule int_div_pos_eq [where r = t]) (use assms in auto)
  moreover have "(100 * c + 4 * q + t) div 100 = c"
    by (rule int_div_pos_eq [where r = "4 * q + t"]) (use assms in auto)
  ultimately have dy: "doe - (365 * (100 * c + 4 * q + t) + (100 * c + 4 * q + t) div 4 - (100 * c + 4 * q + t) div 100) = doy"
    by (simp add: doe_def)
  show ?thesis
    unfolding civil_date_def Let_def dm y dy by (rule refl)
qed

lemma year_days:
  fixes c q t era :: int
  assumes "0 \<le> c" "c \<le> 3" "0 \<le> q" "q \<le> 24" "0 \<le> t" "t \<le> 3" and y: "y = 400 * era + 100 * c + 4 * q + t"
  shows "365 * y + y div 4 - y div 100 + y div 400 = 146097 * era + 36524 * c + 1461 * q + 365 * t"
proof -
  have "y div 4 = 100 * era + 25 * c + q"
    by (rule int_div_pos_eq [where r = t]) (use assms in auto)
  moreover have "y div 100 = 4 * era + c"
    by (rule int_div_pos_eq [where r = "4 * q + t"]) (use assms in auto)
  moreover have "y div 400 = era"
    by (rule int_div_pos_eq [where r = "100 * c + 4 * q + t"]) (use assms in auto)
  ultimately show ?thesis using y by simp
qed

lemma dvd_shift_iff: "0 < x \<Longrightarrow> x \<le> k \<Longrightarrow> k dvd k * a + x \<longleftrightarrow> x = k" for x k a :: int
  by (auto simp: dvd_add_right_iff dest: zdvd_imp_le)

lemma leap_next:
  fixes c q t era :: int
  assumes "0 \<le> c" "c \<le> 3" "0 \<le> q" "q \<le> 24" "0 \<le> t" "t \<le> 3" and y: "y = 400 * era + 100 * c + 4 * q + t"
  shows "leap (y + 1) \<longleftrightarrow> t = 3 \<and> (q < 24 \<or> c = 3)"
proof -
  have "y + 1 = 4 * (100 * era + 25 * c + q) + (t + 1)" using y by simp
  then have "4 dvd y + 1 \<longleftrightarrow> t + 1 = 4" using assms by (simp only: dvd_shift_iff)
  moreover have "y + 1 = 100 * (4 * era + c) + (4 * q + t + 1)" using y by simp
  then have "100 dvd y + 1 \<longleftrightarrow> 4 * q + t + 1 = 100" using assms by (simp only: dvd_shift_iff)
  moreover have "y + 1 = 400 * era + (100 * c + 4 * q + t + 1)" using y by simp
  then have "400 dvd y + 1 \<longleftrightarrow> 100 * c + 4 * q + t + 1 = 400" using assms by (simp only: dvd_shift_iff)
  ultimately show ?thesis using assms unfolding leap_def by auto
qed

text \<open>The day of a year that starts in March, as a month and a day.\<close>

lemma month_cases:
  fixes mp :: int
  assumes "0 \<le> mp" "mp \<le> 11"
  obtains "mp = 0" | "mp = 1" | "mp = 2" | "mp = 3" | "mp = 4" | "mp = 5" | "mp = 6" | "mp = 7"
    | "mp = 8" | "mp = 9" | "mp = 10" | "mp = 11"
proof -
  have "mp \<in> set [0..11]" using assms by simp
  then show ?thesis using that by (auto simp: upto_rec1 simp del: set_upto)
qed

lemma march_month:
  fixes doy mp :: int
  assumes "0 \<le> doy" "doy \<le> 365" "mp = (5 * doy + 2) div 153"
  shows "0 \<le> mp \<and> mp \<le> 11 \<and> (153 * mp + 2) div 5 \<le> doy \<and>
    (mp < 11 \<longrightarrow> doy < (153 * (mp + 1) + 2) div 5)"
proof -
  have mp: "0 \<le> mp" "mp \<le> 11" using assms by auto
  have "153 * mp \<le> 5 * doy + 2" "5 * doy + 2 < 153 * (mp + 1)"
    using assms by auto
  with mp show ?thesis
    by (cases rule: month_cases [OF mp]) auto
qed

lemma march_month_inverse:
  fixes mp d :: int
  assumes "0 \<le> mp" "mp \<le> 11" "0 \<le> d" "mp < 11 \<longrightarrow> (153 * mp + 2) div 5 + d < (153 * (mp + 1) + 2) div 5"
    "mp = 11 \<longrightarrow> d \<le> 28"
  shows "(5 * ((153 * mp + 2) div 5 + d) + 2) div 153 = mp"
proof -
  have "0 \<le> 5 * ((153 * mp + 2) div 5 + d) + 2 - 153 * mp \<and>
      5 * ((153 * mp + 2) div 5 + d) + 2 - 153 * mp < 153"
    using assms(3-) by (cases rule: month_cases [OF assms(1,2)]) auto
  then show ?thesis
    by (intro int_div_pos_eq [where r = "5 * ((153 * mp + 2) div 5 + d) + 2 - 153 * mp"]) auto
qed

lemma civil_date_correct:
  "valid_date (civil_date days) \<and> days_of_date (civil_date days) = days"
proof -
  define era where "era = (days + 719468) div 146097"
  have "0 \<le> (days + 719468) mod 146097" "(days + 719468) mod 146097 < 146097" by simp_all
  then obtain c q t doy where cq: "0 \<le> c" "c \<le> 3" "0 \<le> q" "q \<le> 24" "0 \<le> t" "t \<le> 3" and
    doy: "0 \<le> doy" "doy \<le> 365" "doy = 365 \<longrightarrow> t = 3 \<and> (q < 24 \<or> c = 3)" and
    doe: "(days + 719468) mod 146097 = 36524 * c + 1461 * q + 365 * t + doy"
    by (rule era_split)
  have days: "days = 146097 * era + (36524 * c + 1461 * q + 365 * t + doy) - 719468"
    using doe div_mult_mod_eq [of "days + 719468" 146097] by (simp add: era_def)
  define y where "y = 400 * era + 100 * c + 4 * q + t"
  define mp where "mp = (5 * doy + 2) div 153"
  have cd: "civil_date days = (let m = (if mp < 10 then mp + 3 else mp - 9)
      in (if m \<le> 2 then y + 1 else y, m, doy - (153 * mp + 2) div 5 + 1))"
    using civil_date_split [OF cq doy days] by (simp add: Let_def y_def mp_def algebra_simps)
  note yd = year_days [OF cq y_def] and lp = leap_next [OF cq y_def]
  have "0 \<le> mp" "mp \<le> 11" using march_month [OF doy(1,2) mp_def] by auto
  with march_month [OF doy(1,2) mp_def] doy(2,3) lp yd days show ?thesis
    unfolding cd by (cases rule: month_cases [OF \<open>0 \<le> mp\<close> \<open>mp \<le> 11\<close>])
      (auto simp: valid_date_def month_length_def days_of_date_def Let_def)
qed

lemma civil_date_unique:
  assumes "valid_date D"
  shows "civil_date (days_of_date D) = D"
proof -
  obtain y m d where D: "D = (y, m, d)" by (cases D)
  define y' where "y' = (if m \<le> 2 then y - 1 else y)"
  define mp where "mp = (if m \<le> 2 then m + 9 else m - 3)"
  define doy where "doy = (153 * mp + 2) div 5 + (d - 1)"
  have mp: "0 \<le> mp" "mp \<le> 11" using assms by (auto simp: D valid_date_def mp_def)
  have m: "m = (if mp < 10 then mp + 3 else mp - 9)" using assms by (auto simp: D valid_date_def mp_def)
  define era where "era = y' div 400"
  define r where "r = y' mod 400"
  define c where "c = r div 100"
  define s where "s = r mod 100"
  define q where "q = s div 4"
  define t where "t = s mod 4"
  have r: "0 \<le> r" "r < 400" "y' = 400 * era + r" by (simp_all add: r_def era_def)
  have s: "0 \<le> s" "s < 100" "r = 100 * c + s" by (simp_all add: s_def c_def)
  have "0 \<le> c" "c \<le> 3" using r(1,2) by (simp_all add: c_def)
  moreover have "0 \<le> q" "q \<le> 24" using s(1,2) by (simp_all add: q_def)
  moreover have "0 \<le> t" "t \<le> 3" "s = 4 * q + t" by (simp_all add: q_def t_def)
  ultimately have cq: "0 \<le> c" "c \<le> 3" "0 \<le> q" "q \<le> 24" "0 \<le> t" "t \<le> 3" "s = 4 * q + t"
    by simp_all
  have y': "y' = 400 * era + 100 * c + 4 * q + t"
    using r s cq by simp
  note cq = cq(1-6)
  have d: "1 \<le> d" "d \<le> month_length y m" using assms by (auto simp: D valid_date_def)
  have dd: "0 \<le> d - 1 \<and> (mp < 11 \<longrightarrow> (153 * mp + 2) div 5 + (d - 1) < (153 * (mp + 1) + 2) div 5) \<and>
      (mp = 11 \<longrightarrow> d - 1 \<le> 28 \<and> (d - 1 = 28 \<longrightarrow> leap (y' + 1)))"
    using d m by (cases rule: month_cases [OF mp]) (auto simp: month_length_def y'_def split: if_splits)
  have mpe: "(5 * doy + 2) div 153 = mp"
    unfolding doy_def by (rule march_month_inverse) (use mp dd in auto)
  have doy: "0 \<le> doy" "doy \<le> 365" "doy = 365 \<longrightarrow> t = 3 \<and> (q < 24 \<or> c = 3)"
    using dd leap_next [OF cq y'] unfolding doy_def by (cases rule: month_cases [OF mp]; simp)+
  have days: "days_of_date D = 146097 * era + (36524 * c + 1461 * q + 365 * t + doy) - 719468"
    using year_days [OF cq y'] by (simp add: D days_of_date_def y'_def mp_def doy_def Let_def)
  show ?thesis
  proof -
    have "100 * c + 4 * q + t + era * 400 = y'" using y' by simp
    moreover have "doy - (153 * mp + 2) div 5 + 1 = d" by (simp add: doy_def)
    moreover have "(if m \<le> 2 then y' + 1 else y') = y" by (simp add: y'_def)
    ultimately show ?thesis
      using civil_date_split [OF cq doy days] unfolding Let_def mpe m [symmetric] D
      by (simp split: if_splits)
  qed
qed

lemma next_day_valid: "valid_date D \<Longrightarrow> valid_date (next_day D)"
  by (cases D) (auto simp: valid_date_def next_day_def month_length_def)

lemma next_day_number:
  assumes "valid_date D"
  shows "days_of_date (next_day D) = days_of_date D + 1"
proof -
  obtain y m d where D: "D = (y, m, d)" by (cases D)
  define mp where "mp = (if m \<le> 2 then m + 9 else m - 3)"
  have mp: "0 \<le> mp" "mp \<le> 11" using assms by (auto simp: D valid_date_def mp_def)
  have m: "m = (if mp < 10 then mp + 3 else mp - 9)" using assms by (auto simp: D valid_date_def mp_def)
  define f where "f z = z div 4 - z div 100 + z div 400" for z :: int
  have lp: "f y = f (y - 1) + (if leap y then 1 else 0)"
  proof -
    have k: "y div k = (y - 1) div k + (if k dvd y then 1 else 0)" if "0 < k" for k :: int
    proof (cases "k dvd y")
      case True
      then obtain a where "y = k * a" by blast
      moreover from this that have "(y - 1) div k = a - 1"
        by (intro int_div_pos_eq [where r = "k - 1"]) (auto simp: algebra_simps)
      ultimately show ?thesis using that by simp
    next
      case False
      then have "y mod k \<noteq> 0" by (simp add: dvd_eq_mod_eq_0)
      with that have "0 < y mod k" using pos_mod_sign [of k y] by linarith
      with that have "(y - 1) div k = y div k"
        using mult_div_mod_eq [of k y] pos_mod_bound [of k y]
        by (intro int_div_pos_eq [where r = "y mod k - 1"]) linarith+
      with False show ?thesis by simp
    qed
    have dvds: "400 dvd y \<Longrightarrow> 100 dvd y" "100 dvd y \<Longrightarrow> 4 dvd y"
      by (rule dvd_trans [rotated], assumption, simp)+
    have "f y = f (y - 1) + (if 4 dvd y then 1 else 0) - (if 100 dvd y then 1 else 0) + (if 400 dvd y then 1 else 0)"
      unfolding f_def k [of 4, simplified] k [of 100, simplified] k [of 400, simplified] by simp
    with dvds show ?thesis unfolding leap_def by (cases "400 dvd y"; cases "100 dvd y"; cases "4 dvd y") simp_all
  qed
  have d: "1 \<le> d" "d \<le> month_length y m" using assms by (auto simp: D valid_date_def)
  have days: "days_of_date (y, m, d) = 365 * (if m \<le> 2 then y - 1 else y) + f (if m \<le> 2 then y - 1 else y)
      + (153 * (if m \<le> 2 then m + 9 else m - 3) + 2) div 5 + d - 1 - 719468" for y m d
    by (simp add: days_of_date_def f_def Let_def)
  consider "d < month_length y m" | "d = month_length y m" "m < 12" | "d = month_length y m" "m = 12"
    using d assms unfolding D valid_date_def by fastforce
  then show ?thesis
  proof cases
    case 1
    then show ?thesis by (simp add: D next_day_def days)
  next
    case 2
    with m lp show ?thesis
      by (cases rule: month_cases [OF mp]) (simp_all add: D next_day_def days month_length_def)
  next
    case 3
    then show ?thesis by (simp add: D next_day_def days month_length_def)
  qed
qed

lemma civil_date_next: "civil_date (days + 1) = next_day (civil_date days)"
  using civil_date_correct [of days] next_day_valid [of "civil_date days"]
    next_day_number [of "civil_date days"] civil_date_unique [of "next_day (civil_date days)"]
  by simp

section \<open>Reading the formats back\<close>

definition dec_val :: "string \<Rightarrow> nat" where
  "dec_val s = foldl (\<lambda>a c. 10 * a + (of_char c - 48)) 0 s"

lemma of_char_digit: "d < 10 \<Longrightarrow> of_char (digit d) = 48 + d"
  by (simp add: digit_def)

lemma dec_val_snoc [simp]: "d < 10 \<Longrightarrow> dec_val (s @ [digit d]) = 10 * dec_val s + d"
  by (simp add: dec_val_def of_char_digit)

lemma dec_val_show_nat [simp]: "dec_val (show_nat n) = n"
proof (induction n rule: show_nat.induct)
  case (1 n)
  then show ?case
    by (subst show_nat.simps) (auto simp: dec_val_def of_char_digit)
qed

lemma dec_val_pad0 [simp]: "dec_val (pad0 w n) = n"
proof -
  have "foldl (\<lambda>a c. 10 * a + (of_char c - 48)) 0 (replicate k (CHR ''0'')) = (0 :: nat)" for k
    by (induction k) simp_all
  then have "dec_val (replicate k (CHR ''0'') @ s) = dec_val s" for k s
    by (simp add: dec_val_def)
  then show ?thesis by (simp add: pad0_def Let_def)
qed

lemma length_show_nat: "n < 10 ^ Suc w \<Longrightarrow> length (show_nat n) \<le> Suc w"
proof (induction w arbitrary: n)
  case 0
  then show ?case by (simp add: show_nat.simps)
next
  case (Suc w)
  then have "n div 10 < 10 ^ Suc w" by (simp add: div_less_iff_less_mult mult.commute)
  with Suc.IH [OF this] show ?case by (simp add: show_nat.simps [of n])
qed

lemma length_pad0: "n < 10 ^ w \<Longrightarrow> 0 < w \<Longrightarrow> length (pad0 w n) = w"
  using length_show_nat [of n "w - 1"] by (simp add: pad0_def Let_def)

lemma set_pad0: "c \<in> set (pad0 w n) \<Longrightarrow> \<exists>d<10. c = digit d"
proof -
  have "c \<in> set (show_nat n) \<Longrightarrow> \<exists>d<10. c = digit d"
  proof (induction n rule: show_nat.induct)
    case (1 n)
    show ?case
    proof (cases "n < 10")
      case True
      with "1.prems" show ?thesis by (auto simp: show_nat.simps [of n])
    next
      case False
      have "n mod 10 < 10" by simp
      moreover have "c \<in> set (show_nat (n div 10)) \<or> c = digit (n mod 10)"
        using False "1.prems" by (auto simp: show_nat.simps [of n])
      ultimately show ?thesis using "1.IH" False by blast
    qed
  qed
  moreover have "CHR ''0'' = digit 0" by code_simp
  ultimately show "c \<in> set (pad0 w n) \<Longrightarrow> \<exists>d<10. c = digit d"
    by (auto simp: pad0_def Let_def intro: exI [of _ 0] split: if_splits)
qed

lemma colon_pad0 [simp]: "CHR '':'' \<notin> set (pad0 w n)"
proof
  assume "CHR '':'' \<in> set (pad0 w n)"
  then obtain d where "d < 10" "CHR '':'' = digit d" using set_pad0 by blast
  then have "of_char (CHR '':'') = 48 + d" using of_char_digit by metis
  with \<open>d < 10\<close> show False by simp
qed

fun split_at :: "char \<Rightarrow> string \<Rightarrow> string list" where
  "split_at c [] = [[]]"
| "split_at c (x # xs) =
     (if x = c then [] # split_at c xs
      else case split_at c xs of [] \<Rightarrow> [[x]] | w # ws \<Rightarrow> (x # w) # ws)"

lemma split_at_append: "c \<notin> set a \<Longrightarrow> split_at c (a @ c # b) = a # split_at c b"
  by (induction a) auto

lemma split_at_last: "c \<notin> set a \<Longrightarrow> split_at c a = [a]"
  by (induction a) auto

definition parse_elapsed :: "string \<Rightarrow> nat option" where
  "parse_elapsed s =
     (case map dec_val (split_at (CHR '':'') s) of
        [h, m, sec, ms, us, n] \<Rightarrow> Some (((((h * 60 + m) * 60 + sec) * 1000 + ms) * 1000 + us) * 1000 + n)
      | _ \<Rightarrow> None)"

definition field_val :: "string \<Rightarrow> nat \<Rightarrow> nat \<Rightarrow> nat" where
  "field_val s a b = dec_val (take (b - a) (drop a s))"

definition parse_utc :: "string \<Rightarrow> int" where
  "parse_utc s =
     ((days_of_date (int (field_val s 0 4), int (field_val s 5 7), int (field_val s 8 10)) * 24
        + int (field_val s 11 13)) * 60 + int (field_val s 14 16)) * 60 * 1000000000
       + int (field_val s 17 19) * 1000000000 + int (field_val s 20 29)"

lemma fields_of_layout:
  assumes "length a = 4" "length b = 2" "length c = 2" "length d = 2" "length e = 2" "length f = 2" "length g = 9"
  shows "let s = a @ ''-'' @ b @ ''-'' @ c @ '' '' @ d @ '':'' @ e @ '':'' @ f @ ''.'' @ g @ z in
    field_val s 0 4 = dec_val a \<and> field_val s 5 7 = dec_val b \<and> field_val s 8 10 = dec_val c \<and>
    field_val s 11 13 = dec_val d \<and> field_val s 14 16 = dec_val e \<and> field_val s 17 19 = dec_val f \<and>
    field_val s 20 29 = dec_val g"
  using assms by (simp add: field_val_def Let_def)

text \<open>The instant a set of civil fields names.\<close>

definition instant_of :: "civil_time \<Rightarrow> int" where
  "instant_of c =
     ((days_of_date (year c, int (month c), int (day c)) * 24 + int (hour c)) * 60 + int (minute c)) * 60 * 1000000000
       + int (second c) * 1000000000 + int (nanosecond c)"

definition valid_civil :: "civil_time \<Rightarrow> bool" where
  "valid_civil c \<longleftrightarrow> valid_date (year c, int (month c), int (day c)) \<and> hour c < 24 \<and> minute c < 60 \<and>
     second c < 60 \<and> nanosecond c < 1000000000 \<and> weekday c < 7"

lemma civil_from_unix_ns_fields:
  fixes unix_ns :: u64 and off :: int
  defines "adj \<equiv> max (uint unix_ns + off * 60 * 1000000000) 0"
  defines "c \<equiv> civil_from_unix_ns unix_ns off"
  shows "(year c, int (month c), int (day c)) = civil_date (adj div 1000000000 div 86400)"
    and "valid_civil c" and "instant_of c = adj"
    and "int (weekday c) = (adj div 1000000000 div 86400 + 4) mod 7"
proof -
  define secs where "secs = adj div 1000000000"
  define days where "days = secs div 86400"
  define sod where "sod = secs mod 86400"
  obtain y m d where cd: "civil_date days = (y, m, d)" by (cases "civil_date days")
  have v: "valid_date (y, m, d)" "days_of_date (y, m, d) = days"
    using civil_date_correct [of days] by (simp_all add: cd)
  then have md: "0 \<le> m" "0 \<le> d" by (auto simp: valid_date_def)
  have sod: "0 \<le> sod" "sod < 86400" by (simp_all add: sod_def)
  have c: "c = \<lparr>year = y, month = nat m, day = nat d, hour = nat (sod div 3600),
      minute = nat (sod div 60 mod 60), second = nat (sod mod 60), nanosecond = nat (adj mod 1000000000),
      weekday = nat ((days + 4) mod 7)\<rparr>"
    unfolding c_def civil_from_unix_ns_def Let_def adj_def [symmetric] secs_def [symmetric]
      days_def [symmetric] sod_def [symmetric] cd by simp
  show "(year c, int (month c), int (day c)) = civil_date (adj div 1000000000 div 86400)"
    using md cd by (simp add: c days_def secs_def)
  show "int (weekday c) = (adj div 1000000000 div 86400 + 4) mod 7"
    by (simp add: c days_def secs_def)
  have "sod div 3600 = sod div 60 div 60" using zdiv_zmult2_eq [of 60 sod 60] by simp
  then have h: "sod = (sod div 3600 * 60 + sod div 60 mod 60) * 60 + sod mod 60" by simp
  have "sod div 3600 < 24" using sod by simp
  then show "valid_civil c"
    using v md sod by (simp add: valid_civil_def c nat_less_iff)
  have "adj = ((days * 24 + sod div 3600) * 60 + sod div 60 mod 60) * 60 * 1000000000 + sod mod 60 * 1000000000 + adj mod 1000000000"
  proof -
    have "adj = secs * 1000000000 + adj mod 1000000000" "secs = days * 86400 + sod"
      by (simp_all add: secs_def days_def sod_def)
    then have e: "adj = (days * 86400 + sod) * 1000000000 + adj mod 1000000000" by simp
    have "(d * 86400 + ((H * 60 + M) * 60 + S)) * 1000000000 + R =
        ((d * 24 + H) * 60 + M) * 60 * 1000000000 + S * 1000000000 + R" for d H M S R :: int
      by simp
    then show ?thesis by (subst e, subst h)
  qed
  moreover have "0 \<le> sod div 3600" using sod by (simp add: pos_imp_zdiv_nonneg_iff)
  ultimately show "instant_of c = adj"
    using v md sod by (simp add: instant_of_def c)
qed

lemma utc_year_bounds:
  assumes "valid_date (y, m, d)" "0 \<le> days_of_date (y, m, d)" "days_of_date (y, m, d) < 300000"
  shows "0 \<le> y \<and> y < 10000"
proof -
  define y' where "y' = (if m \<le> 2 then y - 1 else y)"
  define mp where "mp = (if m \<le> 2 then m + 9 else m - 3)"
  have "0 \<le> mp" "mp \<le> 11" "1 \<le> d" "d \<le> 31"
    using assms(1) by (auto simp: valid_date_def mp_def month_length_def split: if_splits)
  then have r: "0 \<le> (153 * mp + 2) div 5 + d - 1" "(153 * mp + 2) div 5 + d - 1 \<le> 400" by auto
  have e: "days_of_date (y, m, d) = 365 * y' + y' div 4 - y' div 100 + y' div 400 + ((153 * mp + 2) div 5 + d - 1) - 719468"
    by (simp add: days_of_date_def y'_def mp_def Let_def)
  have "0 \<le> y'"
  proof (rule ccontr)
    assume "\<not> 0 \<le> y'"
    then have "y' div 4 \<le> 0" "y' div 400 \<le> 0" "y' \<le> y' div 100" "365 * y' - y' div 100 \<le> 364 * y'" by auto
    then have "days_of_date (y, m, d) < 0" using e r \<open>\<not> 0 \<le> y'\<close> by linarith
    with assms(2) show False by simp
  qed
  moreover have "y' < 9000"
  proof (rule ccontr)
    assume "\<not> y' < 9000"
    then have "0 \<le> y' div 4" "0 \<le> y' div 400" "y' div 100 \<le> y'" by auto
    then have "300000 \<le> days_of_date (y, m, d)" using e r \<open>\<not> y' < 9000\<close> by linarith
    with assms(3) show False by simp
  qed
  ultimately show ?thesis by (auto simp: y'_def split: if_splits)
qed

section \<open>Properties\<close>

text \<open>
  C32. Civil fields are a real date and time and lose nothing: the date exists in the Gregorian
  calendar, every clock field is in range, and the fields name exactly the shifted instant, clamped
  at the epoch.
\<close>

theorem civil_from_unix_ns_exact:
  "valid_civil (civil_from_unix_ns unix_ns off) \<and>
   instant_of (civil_from_unix_ns unix_ns off) = max (uint unix_ns + off * 60 * 1000000000) 0"
  using civil_from_unix_ns_fields(2,3) [of unix_ns off] by blast

text \<open>
  The calendar advances one day at a time: an instant a day later has the next date of the
  Gregorian calendar, leap days and month ends included, the next weekday, and the same time of
  day.
\<close>

theorem civil_next_day:
  assumes "unat a + 86400000000000 < 2 ^ 64"
  shows "let c = civil_from_unix_ns a 0; c' = civil_from_unix_ns (a + 86400000000000) 0 in
    (year c', int (month c'), int (day c')) = next_day (year c, int (month c), int (day c)) \<and>
    int (weekday c') = (int (weekday c) + 1) mod 7"
proof -
  have "unat (a + 86400000000000) = unat a + 86400000000000"
    using assms by (simp add: unat_word_ariths)
  then have "int (unat (a + 86400000000000)) = int (unat a + 86400000000000)" by (rule arg_cong)
  then have u: "uint (a + 86400000000000) = uint a + 86400000000000" by simp
  have "(uint a + 86400000000000) div 1000000000 = uint a div 1000000000 + 86400"
    using div_mult_self1 [of 1000000000 "uint a" 86400] by simp
  then have d: "(uint a + 86400000000000) div 1000000000 div 86400 = uint a div 1000000000 div 86400 + 1"
    by simp
  have m: "(5 + x) mod 7 = ((x + 4) mod 7 + 1) mod 7" for x :: int
    by presburger
  show ?thesis
    using civil_from_unix_ns_fields(1,4) [of a 0]
      civil_from_unix_ns_fields(1,4) [of "a + 86400000000000" 0]
    by (simp add: u d m civil_date_next Let_def)
qed

theorem civil_next_day_witness:
  "let c' = civil_from_unix_ns (1709208000000000000 + 86400000000000) 0
   in (year c', month c', day c') = (2024, 3, 1)"
proof -
  have "let c = civil_from_unix_ns 1709208000000000000 0 in (year c, month c, day c) = (2024, 2, 29)"
    by code_simp
  moreover have "month_length 2024 2 = 29"
    by (simp add: month_length_def leap_def)
  ultimately show ?thesis
    using civil_next_day [of 1709208000000000000]
    by (simp add: Let_def next_day_def)
qed

text \<open>
  The UTC timestamp reads back to the instant it was made from, to the nanosecond, for every
  instant a 64-bit count of nanoseconds can hold.
\<close>

theorem format_unix_utc_round_trip:
  "parse_utc (format_unix_utc ns) = uint ns"
proof -
  define c where "c = civil_from_unix_ns ns 0"
  have f: "(year c, int (month c), int (day c)) = civil_date (uint ns div 1000000000 div 86400)"
    and v: "valid_civil c" and i: "instant_of c = uint ns"
    using civil_from_unix_ns_fields(1-3) [of ns 0] by (simp_all add: c_def)
  have "uint ns < 2 ^ LENGTH(64)" by (rule uint_bounded)
  then have "uint ns div 1000000000 div 86400 < 300000" "0 \<le> uint ns div 1000000000 div 86400"
    by (simp_all add: pos_imp_zdiv_nonneg_iff)
  then have y: "0 \<le> year c" "year c < 10000"
    using civil_date_correct [of "uint ns div 1000000000 div 86400"] f utc_year_bounds by metis+
  have "month c < 100" "day c < 100"
    using v by (auto simp: valid_civil_def valid_date_def month_length_def split: if_splits)
  then have "parse_utc (format_unix_utc ns) = instant_of c"
    using y v fields_of_layout [of "pad0 4 (nat (year c))" "pad0 2 (month c)" "pad0 2 (day c)"
      "pad0 2 (hour c)" "pad0 2 (minute c)" "pad0 2 (second c)" "pad0 9 (nanosecond c)" "''Z''"]
    by (simp add: format_unix_utc_def Let_def date_time_def pad_year_def parse_utc_def instant_of_def
        valid_civil_def length_pad0 c_def [symmetric])
  with i show ?thesis by simp
qed

text \<open>
  The stopwatch display loses nothing: the six groups of the nanosecond format read back to
  the exact elapsed time, hours unbounded.
\<close>

theorem format_elapsed_nano_round_trip:
  "parse_elapsed (format_elapsed_nano ns) = Some (unat ns)"
proof -
  define n where "n = unat ns"
  define a1 where "a1 = n div 1000"
  define a2 where "a2 = a1 div 1000"
  define a3 where "a3 = a2 div 1000"
  define a4 where "a4 = a3 div 60"
  define a5 where "a5 = a4 div 60"
  have a: "n div 1000000 = a2" "n div 1000000000 = a3" "n div 60000000000 = a4" "n div 3600000000000 = a5"
    by (simp_all add: a1_def a2_def a3_def a4_def a5_def flip: div_mult2_eq)
  have "n = ((((a5 * 60 + a4 mod 60) * 60 + a3 mod 60) * 1000 + a2 mod 1000) * 1000 + a1 mod 1000) * 1000 + n mod 1000"
    unfolding a5_def div_mult_mod_eq unfolding a4_def div_mult_mod_eq unfolding a3_def div_mult_mod_eq
    unfolding a2_def div_mult_mod_eq unfolding a1_def div_mult_mod_eq by (rule refl)
  then show ?thesis
    by (simp add: parse_elapsed_def format_elapsed_nano_def Let_def split_at_append split_at_last
        unat_div unat_mod n_def [symmetric] a a1_def [symmetric])
qed

end
