(* ===== verification/Aml_Syntax.thy ===== *)
theory Aml_Syntax
  imports NC_Prelude
begin

text \<open>
  \<open>crates/nanochrono-core/src/aml.rs\<close>, the lexical layer: spans, namespace paths, the opcodes, the
  cursor over the bytecode, hardware identifiers and data objects.

  A cursor is the bytecode and a position.  A read takes both and returns its result with the
  position it leaves, on failure too, because one caller in the namespace search goes on from the
  position a failed step left behind.  Every read is bounds-checked; the lemmas show that no read
  moves backwards or past the end of the table.
\<close>

section \<open>Spans\<close>

record span =
  sp_start :: nat
  sp_end :: nat

definition span_new :: "nat \<Rightarrow> nat \<Rightarrow> span" where
  "span_new s e = \<lparr>sp_start = s, sp_end = e\<rparr>"

definition span_len :: "span \<Rightarrow> nat" where
  "span_len sp = sp_end sp - sp_start sp"

definition span_is_empty :: "span \<Rightarrow> bool" where
  "span_is_empty sp \<longleftrightarrow> sp_end sp \<le> sp_start sp"

definition span_of :: "span \<Rightarrow> u8 list \<Rightarrow> u8 list option" where
  "span_of sp code = get_range code (sp_start sp) (sp_end sp)"

lemma span_new_simps [simp]: "sp_start (span_new s e) = s" "sp_end (span_new s e) = e"
  by (simp_all add: span_new_def)

section \<open>Paths\<close>

type_synonym nameseg = "u8 list"

definition MAX_PATH :: nat where
  "MAX_PATH = 8"

text \<open>The array keeps the segments that a \<open>pop\<close> has dropped, as the source's does.\<close>

record path =
  path_segs :: "nameseg list"
  path_len :: nat

definition blank_seg :: nameseg where
  "blank_seg = replicate 4 0x5F"

definition path_root :: path where
  "path_root = \<lparr>path_segs = replicate MAX_PATH blank_seg, path_len = 0\<rparr>"

definition path_is_empty :: "path \<Rightarrow> bool" where
  "path_is_empty p \<longleftrightarrow> path_len p = 0"

definition path_segments :: "path \<Rightarrow> nameseg list" where
  "path_segments p = take (path_len p) (path_segs p)"

definition path_push :: "nameseg \<Rightarrow> path \<Rightarrow> bool \<times> path" where
  "path_push seg p =
     (if path_len p = MAX_PATH then (False, p)
      else (True, p\<lparr>path_segs := (path_segs p)[path_len p := seg], path_len := path_len p + 1\<rparr>))"

definition path_pop :: "path \<Rightarrow> path" where
  "path_pop p = p\<lparr>path_len := path_len p - 1\<rparr>"

definition path_leaf :: "path \<Rightarrow> nameseg option" where
  "path_leaf p = (if path_len p = 0 then None else Some (path_segs p ! (path_len p - 1)))"

definition path_ends_with :: "path \<Rightarrow> path \<Rightarrow> bool" where
  "path_ends_with p other =
     (if path_len other > path_len p then False
      else take (path_len other) (drop (path_len p - path_len other) (path_segs p))
           = take (path_len other) (path_segs other))"

text \<open>\<open>render\<close>: the bytes put, in order, and the buffer they are put into.\<close>

fun last_used :: "u8 list \<Rightarrow> nat" where
  "last_used seg = (if seg = [] then 0 else if last seg \<noteq> 0x5F then length seg else last_used (butlast seg))"

declare last_used.simps [simp del]

fun render_segments :: "nat \<Rightarrow> nameseg list \<Rightarrow> u8 list" where
  "render_segments i [] = []"
| "render_segments i (seg # rest) =
     (if i > 0 then [0x2E] else []) @ take (max (last_used seg) 1) seg @ render_segments (Suc i) rest"

definition put :: "u8 \<Rightarrow> u8 list \<times> nat \<Rightarrow> u8 list \<times> nat" where
  "put b = (\<lambda>(out, used). if used < length out then (out[used := b], used + 1) else (out, used))"

definition path_render :: "path \<Rightarrow> u8 list \<Rightarrow> u8 list \<times> nat" where
  "path_render p out = fold put (0x5C # render_segments 0 (path_segments p)) (out, 0)"

fun parse_path_loop :: "u8 list \<Rightarrow> path \<Rightarrow> nameseg \<Rightarrow> nat \<Rightarrow> path option" where
  "parse_path_loop [] p seg filled =
     (if filled > 0
      then (case path_push seg p of (ok, p') \<Rightarrow> if \<not> ok then None else if \<not> path_is_empty p' then Some p' else None)
      else if \<not> path_is_empty p then Some p else None)"
| "parse_path_loop (b # bs) p seg filled =
     (if b = 0x5C \<or> b = 0x5E then parse_path_loop bs p seg filled
      else if b = 0x2E then
        (if filled = 0 then None
         else case path_push seg p of (ok, p') \<Rightarrow> if \<not> ok then None else parse_path_loop bs p' blank_seg 0)
      else if b = 0 then parse_path_loop [] p seg filled
      else if filled = 4 then None
      else parse_path_loop bs p (seg[filled := b]) (filled + 1))"

definition parse_path :: "u8 list \<Rightarrow> path option" where
  "parse_path bytes = parse_path_loop bytes path_root blank_seg 0"

section \<open>Opcodes\<close>

abbreviation op_ZERO :: u8 where "op_ZERO \<equiv> 0x00"
abbreviation op_ONE :: u8 where "op_ONE \<equiv> 0x01"
abbreviation op_ALIAS :: u8 where "op_ALIAS \<equiv> 0x06"
abbreviation op_NAME :: u8 where "op_NAME \<equiv> 0x08"
abbreviation op_BYTE_PREFIX :: u8 where "op_BYTE_PREFIX \<equiv> 0x0A"
abbreviation op_WORD_PREFIX :: u8 where "op_WORD_PREFIX \<equiv> 0x0B"
abbreviation op_DWORD_PREFIX :: u8 where "op_DWORD_PREFIX \<equiv> 0x0C"
abbreviation op_STRING_PREFIX :: u8 where "op_STRING_PREFIX \<equiv> 0x0D"
abbreviation op_QWORD_PREFIX :: u8 where "op_QWORD_PREFIX \<equiv> 0x0E"
abbreviation op_SCOPE :: u8 where "op_SCOPE \<equiv> 0x10"
abbreviation op_BUFFER :: u8 where "op_BUFFER \<equiv> 0x11"
abbreviation op_PACKAGE :: u8 where "op_PACKAGE \<equiv> 0x12"
abbreviation op_VAR_PACKAGE :: u8 where "op_VAR_PACKAGE \<equiv> 0x13"
abbreviation op_METHOD :: u8 where "op_METHOD \<equiv> 0x14"
abbreviation op_EXTERNAL :: u8 where "op_EXTERNAL \<equiv> 0x15"
abbreviation op_EXT_PREFIX :: u8 where "op_EXT_PREFIX \<equiv> 0x5B"
abbreviation op_LOCAL0 :: u8 where "op_LOCAL0 \<equiv> 0x60"
abbreviation op_LOCAL7 :: u8 where "op_LOCAL7 \<equiv> 0x67"
abbreviation op_ARG0 :: u8 where "op_ARG0 \<equiv> 0x68"
abbreviation op_ARG6 :: u8 where "op_ARG6 \<equiv> 0x6E"
abbreviation op_STORE :: u8 where "op_STORE \<equiv> 0x70"
abbreviation op_ADD :: u8 where "op_ADD \<equiv> 0x72"
abbreviation op_SUBTRACT :: u8 where "op_SUBTRACT \<equiv> 0x74"
abbreviation op_INCREMENT :: u8 where "op_INCREMENT \<equiv> 0x75"
abbreviation op_DECREMENT :: u8 where "op_DECREMENT \<equiv> 0x76"
abbreviation op_SHIFT_LEFT :: u8 where "op_SHIFT_LEFT \<equiv> 0x79"
abbreviation op_SHIFT_RIGHT :: u8 where "op_SHIFT_RIGHT \<equiv> 0x7A"
abbreviation op_AND :: u8 where "op_AND \<equiv> 0x7B"
abbreviation op_NAND :: u8 where "op_NAND \<equiv> 0x7C"
abbreviation op_OR :: u8 where "op_OR \<equiv> 0x7D"
abbreviation op_NOR :: u8 where "op_NOR \<equiv> 0x7E"
abbreviation op_XOR :: u8 where "op_XOR \<equiv> 0x7F"
abbreviation op_MULTIPLY :: u8 where "op_MULTIPLY \<equiv> 0x77"
abbreviation op_CONCAT :: u8 where "op_CONCAT \<equiv> 0x73"
abbreviation op_FIND_SET_LEFT_BIT :: u8 where "op_FIND_SET_LEFT_BIT \<equiv> 0x81"
abbreviation op_FIND_SET_RIGHT_BIT :: u8 where "op_FIND_SET_RIGHT_BIT \<equiv> 0x82"
abbreviation op_REF_OF :: u8 where "op_REF_OF \<equiv> 0x71"
abbreviation op_TO_HEX_STRING :: u8 where "op_TO_HEX_STRING \<equiv> 0x98"
abbreviation op_TO_DECIMAL_STRING :: u8 where "op_TO_DECIMAL_STRING \<equiv> 0x97"
abbreviation op_SIZE_OF :: u8 where "op_SIZE_OF \<equiv> 0x87"
abbreviation op_CREATE_DWORD_FIELD :: u8 where "op_CREATE_DWORD_FIELD \<equiv> 0x8A"
abbreviation op_CREATE_WORD_FIELD :: u8 where "op_CREATE_WORD_FIELD \<equiv> 0x8B"
abbreviation op_CREATE_BYTE_FIELD :: u8 where "op_CREATE_BYTE_FIELD \<equiv> 0x8C"
abbreviation op_CREATE_BIT_FIELD :: u8 where "op_CREATE_BIT_FIELD \<equiv> 0x8D"
abbreviation op_CREATE_QWORD_FIELD :: u8 where "op_CREATE_QWORD_FIELD \<equiv> 0x8F"
abbreviation op_INDEX :: u8 where "op_INDEX \<equiv> 0x88"
abbreviation op_DEREF_OF :: u8 where "op_DEREF_OF \<equiv> 0x83"
abbreviation op_LAND :: u8 where "op_LAND \<equiv> 0x90"
abbreviation op_LOR :: u8 where "op_LOR \<equiv> 0x91"
abbreviation op_LNOT :: u8 where "op_LNOT \<equiv> 0x92"
abbreviation op_LEQUAL :: u8 where "op_LEQUAL \<equiv> 0x93"
abbreviation op_LGREATER :: u8 where "op_LGREATER \<equiv> 0x94"
abbreviation op_LLESS :: u8 where "op_LLESS \<equiv> 0x95"
abbreviation op_TO_BUFFER :: u8 where "op_TO_BUFFER \<equiv> 0x96"
abbreviation op_TO_INTEGER :: u8 where "op_TO_INTEGER \<equiv> 0x99"
abbreviation op_IF :: u8 where "op_IF \<equiv> 0xA0"
abbreviation op_ELSE :: u8 where "op_ELSE \<equiv> 0xA1"
abbreviation op_WHILE :: u8 where "op_WHILE \<equiv> 0xA2"
abbreviation op_NOOP :: u8 where "op_NOOP \<equiv> 0xA3"
abbreviation op_RETURN :: u8 where "op_RETURN \<equiv> 0xA4"
abbreviation op_BREAK :: u8 where "op_BREAK \<equiv> 0xA5"
abbreviation op_ONES :: u8 where "op_ONES \<equiv> 0xFF"
abbreviation op_EXT_MUTEX :: u8 where "op_EXT_MUTEX \<equiv> 0x01"
abbreviation op_EXT_EVENT :: u8 where "op_EXT_EVENT \<equiv> 0x02"
abbreviation op_EXT_OP_REGION :: u8 where "op_EXT_OP_REGION \<equiv> 0x80"
abbreviation op_EXT_FIELD :: u8 where "op_EXT_FIELD \<equiv> 0x81"
abbreviation op_EXT_DEVICE :: u8 where "op_EXT_DEVICE \<equiv> 0x82"
abbreviation op_EXT_PROCESSOR :: u8 where "op_EXT_PROCESSOR \<equiv> 0x83"
abbreviation op_EXT_POWER_RES :: u8 where "op_EXT_POWER_RES \<equiv> 0x84"
abbreviation op_EXT_THERMAL_ZONE :: u8 where "op_EXT_THERMAL_ZONE \<equiv> 0x85"
abbreviation op_EXT_INDEX_FIELD :: u8 where "op_EXT_INDEX_FIELD \<equiv> 0x86"
abbreviation op_EXT_BANK_FIELD :: u8 where "op_EXT_BANK_FIELD \<equiv> 0x87"
abbreviation op_EXT_CREATE_FIELD :: u8 where "op_EXT_CREATE_FIELD \<equiv> 0x13"
abbreviation op_NOTIFY :: u8 where "op_NOTIFY \<equiv> 0x86"
abbreviation op_CONTINUE :: u8 where "op_CONTINUE \<equiv> 0x9F"
abbreviation op_EXT_LOAD :: u8 where "op_EXT_LOAD \<equiv> 0x20"
abbreviation op_EXT_STALL :: u8 where "op_EXT_STALL \<equiv> 0x21"
abbreviation op_EXT_SLEEP :: u8 where "op_EXT_SLEEP \<equiv> 0x22"
abbreviation op_EXT_SIGNAL :: u8 where "op_EXT_SIGNAL \<equiv> 0x24"
abbreviation op_EXT_RESET :: u8 where "op_EXT_RESET \<equiv> 0x26"
abbreviation op_EXT_RELEASE :: u8 where "op_EXT_RELEASE \<equiv> 0x27"
abbreviation op_EXT_UNLOAD :: u8 where "op_EXT_UNLOAD \<equiv> 0x2A"
abbreviation op_EXT_FATAL :: u8 where "op_EXT_FATAL \<equiv> 0x32"
abbreviation op_EXT_COND_REF_OF :: u8 where "op_EXT_COND_REF_OF \<equiv> 0x12"
abbreviation op_EXT_LOAD_TABLE :: u8 where "op_EXT_LOAD_TABLE \<equiv> 0x1F"
abbreviation op_EXT_ACQUIRE :: u8 where "op_EXT_ACQUIRE \<equiv> 0x23"
abbreviation op_EXT_WAIT :: u8 where "op_EXT_WAIT \<equiv> 0x25"
abbreviation op_EXT_FROM_BCD :: u8 where "op_EXT_FROM_BCD \<equiv> 0x28"
abbreviation op_EXT_TO_BCD :: u8 where "op_EXT_TO_BCD \<equiv> 0x29"
abbreviation op_EXT_REVISION :: u8 where "op_EXT_REVISION \<equiv> 0x30"
abbreviation op_EXT_DEBUG :: u8 where "op_EXT_DEBUG \<equiv> 0x31"
abbreviation op_EXT_TIMER :: u8 where "op_EXT_TIMER \<equiv> 0x33"

abbreviation is_local :: "u8 \<Rightarrow> bool" where "is_local b \<equiv> op_LOCAL0 \<le> b \<and> b \<le> op_LOCAL7"
abbreviation is_arg :: "u8 \<Rightarrow> bool" where "is_arg b \<equiv> op_ARG0 \<le> b \<and> b \<le> op_ARG6"

text \<open>The bytes a name string can begin with.\<close>

definition is_name_lead :: "u8 \<Rightarrow> bool" where
  "is_name_lead b \<longleftrightarrow> b = 0x5C \<or> b = 0x5E \<or> (0x41 \<le> b \<and> b \<le> 0x5A) \<or> b = 0x5F \<or> b = 0x2E \<or> b = 0x2F"

section \<open>The cursor\<close>

type_synonym 'a reader = "u8 list \<Rightarrow> nat \<Rightarrow> 'a option \<times> nat"

text \<open>\<open>let x = step?; rest\<close>, with the position left by whichever step failed.\<close>

definition then_read :: "'a option \<times> nat \<Rightarrow> ('a \<Rightarrow> nat \<Rightarrow> 'b option \<times> nat) \<Rightarrow> 'b option \<times> nat" where
  "then_read r f = (case r of (None, at') \<Rightarrow> (None, at') | (Some x, at') \<Rightarrow> f x at')"

definition cur_peek :: "u8 list \<Rightarrow> nat \<Rightarrow> u8 option" where
  "cur_peek code at = get_at code at"

definition cur_byte :: "u8 reader" where
  "cur_byte code at = (case cur_peek code at of None \<Rightarrow> (None, at) | Some b \<Rightarrow> (Some b, at + 1))"

definition cur_take :: "nat \<Rightarrow> u8 list reader" where
  "cur_take n code at =
     (case get_range code at (at + n) of None \<Rightarrow> (None, at) | Some s \<Rightarrow> (Some s, at + n))"

definition cur_integer :: "nat \<Rightarrow> u64 reader" where
  "cur_integer n code at = then_read (cur_take n code at) (\<lambda>s at. (Some (le_word s), at))"

text \<open>The length bytes after the lead byte, each above the four bits of the lead.\<close>

fun package_bytes :: "nat \<Rightarrow> nat \<Rightarrow> nat \<Rightarrow> nat reader" where
  "package_bytes 0 i value code at = (Some value, at)"
| "package_bytes (Suc n) i value code at =
     then_read (cur_byte code at)
       (\<lambda>b at. package_bytes n (Suc i) (value OR push_bit (4 + 8 * i) (unat b)) code at)"

definition cur_package :: "span reader" where
  "cur_package code at =
     then_read (cur_byte code at) (\<lambda>lead at1.
       then_read
         (let follow = unat (drop_bit 6 lead)
          in if follow = 0 then (Some (unat (lead AND 0x3F)), at1)
             else package_bytes follow 0 (unat (lead AND 0x0F)) code at1)
         (\<lambda>total at2.
            let e = at + total
            in if e > length code \<or> e < at2 then (None, at2) else (Some (span_new at2 e), at2)))"

function skip_carets :: "u8 list \<Rightarrow> nat \<Rightarrow> nat" where
  "skip_carets code at = (if cur_peek code at = Some 0x5E then skip_carets code (at + 1) else at)"
  by pat_completeness auto

termination skip_carets
  by (relation "measure (\<lambda>(code, at). length code - at)") (auto simp: cur_peek_def)

declare skip_carets.simps [simp del]

text \<open>The segments of a name; \<open>strict\<close> refuses a path that is full, which two segments never are.\<close>

fun name_segments :: "bool \<Rightarrow> nat \<Rightarrow> path \<Rightarrow> path reader" where
  "name_segments strict 0 p code at = (Some p, at)"
| "name_segments strict (Suc n) p code at =
     then_read (cur_take 4 code at) (\<lambda>seg at.
       case path_push seg p of (ok, p') \<Rightarrow>
         if strict \<and> \<not> ok then (None, at) else name_segments strict n p' code at)"

definition name_tail :: "bool \<Rightarrow> (path \<times> bool) reader" where
  "name_tail absolute code at =
     (case cur_peek code at of
        None \<Rightarrow> (None, at)
      | Some b \<Rightarrow>
          if b = 0 then (Some (path_root, absolute), at + 1)
          else then_read
            (if b = 0x2E then name_segments False 2 path_root code (at + 1)
             else if b = 0x2F then
               then_read (cur_byte code (at + 1))
                 (\<lambda>count at2. name_segments True (unat count) path_root code at2)
             else name_segments False 1 path_root code at)
            (\<lambda>p at'. (Some (p, absolute), at')))"

definition cur_name :: "(path \<times> bool) reader" where
  "cur_name code at =
     (case cur_peek code at of
        None \<Rightarrow> (None, at)
      | Some lead \<Rightarrow>
          if lead = 0x5C then name_tail True code (at + 1)
          else if lead = 0x5E then name_tail False code (skip_carets code at)
          else name_tail False code at)"

section \<open>Hardware identifiers\<close>

record hardware_id =
  hw_text :: "u8 list"
  hw_len :: nat

definition hw_as_bytes :: "hardware_id \<Rightarrow> u8 list" where
  "hw_as_bytes h = take (hw_len h) (hw_text h)"

definition ascii_lower :: "u8 \<Rightarrow> u8" where
  "ascii_lower b = (if 0x41 \<le> b \<and> b \<le> 0x5A then b + 0x20 else b)"

definition hw_matches :: "hardware_id \<Rightarrow> u8 list \<Rightarrow> bool" where
  "hw_matches h name \<longleftrightarrow> map ascii_lower (hw_as_bytes h) = map ascii_lower name"

fun hw_fill :: "u8 list \<Rightarrow> hardware_id \<Rightarrow> hardware_id" where
  "hw_fill [] h = h"
| "hw_fill (b # bs) h =
     (if b = 0 \<or> hw_len h = length (hw_text h) then h
      else hw_fill bs (h\<lparr>hw_text := (hw_text h)[hw_len h := b], hw_len := hw_len h + 1\<rparr>))"

definition hw_from_text :: "u8 list \<Rightarrow> hardware_id" where
  "hw_from_text bytes = hw_fill bytes \<lparr>hw_text = replicate 16 0, hw_len = 0\<rparr>"

definition swap_bytes :: "u32 \<Rightarrow> u32" where
  "swap_bytes w = le_word (rev (le_bytes 4 w))"

definition eisa_letter :: "u32 \<Rightarrow> nat \<Rightarrow> u8" where
  "eisa_letter swapped shift = 0x40 + ucast (drop_bit shift swapped AND 0x1F)"

definition eisa_hex :: "u32 \<Rightarrow> nat \<Rightarrow> u8" where
  "eisa_hex swapped shift =
     (let nibble = ucast (drop_bit shift swapped AND 0xF)
      in if nibble < 10 then 0x30 + nibble else 0x41 + nibble - 10)"

definition hw_from_eisa :: "u32 \<Rightarrow> hardware_id" where
  "hw_from_eisa compressed =
     (let swapped = swap_bytes compressed
      in hw_from_text [eisa_letter swapped 26, eisa_letter swapped 21, eisa_letter swapped 16,
           eisa_hex swapped 12, eisa_hex swapped 8, eisa_hex swapped 4, eisa_hex swapped 0])"

section \<open>Data objects\<close>

datatype aml_value =
    Uninitialised
  | Integer u64
  | Buffer span
  | Text span
  | Package span

definition value_integer :: "aml_value \<Rightarrow> u64 option" where
  "value_integer v = (case v of Integer n \<Rightarrow> Some n | _ \<Rightarrow> None)"

definition value_bytes :: "aml_value \<Rightarrow> u8 list \<Rightarrow> u8 list option" where
  "value_bytes v code = (case v of Buffer sp \<Rightarrow> span_of sp code | Text sp \<Rightarrow> span_of sp code | _ \<Rightarrow> None)"

text \<open>The end of a null-terminated string: the position after the null.\<close>

function skip_text :: "u8 list \<Rightarrow> nat \<Rightarrow> unit option \<times> nat" where
  "skip_text code at =
     (case cur_peek code at of
        None \<Rightarrow> (None, at)
      | Some b \<Rightarrow> if b = 0 then (Some (), at + 1) else skip_text code (at + 1))"
  by pat_completeness auto

termination skip_text
  by (relation "measure (\<lambda>(code, at). length code - at)") (auto simp: cur_peek_def)

declare skip_text.simps [simp del]

text \<open>
  \<open>parse_data\<close>.  The one nested object, the declared size of a buffer, starts past the package
  header, so the position grows with every level.
\<close>

lemma cur_byte_cases:
  obtains "length code \<le> at" "cur_byte code at = (None, at)"
  | "at < length code" "cur_byte code at = (Some (code ! at), at + 1)"
  by (cases "at < length code") (auto simp: cur_byte_def cur_peek_def get_at_def)

lemma then_read_Some_iff:
  "then_read r f = (Some y, at') \<longleftrightarrow> (\<exists>x at1. r = (Some x, at1) \<and> f x at1 = (Some y, at'))"
  by (auto simp: then_read_def split: option.splits prod.splits)

lemma then_read_cong [fundef_cong]:
  assumes "r = r'" "\<And>x at. r' = (Some x, at) \<Longrightarrow> f x at = g x at"
  shows "then_read r f = then_read r' g"
  using assms by (auto simp: then_read_def split: option.splits prod.splits)

lemma then_read_mono:
  assumes "at \<le> snd r" "\<And>x at1. r = (Some x, at1) \<Longrightarrow> at1 \<le> snd (f x at1)"
  shows "at \<le> snd (then_read r f)"
  using assms by (auto simp: then_read_def split: option.splits prod.splits intro: order_trans)

lemma then_read_ge:
  assumes "at \<le> snd r" "\<And>x at1. r = (Some x, at1) \<Longrightarrow> at \<le> at1 \<Longrightarrow> at \<le> snd (f x at1)"
  shows "at \<le> snd (then_read r f)"
  using assms by (auto simp: then_read_def split: option.splits prod.splits)

lemma then_read_le:
  assumes "snd r \<le> n" "\<And>x at1. r = (Some x, at1) \<Longrightarrow> at1 \<le> n \<Longrightarrow> snd (f x at1) \<le> n"
  shows "snd (then_read r f) \<le> n"
  using assms by (auto simp: then_read_def split: option.splits prod.splits)

lemma cur_byte_mono: "at \<le> snd (cur_byte code at)"
  by (cases rule: cur_byte_cases [of code at]) simp_all

lemma cur_byte_le: "at \<le> length code \<Longrightarrow> snd (cur_byte code at) \<le> length code"
  by (cases rule: cur_byte_cases [of code at]) simp_all

lemma cur_byte_Some: "cur_byte code at = (Some b, at') \<longleftrightarrow> at < length code \<and> b = code ! at \<and> at' = at + 1"
  by (cases rule: cur_byte_cases [of code at]) auto

lemma package_bytes_mono: "at \<le> snd (package_bytes n i v code at)"
  by (induction n i v code at rule: package_bytes.induct) (auto intro!: then_read_mono cur_byte_mono)

lemma package_bytes_le: "at \<le> length code \<Longrightarrow> snd (package_bytes n i v code at) \<le> length code"
  by (induction n i v code at rule: package_bytes.induct) (auto intro!: then_read_le cur_byte_le)

lemma cur_package_Some:
  assumes "cur_package code at = (Some sp, at')"
  shows "at < at'" "sp_start sp = at'" "at' \<le> sp_end sp" "sp_end sp \<le> length code"
proof -
  from assms obtain lead total where lead: "cur_byte code at = (Some lead, at + 1)"
    and r: "(let follow = unat (drop_bit 6 lead)
          in if follow = 0 then (Some (unat (lead AND 0x3F)), at + 1)
             else package_bytes follow 0 (unat (lead AND 0x0F)) code (at + 1)) = (Some total, at')"
    and sp: "sp = span_new at' (at + total)" "at + total \<le> length code" "at' \<le> at + total"
    unfolding cur_package_def then_read_Some_iff
    by (auto simp: cur_byte_Some Let_def split: if_splits)
  have "at + 1 \<le> snd (let follow = unat (drop_bit 6 lead)
          in if follow = 0 then (Some (unat (lead AND 0x3F)), at + 1)
             else package_bytes follow 0 (unat (lead AND 0x0F)) code (at + 1))"
    by (simp add: Let_def package_bytes_mono del: One_nat_def add_Suc_right)
  with r have "at + 1 \<le> at'" by simp
  with sp show "at < at'" "sp_start sp = at'" "at' \<le> sp_end sp" "sp_end sp \<le> length code" by simp_all
qed

function parse_data :: "u8 list \<Rightarrow> nat \<Rightarrow> aml_value option \<times> nat" where
  "parse_data code at =
     then_read (cur_byte code at) (\<lambda>opcode at1.
       if opcode = op_ZERO then (Some (Integer 0), at1)
       else if opcode = op_ONE then (Some (Integer 1), at1)
       else if opcode = op_ONES then (Some (Integer (- 1)), at1)
       else if opcode = op_BYTE_PREFIX then then_read (cur_integer 1 code at1) (\<lambda>n at2. (Some (Integer n), at2))
       else if opcode = op_WORD_PREFIX then then_read (cur_integer 2 code at1) (\<lambda>n at2. (Some (Integer n), at2))
       else if opcode = op_DWORD_PREFIX then then_read (cur_integer 4 code at1) (\<lambda>n at2. (Some (Integer n), at2))
       else if opcode = op_QWORD_PREFIX then then_read (cur_integer 8 code at1) (\<lambda>n at2. (Some (Integer n), at2))
       else if opcode = op_STRING_PREFIX then
         then_read (skip_text code at1) (\<lambda>_ at2. (Some (Text (span_new at1 (at2 - 1))), at2))
       else if opcode = op_BUFFER then
         then_read (cur_package code at1) (\<lambda>package at2.
           then_read (parse_data code at2) (\<lambda>_ at3.
             (Some (Buffer (span_new at3 (sp_end package))), sp_end package)))
       else if opcode = op_PACKAGE \<or> opcode = op_VAR_PACKAGE then
         then_read (cur_package code at1) (\<lambda>package at2.
           (Some (Package (span_new at2 (sp_end package))), sp_end package))
       else (None, at1))"
  by pat_completeness auto

termination parse_data
  by (relation "measure (\<lambda>(code, at). length code - at)")
    (force simp: cur_byte_Some dest: cur_package_Some)+

declare parse_data.simps [simp del]

definition parse_data_value :: "aml_value reader" where
  "parse_data_value code at = parse_data code at"

section \<open>The contract of a reading step\<close>

text \<open>
  What the walks over the bytecode rely on: a step never moves backwards and never leaves the
  table, and a successful step of the consuming kind moves forward.
\<close>

locale reading_step =
  fixes code :: "u8 list" and step :: "nat \<Rightarrow> 'r \<times> nat" and ok :: "'r \<Rightarrow> bool"
  assumes mono: "at \<le> snd (step at)"
    and inside: "at \<le> length code \<Longrightarrow> snd (step at) \<le> length code"

locale consuming_step = reading_step +
  assumes consumes: "ok (fst (step at)) \<Longrightarrow> at < snd (step at)"
begin

text \<open>The position after \<open>n\<close> steps, \<open>None\<close> once one of them fails.\<close>

primrec after_steps :: "nat \<Rightarrow> nat \<Rightarrow> nat option" where
  "after_steps 0 at = Some at"
| "after_steps (Suc n) at = (if ok (fst (step at)) then after_steps n (snd (step at)) else None)"

lemma after_steps_range:
  "after_steps n at = Some at' \<Longrightarrow> at + n \<le> at' \<and> (at \<le> length code \<longrightarrow> at' \<le> length code)"
proof (induction n arbitrary: at)
  case 0
  then show ?case by simp
next
  case (Suc n)
  then have "at < snd (step at)" "after_steps n (snd (step at)) = Some at'"
    by (auto simp: consumes split: if_splits)
  with Suc.IH [of "snd (step at)"] inside [of at] show ?case by auto
qed

text \<open>So a list of objects inside the table is over after at most one step per byte.\<close>

lemma steps_bounded: "at \<le> length code \<Longrightarrow> length code - at < n \<Longrightarrow> after_steps n at = None"
  using after_steps_range [of n at] by (cases "after_steps n at") auto

end

section \<open>The lexical steps keep the contract\<close>

abbreviation is_ok :: "'a option \<Rightarrow> bool" where
  "is_ok r \<equiv> r \<noteq> None"

interpretation byte_step: consuming_step code "cur_byte code" is_ok for code
proof
  fix at
  show "at \<le> snd (cur_byte code at)" by (rule cur_byte_mono)
  show "at \<le> length code \<Longrightarrow> snd (cur_byte code at) \<le> length code" by (rule cur_byte_le)
  show "is_ok (fst (cur_byte code at)) \<Longrightarrow> at < snd (cur_byte code at)"
    by (cases rule: cur_byte_cases [of code at]) simp_all
qed

interpretation take_step: reading_step code "cur_take n code" is_ok for code n
  by unfold_locales (auto simp: cur_take_def get_range_def)

lemma cur_take_Some: "cur_take n code at = (Some s, at') \<Longrightarrow> at' = at + n \<and> length s = n"
  by (auto simp: cur_take_def dest: get_range_length split: option.splits)

interpretation integer_step: reading_step code "cur_integer n code" is_ok for code n
  by unfold_locales
    (auto simp: cur_integer_def intro!: then_read_mono then_read_le take_step.mono take_step.inside)

interpretation package_step: consuming_step code "cur_package code" is_ok for code
proof
  fix at
  let ?len = "\<lambda>lead at1. let follow = unat (drop_bit 6 lead)
          in if follow = 0 then (Some (unat (lead AND 0x3F)), at1)
             else package_bytes follow 0 (unat (lead AND 0x0F)) code at1"
  have l: "at1 \<le> snd (?len lead at1)" "at1 \<le> length code \<Longrightarrow> snd (?len lead at1) \<le> length code" for lead at1
    by (simp_all add: Let_def package_bytes_mono package_bytes_le)
  show "at \<le> snd (cur_package code at)"
    unfolding cur_package_def
    by (intro then_read_mono cur_byte_mono l(1)) (simp add: Let_def)
  show "at \<le> length code \<Longrightarrow> snd (cur_package code at) \<le> length code"
    unfolding cur_package_def
    by (intro then_read_le cur_byte_le l(2)) (simp_all add: Let_def)
  show "is_ok (fst (cur_package code at)) \<Longrightarrow> at < snd (cur_package code at)"
    using cur_package_Some [of code at] by (cases "cur_package code at") auto
qed

lemma skip_carets_mono: "at \<le> skip_carets code at"
  by (induction code at rule: skip_carets.induct) (subst skip_carets.simps, auto)

lemma skip_carets_le: "at \<le> length code \<Longrightarrow> skip_carets code at \<le> length code"
  by (induction code at rule: skip_carets.induct) (subst skip_carets.simps, auto simp: cur_peek_def)

lemma name_segments_mono: "at \<le> snd (name_segments strict n p code at)"
  by (induction n arbitrary: p at)
    (auto intro!: then_read_mono take_step.mono split: prod.splits)

lemma name_segments_le: "at \<le> length code \<Longrightarrow> snd (name_segments strict n p code at) \<le> length code"
  by (induction n arbitrary: p at)
    (auto intro!: then_read_le take_step.inside split: prod.splits)

lemma name_segments_advance:
  "name_segments strict n p code at = (Some q, at') \<Longrightarrow> at' = at + 4 * n"
proof (induction n arbitrary: p at)
  case 0
  then show ?case by simp
next
  case (Suc n)
  then obtain seg p' at1 where "cur_take 4 code at = (Some seg, at1)"
    "name_segments strict n p' code at1 = (Some q, at')"
    by (auto simp: then_read_Some_iff case_prod_beta split: if_splits)
  with Suc.IH [of p' at1] cur_take_Some [of 4 code at seg at1] show ?case by simp
qed

lemma name_tail_mono: "at \<le> snd (name_tail absolute code at)"
proof -
  have s: "at \<le> snd (name_segments s n p code (Suc at))" for s n p
    by (rule order_trans [OF _ name_segments_mono]) simp
  have "at \<le> snd (then_read (cur_byte code (at + 1)) (\<lambda>count at2. name_segments True (unat count) path_root code at2))"
    by (rule order_trans [OF le_add1 then_read_mono [OF cur_byte_mono name_segments_mono]])
  then show ?thesis
    by (auto simp: name_tail_def s simp del: name_segments.simps split: option.splits
        intro!: then_read_mono name_segments_mono)
qed

lemma name_tail_le: "at \<le> length code \<Longrightarrow> snd (name_tail absolute code at) \<le> length code"
  by (auto simp: name_tail_def cur_peek_def simp del: name_segments.simps split: option.splits
      intro!: then_read_le name_segments_le cur_byte_le)

lemma name_tail_consumes: "name_tail absolute code at = (Some r, at') \<Longrightarrow> at < at'"
  by (auto simp: name_tail_def then_read_Some_iff cur_byte_Some simp del: name_segments.simps split: option.splits if_splits
      dest!: name_segments_advance)

interpretation name_step: consuming_step code "cur_name code" is_ok for code
proof
  fix at
  show "at \<le> snd (cur_name code at)"
    using order_trans [OF skip_carets_mono name_tail_mono] order_trans [OF le_add1 [of at 1] name_tail_mono]
    by (simp add: cur_name_def name_tail_mono split: option.splits)
  show "at \<le> length code \<Longrightarrow> snd (cur_name code at) \<le> length code"
    by (auto simp: cur_name_def cur_peek_def split: option.splits
        intro!: name_tail_le skip_carets_le)
  show "is_ok (fst (cur_name code at)) \<Longrightarrow> at < snd (cur_name code at)"
  proof -
    assume "is_ok (fst (cur_name code at))"
    then obtain r at' where r: "cur_name code at = (Some r, at')" by (cases "cur_name code at") auto
    with skip_carets_mono [of at code] show ?thesis
      by (auto simp: cur_name_def split: option.splits if_splits dest!: name_tail_consumes)
  qed
qed

lemma skip_text_mono: "at \<le> snd (skip_text code at)"
  by (induction code at rule: skip_text.induct) (subst skip_text.simps, auto split: option.splits)

lemma skip_text_le: "at \<le> length code \<Longrightarrow> snd (skip_text code at) \<le> length code"
  by (induction code at rule: skip_text.induct)
    (subst skip_text.simps, auto simp: cur_peek_def split: option.splits)

lemma parse_data_end: "length code \<le> at \<Longrightarrow> parse_data code at = (None, at)"
  by (subst parse_data.simps) (simp add: cur_byte_def cur_peek_def get_at_def then_read_def)

lemma parse_data_forward: "at < length code \<Longrightarrow> at + 1 \<le> snd (parse_data code at)"
proof (induction "length code - at" arbitrary: at rule: less_induct)
  case less
  let ?at = "at + 1"
  have int: "?at \<le> snd (cur_integer n code ?at)" for n by (rule integer_step.mono)
  have str: "?at \<le> snd (skip_text code ?at)" by (rule skip_text_mono)
  have pkg: "?at \<le> snd (cur_package code ?at)" by (rule package_step.mono)
  have body: "?at \<le> sp_end sp" if "cur_package code ?at = (Some sp, at2)" for at2 sp
    using cur_package_Some [OF that] by simp
  have size: "?at \<le> snd (parse_data code at2)" if "cur_package code ?at = (Some sp, at2)" for at2 sp
  proof (cases "at2 < length code")
    case True
    with that have "at < at2" by (auto dest: cur_package_Some)
    with True less.prems show ?thesis using less.hyps [of at2] by linarith
  next
    case False
    with cur_package_Some [OF that] show ?thesis by (simp add: parse_data_end)
  qed
  have b: "cur_byte code at = (Some (code ! at), ?at)" using less.prems by (simp add: cur_byte_Some)
  show ?case
    by (subst parse_data.simps, subst b, subst then_read_def)
      (auto simp del: add_Suc_right One_nat_def intro!: then_read_ge int str pkg intro: body size)
qed

lemma parse_data_le: "at \<le> length code \<Longrightarrow> snd (parse_data code at) \<le> length code"
proof (induction "length code - at" arbitrary: at rule: less_induct)
  case less
  have body: "sp_end sp \<le> length code" if "cur_package code at1 = (Some sp, at2)" for at1 at2 sp
    by (rule cur_package_Some(4) [OF that])
  have size: "snd (parse_data code at2) \<le> length code"
    if "cur_byte code at = (Some b, at1)" "cur_package code at1 = (Some sp, at2)" for b at1 at2 sp
  proof -
    have "at < at2" "at < length code" "at2 \<le> length code"
      using that cur_package_Some [OF that(2)] by (auto simp: cur_byte_Some)
    then show ?thesis using less.hyps [of at2] by simp
  qed
  show ?case using less.prems
    by (subst parse_data.simps)
      (auto intro!: then_read_le cur_byte_le integer_step.inside skip_text_le package_step.inside;
        elim body size; assumption)
qed

interpretation data_step: consuming_step code "parse_data code" is_ok for code
proof
  fix at
  show "at \<le> snd (parse_data code at)"
    using parse_data_forward [of at code] parse_data_end [of code at] by (cases "at < length code") auto
  show "at \<le> length code \<Longrightarrow> snd (parse_data code at) \<le> length code" by (rule parse_data_le)
  show "is_ok (fst (parse_data code at)) \<Longrightarrow> at < snd (parse_data code at)"
    using parse_data_forward [of at code] parse_data_end [of code at] by (cases "at < length code") auto
qed

section \<open>Rendered paths read back\<close>

text \<open>A segment a name can have: four bytes, none of them a separator, an anchor or a null.\<close>

definition plain_seg :: "nameseg \<Rightarrow> bool" where
  "plain_seg seg \<longleftrightarrow> length seg = 4 \<and> (\<forall>b\<in>set seg. b \<notin> {0x5C, 0x5E, 0x2E, 0})"

lemma fold_put:
  "used + length bs \<le> length out \<Longrightarrow>
     fold put bs (out, used) = (take used out @ bs @ drop (used + length bs) out, used + length bs)"
proof (induction bs arbitrary: out used)
  case (Cons b bs)
  then have u: "used < length out" by simp
  have "fold put (b # bs) (out, used) = fold put bs (out[used := b], used + 1)"
    using u by (simp add: put_def)
  also have "\<dots> = (take (used + 1) (out[used := b]) @ bs @ drop (used + 1 + length bs) (out[used := b]), used + 1 + length bs)"
    using Cons by (intro Cons.IH) simp
  finally show ?case using u by (simp add: take_Suc_conv_app_nth)
qed simp

lemma last_used_spec:
  "last_used seg \<le> length seg \<and> drop (last_used seg) seg = replicate (length seg - last_used seg) 0x5F"
proof (induction seg rule: rev_induct)
  case Nil
  then show ?case by (simp add: last_used.simps)
next
  case (snoc b seg)
  show ?case
  proof (cases "b = 0x5F")
    case True
    then have "last_used (seg @ [b]) = last_used seg" by (subst last_used.simps) simp
    with snoc True show ?thesis by (simp add: Suc_diff_le replicate_append_same)
  next
    case False
    then have "last_used (seg @ [b]) = length seg + 1" by (subst last_used.simps) simp
    then show ?thesis by simp
  qed
qed

lemma parse_path_chars:
  assumes "\<forall>b\<in>set cs. b \<notin> {0x5C, 0x5E, 0x2E, 0}" "length seg = 4" "filled + length cs \<le> 4"
  shows "parse_path_loop (cs @ rest) p seg filled =
    parse_path_loop rest p (take filled seg @ cs @ drop (filled + length cs) seg) (filled + length cs)"
  using assms
proof (induction cs arbitrary: seg filled)
  case (Cons c cs)
  have "parse_path_loop ((c # cs) @ rest) p seg filled = parse_path_loop (cs @ rest) p (seg[filled := c]) (filled + 1)"
    using Cons.prems by simp
  also have "\<dots> = parse_path_loop rest p
      (take (filled + 1) (seg[filled := c]) @ cs @ drop (filled + 1 + length cs) (seg[filled := c])) (filled + 1 + length cs)"
    using Cons.prems by (intro Cons.IH) auto
  finally show ?case using Cons.prems by (simp add: take_Suc_conv_app_nth)
qed simp

lemma parse_path_seg:
  assumes "plain_seg seg"
  shows "\<exists>k>0. parse_path_loop (take (max (last_used seg) 1) seg @ rest) p blank_seg 0 = parse_path_loop rest p seg k"
proof -
  define n where "n = max (last_used seg) 1"
  have n: "0 < n" "n \<le> 4" "length seg = 4" using last_used_spec [of seg] assms by (auto simp: plain_seg_def n_def)
  have "drop n seg = replicate (4 - n) 0x5F"
  proof -
    have "drop n seg = drop (n - last_used seg) (drop (last_used seg) seg)" by (simp add: n_def max_def)
    also have "\<dots> = replicate (4 - last_used seg - (n - last_used seg)) 0x5F"
      using last_used_spec [of seg] n(3) by (simp add: drop_replicate)
    finally show ?thesis by (simp add: n_def max_def split: if_splits)
  qed
  then have s: "take n seg @ drop n blank_seg = seg"
    using n append_take_drop_id [of n seg] by (simp add: blank_seg_def)
  have l: "length (take n seg) = n" using n by simp
  have "parse_path_loop (take n seg @ rest) p blank_seg 0 =
      parse_path_loop rest p (take 0 blank_seg @ take n seg @ drop (0 + length (take n seg)) blank_seg) (0 + length (take n seg))"
    using assms n by (intro parse_path_chars) (auto simp: plain_seg_def blank_seg_def dest: in_set_takeD)
  then have "parse_path_loop (take n seg @ rest) p blank_seg 0 = parse_path_loop rest p seg n"
    unfolding l by (simp add: s)
  then show ?thesis using n(1) unfolding n_def by blast
qed

lemma parse_render_segments:
  assumes "\<forall>seg\<in>set segs. plain_seg seg" "segs \<noteq> []" "length (path_segs p) = MAX_PATH"
    and "path_len p + length segs \<le> MAX_PATH"
  shows "\<exists>q. parse_path_loop (if i > 0 then drop 1 (render_segments i segs) else render_segments i segs) p blank_seg 0 = Some q \<and>
    path_segments q = path_segments p @ segs"
  using assms
proof (induction segs arbitrary: i p)
  case (Cons seg segs)
  let ?t = "take (max (last_used seg) 1) seg"
  obtain p' where push: "path_push seg p = (True, p')" "path_segments p' = path_segments p @ [seg]"
    "length (path_segs p') = MAX_PATH" "path_len p' = path_len p + 1"
    using Cons.prems by (auto simp: path_push_def path_segments_def take_Suc_conv_app_nth)
  have body: "(if i > 0 then drop 1 (render_segments i (seg # segs)) else render_segments i (seg # segs)) =
      ?t @ render_segments (Suc i) segs" by simp
  obtain k where k: "k > 0" "parse_path_loop (?t @ render_segments (Suc i) segs) p blank_seg 0 =
      parse_path_loop (render_segments (Suc i) segs) p seg k"
    using parse_path_seg [of seg "render_segments (Suc i) segs" p] Cons.prems(1) by auto
  show ?case
  proof (cases segs)
    case Nil
    then show ?thesis unfolding body k(2) using k(1) push by (simp add: path_is_empty_def)
  next
    case (Cons seg2 segs2)
    have r: "render_segments (Suc i) segs = 0x2E # drop 1 (render_segments (Suc i) segs)" by (simp add: Cons)
    have "parse_path_loop (render_segments (Suc i) segs) p seg k =
        parse_path_loop (drop 1 (render_segments (Suc i) segs)) p' blank_seg 0"
      by (subst r) (use k(1) push in simp)
    moreover have "\<exists>q. parse_path_loop (drop 1 (render_segments (Suc i) segs)) p' blank_seg 0 = Some q \<and>
        path_segments q = path_segments p' @ segs"
      using Cons.IH [of p' "Suc i"] Cons.prems push Cons by simp
    ultimately show ?thesis unfolding body k(2) using push(2) by simp
  qed
qed simp

lemma length_render_segments: "\<forall>seg\<in>set segs. length seg = 4 \<Longrightarrow> length (render_segments i segs) \<le> 5 * length segs"
proof (induction segs arbitrary: i)
  case (Cons seg segs)
  then have "length (render_segments (Suc i) segs) \<le> 5 * length segs" by simp
  then show ?case using Cons.prems by (cases "i > 0") (auto simp: min_def)
qed simp

section \<open>Compressed identifiers\<close>

lemma le_bytes_le_word:
  assumes "8 * length bs \<le> LENGTH('a)"
  shows "le_bytes (length bs) (le_word bs :: 'a::len word) = bs"
  using assms
proof (induction bs)
  case (Cons b bs)
  have u: "ucast (le_word (b # bs) :: 'a word) = b"
    using Cons.prems unfolding le_word_Cons by (intro bit_word_eqI) (auto simp: bit_simps)
  have d: "drop_bit 8 (le_word (b # bs) :: 'a word) = le_word bs"
  proof -
    have "take_bit (8 * length bs) (le_word bs) = (le_word bs :: 'a word)" by (rule le_word_take_bit)
    then have hi: "\<not> bit (le_word bs :: 'a word) j" if "8 * length bs \<le> j" for j
      using that by (metis bit_take_bit_iff leD)
    show ?thesis
      unfolding le_word_Cons
      by (rule bit_word_eqI) (use Cons.prems hi in \<open>auto simp: bit_simps dest: bit_imp_le_length\<close>)
  qed
  show ?case using Cons by (simp add: u d)
qed simp

lemma swap_bytes_swap_bytes: "swap_bytes (swap_bytes w) = w"
proof -
  have "le_bytes 4 (swap_bytes w) = rev (le_bytes 4 w)"
    using le_bytes_le_word [of "rev (le_bytes 4 w)", where 'a = 32] by (simp add: swap_bytes_def)
  then show ?thesis by (simp add: swap_bytes_def [of "swap_bytes w"] le_word_le_bytes)
qed

text \<open>Three letters, counted from one, and four hexadecimal digits, as the compressed form packs them.\<close>

definition eisa_pack :: "u32 \<Rightarrow> u32 \<Rightarrow> u32 \<Rightarrow> u32 \<Rightarrow> u32 \<Rightarrow> u32 \<Rightarrow> u32 \<Rightarrow> u32" where
  "eisa_pack a b c h1 h2 h3 h4 =
     push_bit 26 a OR push_bit 21 b OR push_bit 16 c OR push_bit 12 h1 OR push_bit 8 h2 OR push_bit 4 h3 OR h4"

definition hex_digit :: "u8 \<Rightarrow> u8" where
  "hex_digit n = (if n < 10 then 0x30 + n else 0x41 + n - 10)"

lemma eisa_fields:
  assumes "unat a < 2 ^ 5" "unat b < 2 ^ 5" "unat c < 2 ^ 5"
    and "unat h1 < 2 ^ 4" "unat h2 < 2 ^ 4" "unat h3 < 2 ^ 4" "unat h4 < 2 ^ 4"
  defines "w \<equiv> eisa_pack a b c h1 h2 h3 h4"
  shows "drop_bit 26 w AND 0x1F = a" "drop_bit 21 w AND 0x1F = b" "drop_bit 16 w AND 0x1F = c"
    and "drop_bit 12 w AND 0xF = h1" "drop_bit 8 w AND 0xF = h2" "drop_bit 4 w AND 0xF = h3" "drop_bit 0 w AND 0xF = h4"
proof -
  have m: "(0x1F :: u32) = mask 5" "(0xF :: u32) = mask 4" by (simp_all add: mask_eq_exp_minus_1)
  note s = small_bits [OF assms(1)] small_bits [OF assms(2)] small_bits [OF assms(3)] small_bits [OF assms(4)]
    small_bits [OF assms(5)] small_bits [OF assms(6)] small_bits [OF assms(7)]
  show "drop_bit 26 w AND 0x1F = a"
    unfolding w_def eisa_pack_def m by (rule bit_word_eqI) (auto simp: bit_simps dest: s)
  show "drop_bit 21 w AND 0x1F = b"
    unfolding w_def eisa_pack_def m by (rule bit_word_eqI) (auto simp: bit_simps dest: s)
  show "drop_bit 16 w AND 0x1F = c"
    unfolding w_def eisa_pack_def m by (rule bit_word_eqI) (auto simp: bit_simps dest: s)
  show "drop_bit 12 w AND 0xF = h1"
    unfolding w_def eisa_pack_def m by (rule bit_word_eqI) (auto simp: bit_simps dest: s)
  show "drop_bit 8 w AND 0xF = h2"
    unfolding w_def eisa_pack_def m by (rule bit_word_eqI) (auto simp: bit_simps dest: s)
  show "drop_bit 4 w AND 0xF = h3"
    unfolding w_def eisa_pack_def m by (rule bit_word_eqI) (auto simp: bit_simps dest: s)
  show "drop_bit 0 w AND 0xF = h4"
    unfolding w_def eisa_pack_def m by (rule bit_word_eqI) (auto simp: bit_simps dest: s)
qed

lemma hw_fill_bytes:
  assumes "0 \<notin> set bs" "hw_len h + length bs \<le> length (hw_text h)"
  shows "hw_as_bytes (hw_fill bs h) = hw_as_bytes h @ bs"
  using assms
proof (induction bs arbitrary: h)
  case (Cons b bs)
  then have "hw_as_bytes (hw_fill bs (h\<lparr>hw_text := (hw_text h)[hw_len h := b], hw_len := hw_len h + 1\<rparr>)) =
      hw_as_bytes (h\<lparr>hw_text := (hw_text h)[hw_len h := b], hw_len := hw_len h + 1\<rparr>) @ bs"
    by (intro Cons.IH) auto
  with Cons.prems show ?case by (auto simp: hw_as_bytes_def take_Suc_conv_app_nth)
qed simp

lemma hw_from_text_bytes: "0 \<notin> set bs \<Longrightarrow> length bs \<le> 16 \<Longrightarrow> hw_as_bytes (hw_from_text bs) = bs"
  by (simp add: hw_from_text_def hw_fill_bytes) (simp add: hw_as_bytes_def)

lemma hex_digit_nonzero: "unat n < 2 ^ 4 \<Longrightarrow> hex_digit (ucast (n :: u32)) \<noteq> 0"
proof -
  assume n: "unat n < 2 ^ 4"
  then have u: "unat (ucast n :: u8) = unat n" by (simp add: unsigned_ucast_eq take_bit_nat_eq_self)
  then have "unat (hex_digit (ucast n)) = (if unat n < 10 then 48 + unat n else 55 + unat n)"
    using n by (auto simp: hex_digit_def word_less_nat_alt unat_word_ariths unat_sub_if_size size_word.rep_eq)
  then have "0 < unat (hex_digit (ucast n))" by simp
  then show ?thesis by (auto simp: unat_gt_0)
qed

lemma letter_nonzero: "unat n < 2 ^ 5 \<Longrightarrow> 0x40 + ucast (n :: u32) \<noteq> (0 :: u8)"
proof -
  assume n: "unat n < 2 ^ 5"
  then have "unat (ucast n :: u8) = unat n" by (simp add: unsigned_ucast_eq take_bit_nat_eq_self)
  then have "unat (0x40 + ucast n :: u8) = 64 + unat n" using n by (simp add: unat_word_ariths)
  then show ?thesis by auto
qed

section \<open>Properties\<close>

text \<open>
  A rendered path reads back: for every path of one to eight segments, trailing underscores trimmed by
  the rendering are restored by the parser, and a buffer of 41 bytes always holds the text.
\<close>

theorem path_text_round_trip:
  assumes "length (path_segs p) = MAX_PATH" "0 < path_len p" "path_len p \<le> MAX_PATH"
    and "\<forall>seg\<in>set (path_segments p). plain_seg seg" "41 \<le> length out"
  shows "case path_render p out of (text, used) \<Rightarrow>
    used \<le> 41 \<and> map_option path_segments (parse_path (take used text)) = Some (path_segments p)"
proof -
  let ?segs = "path_segments p"
  have n: "length ?segs = path_len p" using assms(1,3) by (simp add: path_segments_def)
  have "length (render_segments 0 ?segs) \<le> 5 * length ?segs"
    using assms(4) by (intro length_render_segments) (auto simp: plain_seg_def)
  then have l: "length (0x5C # render_segments 0 ?segs) \<le> 41" using n assms(3) by (simp add: MAX_PATH_def)
  then have r: "path_render p out = ((0x5C # render_segments 0 ?segs) @ drop (length (0x5C # render_segments 0 ?segs)) out,
      length (0x5C # render_segments 0 ?segs))"
    unfolding path_render_def using assms(5) by (subst fold_put) auto
  have root: "path_segments path_root = []" "path_len path_root = 0" "length (path_segs path_root) = MAX_PATH"
    by (simp_all add: path_segments_def path_root_def)
  have ne: "?segs \<noteq> []" using n assms(2) by auto
  obtain q where "parse_path_loop (render_segments 0 ?segs) path_root blank_seg 0 = Some q" "path_segments q = ?segs"
    using parse_render_segments [of ?segs path_root 0] ne assms(2,3,4) n root by auto
  then have "map_option path_segments (parse_path (0x5C # render_segments 0 ?segs)) = Some ?segs"
    by (simp add: parse_path_def)
  then show ?thesis using l unfolding r by simp
qed

definition sample_path :: path where
  "sample_path = snd (path_push [0x49, 0x32, 0x43, 0x31] (snd (path_push [0x5F, 0x53, 0x42, 0x5F] path_root)))"

lemma path_text_round_trip_witness:
  "case path_render sample_path (replicate 48 0) of (text, used) \<Rightarrow>
     take used text = [0x5C, 0x5F, 0x53, 0x42, 0x2E, 0x49, 0x32, 0x43, 0x31] \<and>
     map_option path_segments (parse_path (take used text)) = Some (path_segments sample_path)"
proof -
  have c: "length (path_segs sample_path) = MAX_PATH" "0 < path_len sample_path" "path_len sample_path \<le> MAX_PATH"
    "\<forall>seg\<in>set (path_segments sample_path). plain_seg seg" "41 \<le> length (replicate 48 (0 :: u8))"
    by code_simp+
  have "(case path_render sample_path (replicate 48 0) of (text, used) \<Rightarrow>
      take used text = [0x5C, 0x5F, 0x53, 0x42, 0x2E, 0x49, 0x32, 0x43, 0x31])" by code_simp
  with path_text_round_trip [OF c] show ?thesis by (simp add: case_prod_beta)
qed

text \<open>
  A compressed identifier decodes to its seven characters: three letters and four hexadecimal digits
  packed big-endian, as the format stores them, give back exactly those characters.
\<close>

theorem eisa_round_trip:
  assumes "unat a < 2 ^ 5" "unat b < 2 ^ 5" "unat c < 2 ^ 5"
    and "unat h1 < 2 ^ 4" "unat h2 < 2 ^ 4" "unat h3 < 2 ^ 4" "unat h4 < 2 ^ 4"
  shows "hw_as_bytes (hw_from_eisa (swap_bytes (eisa_pack a b c h1 h2 h3 h4))) =
    [0x40 + ucast a, 0x40 + ucast b, 0x40 + ucast c,
     hex_digit (ucast h1), hex_digit (ucast h2), hex_digit (ucast h3), hex_digit (ucast h4)]"
proof -
  note f = eisa_fields [OF assms]
  have "hw_from_eisa (swap_bytes (eisa_pack a b c h1 h2 h3 h4)) =
      hw_from_text [0x40 + ucast a, 0x40 + ucast b, 0x40 + ucast c,
        hex_digit (ucast h1), hex_digit (ucast h2), hex_digit (ucast h3), hex_digit (ucast h4)]"
    unfolding hw_from_eisa_def Let_def swap_bytes_swap_bytes eisa_letter_def eisa_hex_def hex_digit_def
    by (simp only: f)
  moreover have "0 \<notin> set [0x40 + ucast a, 0x40 + ucast b, 0x40 + ucast c,
      hex_digit (ucast h1), hex_digit (ucast h2), hex_digit (ucast h3), hex_digit (ucast h4)]"
    using letter_nonzero [OF assms(1)] letter_nonzero [OF assms(2)] letter_nonzero [OF assms(3)]
      hex_digit_nonzero [OF assms(4)] hex_digit_nonzero [OF assms(5)] hex_digit_nonzero [OF assms(6)]
      hex_digit_nonzero [OF assms(7)]
    by (metis (no_types) empty_iff insert_iff list.set)
  ultimately show ?thesis by (simp add: hw_from_text_bytes)
qed

text \<open>The number a table stores for \<open>PNP0C50\<close>.\<close>

lemma eisa_round_trip_witness:
  "swap_bytes (eisa_pack 16 14 16 0 12 5 0) = 0x500CD041 \<and>
   hw_as_bytes (hw_from_eisa 0x500CD041) = [0x50, 0x4E, 0x50, 0x30, 0x43, 0x35, 0x30]"
proof -
  have "swap_bytes (eisa_pack 16 14 16 0 12 5 0) = 0x500CD041" by code_simp
  with eisa_round_trip [of 16 14 16 0 12 5 0] show ?thesis by (simp add: hex_digit_def)
qed

end
