(* ===== verification/Aml_Skip.thy ===== *)
theory Aml_Skip
  imports Aml_Syntax
begin

text \<open>
  \<open>crates/nanochrono-core/src/aml.rs\<close>, stepping over what is not interpreted: term arguments with
  their nested expressions and method calls, objects and statements.  A skip returns whether it
  succeeded and the position it left.

  \<open>skip_term_arg\<close> calls itself on positions its own progress determines.  It is defined by
  iterating its body on a fuel of one unit per byte of the table, which suffices because every
  nested call starts at a later byte; \<open>skip_term_arg_eq\<close> is the recursive equation of the source.
\<close>

type_synonym skipper = "nat \<Rightarrow> bool \<times> nat"

definition some :: "'a option \<times> nat \<Rightarrow> bool \<times> nat" where
  "some r = (fst r \<noteq> None, snd r)"

text \<open>
  \<open>step && rest\<close>, \<open>let Some(x) = step else { return false }; rest\<close>, and a loop that fails with
  the first failing step.
\<close>

definition and_then :: "bool \<times> nat \<Rightarrow> skipper \<Rightarrow> bool \<times> nat" where
  "and_then r f = (if fst r then f (snd r) else r)"

definition bind_skip :: "'a option \<times> nat \<Rightarrow> ('a \<Rightarrow> skipper) \<Rightarrow> bool \<times> nat" where
  "bind_skip r f = (case r of (None, at) \<Rightarrow> (False, at) | (Some x, at) \<Rightarrow> f x at)"

primrec repeat_skip :: "nat \<Rightarrow> skipper \<Rightarrow> skipper" where
  "repeat_skip 0 f at = (True, at)"
| "repeat_skip (Suc n) f at = and_then (f at) (repeat_skip n f)"

section \<open>Operand counts\<close>

definition arity :: "u8 \<Rightarrow> (nat \<times> bool) option" where
  "arity opcode =
     (if opcode \<in> {op_ADD, op_SUBTRACT, op_MULTIPLY, op_SHIFT_LEFT, op_SHIFT_RIGHT, op_AND, op_NAND,
          op_OR, op_NOR, op_XOR, op_CONCAT, op_INDEX} then Some (2, True)
      else if opcode \<in> {op_LAND, op_LOR, op_LEQUAL, op_LGREATER, op_LLESS} then Some (2, False)
      else if opcode \<in> {op_TO_BUFFER, op_TO_INTEGER, op_TO_HEX_STRING, op_TO_DECIMAL_STRING,
          op_FIND_SET_LEFT_BIT, op_FIND_SET_RIGHT_BIT, op_STORE} then Some (1, True)
      else if opcode \<in> {op_LNOT, op_SIZE_OF, op_DEREF_OF, op_REF_OF, op_INCREMENT, op_DECREMENT}
      then Some (1, False)
      else None)"

definition extended_arity :: "u8 \<Rightarrow> (nat \<times> bool) option" where
  "extended_arity extended =
     (if extended = op_EXT_COND_REF_OF then Some (1, True)
      else if extended = op_EXT_FROM_BCD \<or> extended = op_EXT_TO_BCD then Some (1, True)
      else if extended = op_EXT_ACQUIRE then Some (1, False)
      else if extended = op_EXT_WAIT then Some (2, False)
      else if extended = op_EXT_LOAD_TABLE then Some (6, True)
      else if extended = op_EXT_REVISION \<or> extended = op_EXT_DEBUG \<or> extended = op_EXT_TIMER
      then Some (0, False)
      else None)"

definition TABLE_HEADER :: nat where
  "TABLE_HEADER = 36"

text \<open>
  The scan for a method declaration: the argument count of a believed candidate after the opcode,
  and the loop that collects it.
\<close>

definition method_candidate :: "u8 list \<Rightarrow> nameseg \<Rightarrow> nat \<Rightarrow> u8 option" where
  "method_candidate code leaf at =
     (case cur_package code at of
        (None, _) \<Rightarrow> None
      | (Some package, at1) \<Rightarrow>
          if sp_end package > length code \<or> sp_end package \<le> at1 then None
          else case cur_name code at1 of
              (None, _) \<Rightarrow> None
            | (Some (name, _), at2) \<Rightarrow>
                (case cur_byte code at2 of
                   (None, _) \<Rightarrow> None
                 | (Some flags, at3) \<Rightarrow>
                     if at3 > sp_end package \<or> path_leaf name \<noteq> Some leaf then None
                     else Some (flags AND 0x07)))"

function method_arity_loop :: "u8 list \<Rightarrow> nameseg \<Rightarrow> u8 option \<Rightarrow> nat \<Rightarrow> u8 option" where
  "method_arity_loop code leaf found at =
     (if at < length code then
        (if code ! at \<noteq> op_METHOD then method_arity_loop code leaf found (at + 1)
         else case method_candidate code leaf (at + 1) of
             None \<Rightarrow> method_arity_loop code leaf found (at + 1)
           | Some args \<Rightarrow>
               (case found of
                  None \<Rightarrow> method_arity_loop code leaf (Some args) (at + 1)
                | Some seen \<Rightarrow>
                    if seen = args then method_arity_loop code leaf found (at + 1) else None))
      else found)"
  by pat_completeness auto

termination method_arity_loop
  by (relation "measure (\<lambda>(code, leaf, found, at). length code - at)") auto

declare method_arity_loop.simps [simp del]

definition method_arity :: "u8 list \<Rightarrow> nameseg \<Rightarrow> u8 option" where
  "method_arity code leaf = method_arity_loop code leaf None TABLE_HEADER"

section \<open>Term arguments\<close>

definition skip_data :: "u8 list \<Rightarrow> skipper" where
  "skip_data code at = some (parse_data code at)"

definition skip_target_with :: "skipper \<Rightarrow> u8 list \<Rightarrow> skipper" where
  "skip_target_with skip_arg code at =
     (case cur_peek code at of
        None \<Rightarrow> (False, at)
      | Some b \<Rightarrow> if b = op_ZERO then (True, at + 1)
          else if is_local b \<or> is_arg b then (True, at + 1)
          else skip_arg at)"

definition skip_term_arg_step :: "skipper \<Rightarrow> u8 list \<Rightarrow> skipper" where
  "skip_term_arg_step skip_arg code at =
     (case cur_peek code at of
        None \<Rightarrow> (False, at)
      | Some opcode \<Rightarrow>
          if is_local opcode \<or> is_arg opcode then (True, at + 1)
          else if opcode = op_EXT_PREFIX then
            (case get_at code (at + 1) of
               None \<Rightarrow> (False, at)
             | Some extended \<Rightarrow>
                 (case extended_arity extended of
                    None \<Rightarrow> (False, at)
                  | Some (args, target) \<Rightarrow>
                      and_then (repeat_skip args skip_arg (at + 2)) (\<lambda>at.
                        if extended = op_EXT_ACQUIRE then
                          and_then (some (cur_byte code at)) (\<lambda>at. some (cur_byte code at))
                        else if target then skip_target_with skip_arg code at else (True, at))))
          else
            (case arity opcode of
               Some (args, target) \<Rightarrow>
                 and_then (repeat_skip args skip_arg (at + 1)) (\<lambda>at.
                   if target then skip_target_with skip_arg code at else (True, at))
             | None \<Rightarrow>
                 if is_name_lead opcode then
                   bind_skip (cur_name code at) (\<lambda>name at.
                     let arity = Option.bind (path_leaf (fst name)) (method_arity code)
                     in repeat_skip (case arity of None \<Rightarrow> 0 | Some n \<Rightarrow> unat n) skip_arg at)
                 else skip_data code at))"

primrec skip_term_arg_fuel :: "nat \<Rightarrow> u8 list \<Rightarrow> skipper" where
  "skip_term_arg_fuel 0 code at = (False, at)"
| "skip_term_arg_fuel (Suc n) code at = skip_term_arg_step (skip_term_arg_fuel n code) code at"

definition skip_term_arg :: "u8 list \<Rightarrow> skipper" where
  "skip_term_arg code at = skip_term_arg_fuel (Suc (length code)) code at"

definition skip_target :: "u8 list \<Rightarrow> skipper" where
  "skip_target code at = skip_target_with (skip_term_arg code) code at"

definition skip_region :: "u8 list \<Rightarrow> skipper" where
  "skip_region code at =
     and_then (some (cur_byte code at)) (\<lambda>at.
       and_then (skip_term_arg code at) (skip_term_arg code))"

section \<open>Objects and statements\<close>

abbreviation skip_name :: "u8 list \<Rightarrow> skipper" where
  "skip_name code at \<equiv> some (cur_name code at)"

abbreviation skip_byte :: "u8 list \<Rightarrow> skipper" where
  "skip_byte code at \<equiv> some (cur_byte code at)"

definition skip_package :: "u8 list \<Rightarrow> skipper" where
  "skip_package code at =
     (case cur_package code at of
        (Some package, _) \<Rightarrow> (True, sp_end package)
      | (None, at) \<Rightarrow> (False, at))"

definition skip_object :: "u8 list \<Rightarrow> u8 \<Rightarrow> skipper" where
  "skip_object code opcode at =
     (if opcode \<in> {op_METHOD, op_SCOPE, op_IF, op_ELSE, op_WHILE} then skip_package code at
      else if opcode = op_ALIAS then and_then (skip_name code at) (skip_name code)
      else if opcode = op_EXTERNAL then
        and_then (skip_name code at) (\<lambda>at. and_then (skip_byte code at) (skip_byte code))
      else if opcode \<in> {op_CREATE_DWORD_FIELD, op_CREATE_WORD_FIELD, op_CREATE_BYTE_FIELD,
          op_CREATE_BIT_FIELD, op_CREATE_QWORD_FIELD} then
        and_then (skip_term_arg code at) (\<lambda>at. and_then (skip_term_arg code at) (skip_name code))
      else if opcode = op_NOOP then (True, at)
      else if opcode = op_EXT_PREFIX then
        bind_skip (cur_byte code at) (\<lambda>extended at.
             if extended \<in> {op_EXT_DEVICE, op_EXT_POWER_RES, op_EXT_THERMAL_ZONE, op_EXT_PROCESSOR,
                 op_EXT_FIELD, op_EXT_INDEX_FIELD, op_EXT_BANK_FIELD} then skip_package code at
             else if extended = op_EXT_OP_REGION then and_then (skip_name code at) (skip_region code)
             else if extended = op_EXT_MUTEX then and_then (skip_name code at) (skip_byte code)
             else if extended = op_EXT_EVENT then skip_name code at
             else if extended = op_EXT_CREATE_FIELD then
               and_then (skip_term_arg code at) (\<lambda>at. and_then (skip_term_arg code at) (\<lambda>at.
                 and_then (skip_term_arg code at) (skip_name code)))
             else (False, at))
      else (False, at))"

definition skip_statement :: "u8 list \<Rightarrow> u8 \<Rightarrow> skipper" where
  "skip_statement code opcode at =
     (if opcode \<in> {op_BREAK, op_NOOP, op_CONTINUE} then (True, at)
      else if opcode = op_RETURN then skip_term_arg code at
      else if opcode = op_NOTIFY then and_then (skip_term_arg code at) (skip_term_arg code)
      else if opcode = op_EXT_PREFIX then
        bind_skip (cur_byte code at) (\<lambda>extended at.
             if extended \<in> {op_EXT_STALL, op_EXT_SLEEP, op_EXT_SIGNAL, op_EXT_RESET, op_EXT_RELEASE,
                 op_EXT_UNLOAD} then skip_term_arg code at
             else if extended = op_EXT_LOAD then and_then (skip_term_arg code at) (skip_term_arg code)
             else if extended = op_EXT_FATAL then
               and_then (skip_byte code at) (\<lambda>at.
                 and_then (repeat_skip 4 (skip_byte code) at) (skip_term_arg code))
             else (False, at))
      else
        (case arity opcode of
           None \<Rightarrow> (False, at)
         | Some (args, target) \<Rightarrow>
             and_then (repeat_skip args (skip_term_arg code) at) (\<lambda>at.
               if target then skip_target code at else (True, at))))"

section \<open>Steps stay inside the table\<close>

text \<open>
  A step that keeps the contract, from one position: never back, never past the end.  The
  combinators preserve it.
\<close>

definition keeps :: "u8 list \<Rightarrow> nat \<Rightarrow> 'r \<times> nat \<Rightarrow> bool" where
  "keeps code at r \<longleftrightarrow> at \<le> snd r \<and> (at \<le> length code \<longrightarrow> snd r \<le> length code)"

lemma keeps_refl: "keeps code at (b, at)"
  by (simp add: keeps_def)

lemma keeps_trans: "keeps code at (b, p) \<Longrightarrow> keeps code p r \<Longrightarrow> keeps code at r"
  by (auto simp: keeps_def)

lemma keeps_if:
  "(b \<Longrightarrow> keeps code at x) \<Longrightarrow> (\<not> b \<Longrightarrow> keeps code at y) \<Longrightarrow> keeps code at (if b then x else y)"
  by simp

lemma keeps_case_option:
  "(v = None \<Longrightarrow> keeps code at x) \<Longrightarrow> (\<And>a. v = Some a \<Longrightarrow> keeps code at (f a)) \<Longrightarrow>
     keeps code at (case v of None \<Rightarrow> x | Some a \<Rightarrow> f a)"
  by (cases v) simp_all

lemma keeps_case_prod:
  "(\<And>a b. v = (a, b) \<Longrightarrow> keeps code at (f a b)) \<Longrightarrow> keeps code at (case v of (a, b) \<Rightarrow> f a b)"
  by (cases v) simp_all

lemma keeps_and_then:
  "keeps code at r \<Longrightarrow> (\<And>p. keeps code p (f p)) \<Longrightarrow> keeps code at (and_then r f)"
  by (cases r) (auto simp: and_then_def intro: keeps_trans)

lemma keeps_bind:
  "keeps code at r \<Longrightarrow> (\<And>x p. keeps code p (f x p)) \<Longrightarrow> keeps code at (bind_skip r f)"
  by (cases r) (auto simp: bind_skip_def keeps_def intro: order_trans split: option.splits)

lemma keeps_repeat: "(\<And>p. keeps code p (f p)) \<Longrightarrow> keeps code at (repeat_skip n f at)"
  by (induction n arbitrary: at) (auto intro: keeps_and_then keeps_refl)

lemma keeps_some: "keeps code at r \<Longrightarrow> keeps code at (some r)"
  by (simp add: keeps_def some_def)

lemma keeps_cur_byte: "keeps code at (cur_byte code at)"
  by (simp add: keeps_def byte_step.mono byte_step.inside)

lemma keeps_cur_name: "keeps code at (cur_name code at)"
  by (simp add: keeps_def name_step.mono name_step.inside)

lemma keeps_data: "keeps code at (skip_data code at)"
  unfolding skip_data_def by (rule keeps_some) (simp add: keeps_def data_step.mono data_step.inside)

lemma keeps_package: "keeps code at (skip_package code at)"
  using package_step.mono [of at code] package_step.inside [of at code] cur_package_Some [of code at]
  by (force simp: skip_package_def keeps_def split: option.splits prod.splits)

lemmas keeps_intros =
  keeps_refl keeps_if keeps_case_option keeps_case_prod keeps_and_then keeps_bind keeps_repeat
  keeps_some keeps_cur_byte keeps_cur_name keeps_data keeps_package

lemma cur_peek_less: "cur_peek code at = Some b \<Longrightarrow> at < length code"
  by (simp add: cur_peek_def)

lemma keeps_peeked: "cur_peek code at = Some b \<Longrightarrow> keeps code at (r, at + 1)"
  by (simp add: cur_peek_def keeps_def)

lemma keeps_target:
  "(\<And>p. keeps code p (f p)) \<Longrightarrow> keeps code at (skip_target_with f code at)"
  unfolding skip_target_with_def by (intro keeps_intros keeps_peeked; assumption?)

lemma keeps_step:
  assumes f: "\<And>p. keeps code p (f p)"
  shows "keeps code at (skip_term_arg_step f code at)"
proof (cases "cur_peek code at")
  case None
  then show ?thesis by (simp add: skip_term_arg_step_def keeps_refl)
next
  case (Some opcode)
  have rep: "keeps code p (repeat_skip n f p)" for n p by (rule keeps_repeat [OF f])
  have r1: "keeps code at (repeat_skip n f (at + 1))" for n
    by (rule keeps_trans [OF keeps_peeked [OF Some] rep])
  have r2: "keeps code at (repeat_skip n f (at + 2))" if "get_at code (at + 1) = Some e" for n e
    by (rule keeps_trans [OF _ rep, where b = True]) (use that in \<open>auto simp: keeps_def\<close>)
  show ?thesis
    unfolding skip_term_arg_step_def Some option.case Let_def
    by (intro keeps_if keeps_case_option keeps_case_prod keeps_and_then keeps_bind keeps_refl keeps_some
        keeps_peeked [OF Some] r1 r2 keeps_cur_byte keeps_cur_name keeps_data keeps_target f rep;
        assumption?)
qed

lemma keeps_fuel: "keeps code at (skip_term_arg_fuel n code at)"
  by (induction n arbitrary: at) (auto intro: keeps_step keeps_refl)

lemma keeps_term_arg: "keeps code at (skip_term_arg code at)"
  by (simp add: skip_term_arg_def keeps_fuel del: skip_term_arg_fuel.simps)

lemma keeps_skip_target: "keeps code at (skip_target code at)"
  unfolding skip_target_def by (rule keeps_target) (rule keeps_term_arg)

lemma keeps_region: "keeps code at (skip_region code at)"
  unfolding skip_region_def by (intro keeps_intros keeps_term_arg)

lemma keeps_object: "keeps code at (skip_object code opcode at)"
  unfolding skip_object_def by (intro keeps_intros keeps_term_arg keeps_region)

lemma keeps_statement: "keeps code at (skip_statement code opcode at)"
  unfolding skip_statement_def by (intro keeps_intros keeps_term_arg keeps_skip_target)

section \<open>The recursive equation\<close>

text \<open>
  The body uses its argument only at later positions, so any two skippers that agree there give
  the same result, and one unit of fuel per byte is enough.
\<close>

lemma keepsD: "keeps code at (r, p) \<Longrightarrow> at \<le> p"
  by (simp add: keeps_def)

lemma and_then_cong:
  "r = r' \<Longrightarrow> (\<And>p. r' = (True, p) \<Longrightarrow> f p = g p) \<Longrightarrow> and_then r f = and_then r' g"
  by (cases r') (auto simp: and_then_def)

lemma bind_skip_cong:
  "r = r' \<Longrightarrow> (\<And>x p. r' = (Some x, p) \<Longrightarrow> f x p = g x p) \<Longrightarrow> bind_skip r f = bind_skip r' g"
  by (cases r') (auto simp: bind_skip_def split: option.splits)

lemma repeat_skip_agree:
  assumes "\<And>p. keeps code p (f p)" "\<And>p. at < p \<Longrightarrow> f p = g p" "at < q"
  shows "repeat_skip n f q = repeat_skip n g q"
  using assms(3)
proof (induction n arbitrary: q)
  case 0
  then show ?case by simp
next
  case (Suc n)
  have "repeat_skip n f p = repeat_skip n g p" if "f q = (True, p)" for p
  proof (rule Suc.IH)
    have "keeps code q (True, p)" using assms(1) [of q] that by simp
    with Suc.prems show "at < p" by (simp add: keeps_def)
  qed
  then show ?case using assms(2) [OF Suc.prems] by (auto intro: and_then_cong)
qed

lemma repeat_skip_later:
  assumes "\<And>p. keeps code p (f p)" "repeat_skip n f q = (b, p)"
  shows "q \<le> p"
  using keeps_repeat [of code f q n] assms by (simp add: keeps_def)

lemma skip_target_agree:
  assumes "\<And>p. at < p \<Longrightarrow> f p = g p" "at < q"
  shows "skip_target_with f code q = skip_target_with g code q"
  using assms by (simp add: skip_target_with_def split: option.splits)

lemma skip_step_agree:
  assumes f: "\<And>p. keeps code p (f p)" and agree: "\<And>p. at < p \<Longrightarrow> f p = g p"
  shows "skip_term_arg_step f code at = skip_term_arg_step g code at"
proof -
  have rep: "at < q \<Longrightarrow> repeat_skip n f q = repeat_skip n g q" for n q
    by (rule repeat_skip_agree [OF f agree])
  have target: "skip_target_with f code p = skip_target_with g code p"
    if "repeat_skip n g q = (True, p)" "at < q" for n q p
  proof (rule skip_target_agree [OF agree])
    show "at < p" using repeat_skip_later [OF f, of n q True p] that rep [of q n] by simp
  qed
  have ops: "and_then (repeat_skip n f q) (\<lambda>at. if b then h at else if t then skip_target_with f code at else (True, at)) =
      and_then (repeat_skip n g q) (\<lambda>at. if b then h at else if t then skip_target_with g code at else (True, at))"
    if "at < q" for n q b t h
    by (rule and_then_cong) (use rep target that in auto)
  have ops': "and_then (repeat_skip n f q) (\<lambda>at. if t then skip_target_with f code at else (True, at)) =
      and_then (repeat_skip n g q) (\<lambda>at. if t then skip_target_with g code at else (True, at))"
    if "at < q" for n q t
    using ops [OF that, of n False _ t] by simp
  have name: "bind_skip (cur_name code at) (\<lambda>name at. let arity = Option.bind (path_leaf (fst name)) (method_arity code)
        in repeat_skip (case arity of None \<Rightarrow> 0 | Some n \<Rightarrow> unat n) f at) =
      bind_skip (cur_name code at) (\<lambda>name at. let arity = Option.bind (path_leaf (fst name)) (method_arity code)
        in repeat_skip (case arity of None \<Rightarrow> 0 | Some n \<Rightarrow> unat n) g at)"
  proof (rule bind_skip_cong [OF refl])
    fix x p assume "cur_name code at = (Some x, p)"
    then have "at < p" using name_step.consumes [of code at] by simp
    then show "(let arity = Option.bind (path_leaf (fst x)) (method_arity code)
        in repeat_skip (case arity of None \<Rightarrow> 0 | Some n \<Rightarrow> unat n) f p) =
      (let arity = Option.bind (path_leaf (fst x)) (method_arity code)
        in repeat_skip (case arity of None \<Rightarrow> 0 | Some n \<Rightarrow> unat n) g p)"
      unfolding Let_def by (rule rep)
  qed
  have lt: "at < at + 1" "at < at + 2" by simp_all
  show ?thesis
    unfolding skip_term_arg_step_def name ops' [OF lt(1)]
    using ops [OF lt(2)] by (auto split: option.splits)
qed

lemma fuel_enough:
  "length code - at < n \<Longrightarrow> n \<le> m \<Longrightarrow> skip_term_arg_fuel n code at = skip_term_arg_fuel m code at"
proof (induction n arbitrary: at m)
  case 0
  then show ?case by simp
next
  case (Suc n)
  then obtain k where m: "m = Suc k" "n \<le> k" by (cases m) auto
  show ?case
  proof (cases "at < length code")
    case True
    have "skip_term_arg_fuel n code p = skip_term_arg_fuel k code p" if "at < p" for p
      by (rule Suc.IH) (use Suc.prems True that m in auto)
    then show ?thesis
      unfolding m skip_term_arg_fuel.simps by (intro skip_step_agree keeps_fuel)
  next
    case False
    then have "cur_peek code at = None" by (simp add: cur_peek_def)
    then show ?thesis unfolding m by (simp add: skip_term_arg_step_def)
  qed
qed

lemma skip_term_arg_eq: "skip_term_arg code at = skip_term_arg_step (skip_term_arg code) code at"
proof (cases "at < length code")
  case True
  have "skip_term_arg_fuel (length code) code p = skip_term_arg code p" if "at < p" for p
    unfolding skip_term_arg_def using True that by (intro fuel_enough) auto
  then show ?thesis
    unfolding skip_term_arg_def [of code at] skip_term_arg_fuel.simps
    by (intro skip_step_agree keeps_fuel)
next
  case False
  then have "cur_peek code at = None" by (simp add: cur_peek_def)
  then show ?thesis by (simp add: skip_term_arg_def skip_term_arg_step_def)
qed

lemma keeps_advance: "keeps code (at + 1) r \<Longrightarrow> at < snd r"
  by (simp add: keeps_def)

lemma step_consumes:
  assumes f: "\<And>p. keeps code p (f p)" and ok: "fst (skip_term_arg_step f code at)"
  shows "at < snd (skip_term_arg_step f code at)"
proof -
  have rep: "at < p \<Longrightarrow> at < snd (repeat_skip n f p)" for n p
    using keeps_repeat [of code f p n] f by (auto simp: keeps_def intro: less_le_trans)
  have op: "at < snd (and_then (repeat_skip n f p) h)"
    if "at < p" "\<And>p. keeps code p (h p)" for n p h
    using rep [OF that(1), of n] that(2) by (auto simp: and_then_def keeps_def intro: less_le_trans)
  have tail: "keeps code p (if b then and_then (skip_byte code p) (\<lambda>at. skip_byte code at)
      else if t then skip_target_with f code p else (True, p))" for b t p
    by (intro keeps_if keeps_and_then keeps_some keeps_cur_byte keeps_target keeps_refl f)
  have tail': "keeps code p (if t then skip_target_with f code p else (True, p))" for t p
    by (intro keeps_if keeps_target keeps_refl f)
  have lt: "at < at + 1" "at < at + 2" by simp_all
  have data: "fst (skip_data code at) \<Longrightarrow> at < snd (skip_data code at)"
    using data_step.consumes [of code at] by (simp add: skip_data_def some_def)
  have name: "at < snd (bind_skip (cur_name code at) h)"
    if "fst (bind_skip (cur_name code at) h)" "\<And>x p. keeps code p (h x p)" for h
    using that name_step.consumes [of code at]
    by (cases "cur_name code at") (auto simp: bind_skip_def keeps_def intro: less_le_trans split: option.splits)
  have namek: "keeps code p (repeat_skip n f p)" for n p
    by (rule keeps_repeat [OF f])
  show ?thesis
  proof (cases "cur_peek code at")
    case None
    with ok show ?thesis by (simp add: skip_term_arg_step_def)
  next
    case (Some opcode)
    consider "is_local opcode \<or> is_arg opcode"
      | "\<not> (is_local opcode \<or> is_arg opcode)" "opcode = op_EXT_PREFIX"
      | "\<not> (is_local opcode \<or> is_arg opcode)" "opcode \<noteq> op_EXT_PREFIX" "arity opcode = None"
      | as t where "\<not> (is_local opcode \<or> is_arg opcode)" "opcode \<noteq> op_EXT_PREFIX" "arity opcode = Some (as, t)"
      by (cases "arity opcode") auto
    then show ?thesis
    proof cases
      case 1
      with Some show ?thesis by (simp add: skip_term_arg_step_def)
    next
      case 2
      with Some ok obtain e as t where e: "get_at code (at + 1) = Some e" "extended_arity e = Some (as, t)"
        by (auto simp: skip_term_arg_step_def simp del: get_at_Some_iff split: option.splits)
      show ?thesis
        unfolding skip_term_arg_step_def Some option.case if_not_P [OF 2(1)] if_P [OF 2(2)] e prod.case
        by (rule op [OF lt(2) tail])
    next
      case 3
      show ?thesis
        using ok unfolding skip_term_arg_step_def Some option.case if_not_P [OF 3(1)] if_not_P [OF 3(2)] 3(3)
        by (cases "is_name_lead opcode") (auto intro!: data name namek)
    next
      case 4
      show ?thesis
        unfolding skip_term_arg_step_def Some option.case if_not_P [OF 4(1)] if_not_P [OF 4(2)] 4(3) prod.case
        by (rule op [OF lt(1) tail'])
    qed
  qed
qed

interpretation term_arg_step: consuming_step code "skip_term_arg code" "\<lambda>ok. ok" for code
proof
  fix at
  show "at \<le> snd (skip_term_arg code at)" "at \<le> length code \<Longrightarrow> snd (skip_term_arg code at) \<le> length code"
    using keeps_term_arg [of code at] by (simp_all add: keeps_def)
  show "fst (skip_term_arg code at) \<Longrightarrow> at < snd (skip_term_arg code at)"
    unfolding skip_term_arg_eq [of code at] by (rule step_consumes [OF keeps_term_arg])
qed

interpretation object_step: reading_step code "skip_object code opcode" "\<lambda>ok. ok" for code opcode
  by unfold_locales (use keeps_object in \<open>auto simp: keeps_def\<close>)

interpretation statement_step: reading_step code "skip_statement code opcode" "\<lambda>ok. ok" for code opcode
  by unfold_locales (use keeps_statement in \<open>auto simp: keeps_def\<close>)

section \<open>The arity of a method\<close>

text \<open>The argument counts of all believed declarations of a leaf name at or after a position.\<close>

definition declared_arities :: "u8 list \<Rightarrow> nameseg \<Rightarrow> nat \<Rightarrow> u8 set" where
  "declared_arities code leaf from =
     {a. \<exists>p\<ge>from. p < length code \<and> code ! p = op_METHOD \<and> method_candidate code leaf (p + 1) = Some a}"

lemma declared_arities_step:
  "at < length code \<Longrightarrow> declared_arities code leaf at =
     (if code ! at = op_METHOD then set_option (method_candidate code leaf (at + 1)) else {})
       \<union> declared_arities code leaf (at + 1)"
proof -
  assume at: "at < length code"
  have "at \<le> p \<longleftrightarrow> p = at \<or> at + 1 \<le> p" for p by auto
  then show ?thesis using at unfolding declared_arities_def by (cases "method_candidate code leaf (at + 1)") auto
qed

lemma declared_arities_end: "length code \<le> at \<Longrightarrow> declared_arities code leaf at = {}"
  by (auto simp: declared_arities_def)

lemma method_arity_loop_spec:
  "method_arity_loop code leaf found at = Some a \<longleftrightarrow>
     set_option found \<union> declared_arities code leaf at = {a}"
proof (induction "length code - at" arbitrary: at found)
  case 0
  then show ?case
    by (subst method_arity_loop.simps) (auto simp: declared_arities_end)
next
  case (Suc n)
  then have at: "at < length code" and n: "n = length code - (at + 1)" by simp_all
  note IH = Suc.hyps(1) [OF n]
  show ?case
  proof (cases "if code ! at = op_METHOD then method_candidate code leaf (at + 1) else None")
    case None
    then show ?thesis
      using at IH [of found] by (subst method_arity_loop.simps) (auto simp: declared_arities_step split: if_splits)
  next
    case (Some args)
    then have m: "code ! at = op_METHOD" "method_candidate code leaf (at + 1) = Some args"
      by (auto split: if_splits)
    show ?thesis
    proof (cases found)
      case None
      then show ?thesis
        using at m IH [of "Some args"] by (subst method_arity_loop.simps) (simp add: declared_arities_step)
    next
      fix seen assume seen: "found = Some seen"
      have u: "method_arity_loop code leaf found at =
          (if seen = args then method_arity_loop code leaf found (at + 1) else None)"
        using at m seen by (subst method_arity_loop.simps) simp
      have "set_option found \<union> declared_arities code leaf at =
          {seen, args} \<union> declared_arities code leaf (at + 1)"
        using at m seen by (simp add: declared_arities_step insert_commute)
      then show ?thesis
        using IH [of found] seen unfolding u by (cases "seen = args") auto
    qed
  qed
qed

section \<open>Properties\<close>

text \<open>
  The argument count assumed of a method is the only one its declarations allow: an answer is given
  exactly when the believable declarations of the leaf name behind the table header all agree on it, and
  then it is theirs; one contradicting declaration anywhere in the table withdraws the answer.
\<close>

theorem method_arity_unambiguous:
  "method_arity code leaf = Some a \<longleftrightarrow> declared_arities code leaf TABLE_HEADER = {a}"
  using method_arity_loop_spec [of code leaf None TABLE_HEADER a] by (simp add: method_arity_def)

end
