(* ===== verification/Visiting.thy ===== *)
theory Visiting
  imports NC_Prelude
begin

text \<open>
  The walks of the program that call a visitor: the devices of an ACPI table, the buffers a device
  declares, the functions of the PCI buses.  In the sources the visitor is a closure that returns
  whether to go on; here it is a function over a state of the caller's.

  \<open>visiting\<close> is the contract a client of such a walk relies on, \<open>searching\<close> what a search for the
  first match gets from it.
\<close>

text \<open>The first answer, as \<open>Iterator::find_map\<close> gives it.\<close>

fun find_map :: "('a \<Rightarrow> 'b option) \<Rightarrow> 'a list \<Rightarrow> 'b option" where
  "find_map f [] = None"
| "find_map f (x # xs) = (case f x of Some y \<Rightarrow> Some y | None \<Rightarrow> find_map f xs)"

lemma find_map_Some: "find_map f xs = Some y \<Longrightarrow> \<exists>x\<in>set xs. f x = Some y"
  by (induction xs) (auto split: option.splits)

lemma find_map_None: "find_map f xs = None \<longleftrightarrow> (\<forall>x\<in>set xs. f x = None)"
  by (induction xs) (auto split: option.splits)

text \<open>A walk over a list with a visitor that may end it.\<close>

fun visit_list :: "('d \<Rightarrow> 's \<Rightarrow> bool \<times> 's) \<Rightarrow> 'd list \<Rightarrow> 's \<Rightarrow> bool \<times> 's" where
  "visit_list visit [] s = (True, s)"
| "visit_list visit (d # ds) s = (case visit d s of (go, s') \<Rightarrow> if go then visit_list visit ds s' else (False, s'))"

lemma visit_list_append:
  "visit_list visit (xs @ ys) s =
     (case visit_list visit xs s of (go, s') \<Rightarrow> if go then visit_list visit ys s' else (False, s'))"
  by (induction xs arbitrary: s) (auto split: prod.splits)

text \<open>
  What a client of a walk with an early end relies on: the walk gives the visitor the items of a fixed
  list in order, until it asks to stop.
\<close>

locale visiting =
  fixes visit_all :: "('d \<Rightarrow> 's \<Rightarrow> bool \<times> 's) \<Rightarrow> 's \<Rightarrow> 's" and items :: "'d list"
  assumes visits: "visit_all visit s = snd (visit_list visit items s)"
begin

lemma keeps_invariant:
  assumes "\<And>d s. d \<in> set items \<Longrightarrow> I s \<Longrightarrow> I (snd (visit d s))" "I s"
  shows "I (visit_all visit s)"
proof -
  have "I s \<Longrightarrow> set ds \<subseteq> set items \<Longrightarrow> I (snd (visit_list visit ds s))" for ds s
  proof (induction ds arbitrary: s)
    case (Cons d ds)
    then have "I (snd (visit d s))" using assms(1) by simp
    with Cons show ?case by (cases "visit d s") auto
  qed simp
  then show ?thesis using assms(2) visits by simp
qed

lemma visits_everything:
  assumes "\<And>d s. fst (visit d s)"
  shows "visit_all visit s = fold (\<lambda>d s. snd (visit d s)) items s"
proof -
  have "visit_list visit ds s = (True, fold (\<lambda>d s. snd (visit d s)) ds s)" for ds s
  proof (induction ds arbitrary: s)
    case (Cons d ds)
    then show ?case using assms [of d s] by (cases "visit d s") simp
  qed simp
  then show ?thesis by (simp add: visits)
qed

text \<open>A visitor that stops exactly when its state goes bad, and whose states stay bad, sees everything in effect.\<close>

lemma stops_when_bad:
  assumes "\<And>d s. fst (visit d s) \<longleftrightarrow> \<not> bad (snd (visit d s))" "\<And>d s. bad s \<Longrightarrow> bad (snd (visit d s))"
  shows "\<not> bad (visit_all visit s) \<Longrightarrow> visit_all visit s = fold (\<lambda>d s. snd (visit d s)) items s"
    and "bad (visit_all visit s) \<Longrightarrow> bad (fold (\<lambda>d s. snd (visit d s)) items s)"
proof -
  have stays: "bad s \<Longrightarrow> bad (fold (\<lambda>d s. snd (visit d s)) ds s)" for ds s
    by (induction ds arbitrary: s) (auto intro: assms(2))
  have "(bad (snd (visit_list visit ds s)) \<longrightarrow> bad (fold (\<lambda>d s. snd (visit d s)) ds s)) \<and>
      (\<not> bad (snd (visit_list visit ds s)) \<longrightarrow> snd (visit_list visit ds s) = fold (\<lambda>d s. snd (visit d s)) ds s)" for ds s
  proof (induction ds arbitrary: s)
    case (Cons d ds)
    obtain go s' where v: "visit d s = (go, s')" by fastforce
    then have "go \<longleftrightarrow> \<not> bad s'" using assms(1) [of d s] by simp
    with Cons [of s'] stays [of s' ds] show ?case by (cases "bad s'") (simp_all add: v)
  qed simp
  then show "\<not> bad (visit_all visit s) \<Longrightarrow> visit_all visit s = fold (\<lambda>d s. snd (visit d s)) items s"
    and "bad (visit_all visit s) \<Longrightarrow> bad (fold (\<lambda>d s. snd (visit d s)) items s)"
    unfolding visits by blast+
qed

end

text \<open>A search remembers the first match and stops at it.\<close>

locale searching = visiting visit_all items
  for visit_all :: "('d \<Rightarrow> 'd option \<Rightarrow> bool \<times> 'd option) \<Rightarrow> 'd option \<Rightarrow> 'd option" and items
begin

lemma finds_first:
  "visit_all (\<lambda>d hit. if wanted d then (False, Some d) else (True, hit)) None = find wanted items"
proof -
  have "snd (visit_list (\<lambda>d hit. if wanted d then (False, Some d) else (True, hit)) ds None) = find wanted ds" for ds
    by (induction ds) simp_all
  then show ?thesis by (simp add: visits)
qed

end

end
