(* ===== verification/Aml_Namespace.thy ===== *)
theory Aml_Namespace
  imports Aml_Skip Visiting "HOL-Library.Monad_Syntax"
begin

text \<open>
  \<open>crates/nanochrono-core/src/aml.rs\<close>, the namespace: the table wrapper, the walk over scopes and
  devices, and the lookup of a device's identifiers and members.  The visitor of the walk is a
  function over a state of the caller's; it returns whether to go on.

  The walk and the lookups are total: the position they continue from only grows.  The lemmas show
  that the walk restores its scope, that every device it reports lies inside the table, and that
  stopping early is the same as listing all devices and looking at a prefix of the list.
\<close>

section \<open>Tables and devices\<close>

record acpi_device =
  dev_path :: path
  dev_hid :: "hardware_id option"
  dev_cid :: "hardware_id option"
  dev_body :: span

definition device_is :: "acpi_device \<Rightarrow> u8 list \<Rightarrow> bool" where
  "device_is d name \<longleftrightarrow>
     (case dev_hid d of None \<Rightarrow> False | Some h \<Rightarrow> hw_matches h name) \<or>
     (case dev_cid d of None \<Rightarrow> False | Some h \<Rightarrow> hw_matches h name)"

text \<open>A namespace is the bytecode of its table, up to the declared length.\<close>

definition namespace_new :: "u8 list \<Rightarrow> u8 list option" where
  "namespace_new table =
     (if length table < TABLE_HEADER then None
      else (let declared = unat (le_word (take 4 (drop 4 table)) :: u32)
            in if declared < TABLE_HEADER \<or> declared > length table then None
               else Some (take declared table)))"

text \<open>A read or a skip whose failure ends the function, whatever the position.\<close>

definition got :: "'a option \<times> nat \<Rightarrow> ('a \<times> nat) option" where
  "got r = (case r of (None, _) \<Rightarrow> None | (Some x, at) \<Rightarrow> Some (x, at))"

definition went :: "bool \<times> nat \<Rightarrow> nat option" where
  "went r = (if fst r then Some (snd r) else None)"

lemma got_Some [simp]: "got r = Some (x, at) \<longleftrightarrow> r = (Some x, at)"
  by (auto simp: got_def split: option.splits prod.splits)

lemma went_Some [simp]: "went r = Some at \<longleftrightarrow> r = (True, at)"
  by (cases r) (auto simp: went_def)

lemma got_byte: "got (cur_byte code at) = Some (b, at') \<Longrightarrow> at < at' \<and> at < length code"
  by (simp add: cur_byte_Some)

lemma got_name: "got (cur_name code at) = Some (r, at') \<Longrightarrow> at < at'"
  using name_step.consumes [of code at] by simp

lemma got_data: "got (parse_data code at) = Some (r, at') \<Longrightarrow> at < at'"
  using data_step.consumes [of code at] by simp

lemma got_package: "got (cur_package code at) = Some (sp, at') \<Longrightarrow> at < at' \<and> at' \<le> sp_end sp \<and> sp_end sp \<le> length code"
  using cur_package_Some [of code at sp at'] by simp

lemma went_object: "went (skip_object code opcode at) = Some at' \<Longrightarrow> at \<le> at'"
  using object_step.mono [of at code opcode] by simp

lemma went_data: "went (skip_data code at) = Some at' \<Longrightarrow> at < at'"
  using data_step.consumes [of code at] by (simp add: skip_data_def some_def)

lemmas progress = got_byte got_name got_data got_package went_object went_data

section \<open>Identifiers\<close>

function name_value_loop :: "u8 list \<Rightarrow> nameseg \<Rightarrow> nat \<Rightarrow> nat \<Rightarrow> aml_value option" where
  "name_value_loop code want e at =
     (if at < e then
        do {
          (opcode, at1) \<leftarrow> got (cur_byte code at);
          if opcode = op_NAME then
            do {
              (name, at2) \<leftarrow> got (cur_name code at1);
              (value, at3) \<leftarrow> got (parse_data code at2);
              if path_leaf (fst name) = Some want then Some value
              else name_value_loop code want e at3
            }
          else
            do {
              at2 \<leftarrow> went (skip_object code opcode at1);
              name_value_loop code want e at2
            }
        }
      else None)"
  by pat_completeness auto

termination name_value_loop
  by (relation "measure (\<lambda>(code, want, e, at). e - at)") (auto simp del: got_Some went_Some dest!: progress)

declare name_value_loop.simps [simp del]

definition name_value :: "u8 list \<Rightarrow> span \<Rightarrow> nameseg \<Rightarrow> aml_value option" where
  "name_value code body want = name_value_loop code want (sp_end body) (sp_start body)"

definition device_identifier :: "u8 list \<Rightarrow> span \<Rightarrow> nameseg \<Rightarrow> hardware_id option" where
  "device_identifier code body want =
     do {
       value \<leftarrow> name_value code body want;
       case value of
         Integer compressed \<Rightarrow> Some (hw_from_eisa (ucast compressed))
       | Text sp \<Rightarrow> do { bytes \<leftarrow> span_of sp code; Some (hw_from_text bytes) }
       | Package sp \<Rightarrow>
           do {
             (_, at) \<leftarrow> got (cur_byte code (sp_start sp));
             (first, _) \<leftarrow> got (parse_data code at);
             case first of
               Integer compressed \<Rightarrow> Some (hw_from_eisa (ucast compressed))
             | Text txt \<Rightarrow> do { bytes \<leftarrow> span_of txt code; Some (hw_from_text bytes) }
             | _ \<Rightarrow> None
           }
       | _ \<Rightarrow> None
     }"

definition seg_HID :: nameseg where "seg_HID = [0x5F, 0x48, 0x49, 0x44]"
definition seg_CID :: nameseg where "seg_CID = [0x5F, 0x43, 0x49, 0x44]"

definition describe :: "u8 list \<Rightarrow> path \<Rightarrow> span \<Rightarrow> acpi_device" where
  "describe code p body =
     \<lparr>dev_path = p, dev_hid = device_identifier code body seg_HID, dev_cid = device_identifier code body seg_CID,
      dev_body = body\<rparr>"

section \<open>Members\<close>

datatype member = MemberName nat | MemberMethod span nat

function member_at_level_loop :: "u8 list \<Rightarrow> nameseg \<Rightarrow> nat \<Rightarrow> nat \<Rightarrow> member option" where
  "member_at_level_loop code want e at =
     (if at < e then
        do {
          (opcode, at1) \<leftarrow> got (cur_byte code at);
          if opcode = op_NAME then
            do {
              (name, start) \<leftarrow> got (cur_name code at1);
              at2 \<leftarrow> went (skip_data code start);
              if path_leaf (fst name) = Some want then Some (MemberName start)
              else member_at_level_loop code want e at2
            }
          else if opcode = op_METHOD then
            do {
              (package, at2) \<leftarrow> got (cur_package code at1);
              (name, at3) \<leftarrow> got (cur_name code at2);
              (flags, at4) \<leftarrow> got (cur_byte code at3);
              if path_leaf (fst name) = Some want
              then Some (MemberMethod (span_new at4 (sp_end package)) (unat (flags AND 0x07)))
              else member_at_level_loop code want e (sp_end package)
            }
          else
            do {
              at2 \<leftarrow> went (skip_object code opcode at1);
              member_at_level_loop code want e at2
            }
        }
      else None)"
  by pat_completeness auto

termination member_at_level_loop
  by (relation "measure (\<lambda>(code, want, e, at). e - at)")
    (auto simp del: got_Some went_Some dest!: progress)

declare member_at_level_loop.simps [simp del]

definition member_at_level :: "u8 list \<Rightarrow> nameseg \<Rightarrow> span \<Rightarrow> member option" where
  "member_at_level code want sp = member_at_level_loop code want (sp_end sp) (sp_start sp)"

text \<open>
  The search below one term list.  \<open>deeper\<close> is the search one level down.  When \<open>skip_object\<close>
  refuses, \<open>skip_statement\<close> is tried at the position the refusal left.
\<close>

function member_in_conditionals ::
  "(span \<Rightarrow> (member \<times> bool) option) \<Rightarrow> u8 list \<Rightarrow> nat \<Rightarrow> nat \<Rightarrow> (member \<times> bool) option" where
  "member_in_conditionals deeper code e at =
     (if at < e then
        do {
          (opcode, at1) \<leftarrow> got (cur_byte code at);
          if opcode = op_IF \<or> opcode = op_ELSE then
            do {
              (package, at2) \<leftarrow> got (cur_package code at1);
              let probe = (if opcode = op_IF then skip_term_arg code at2 else (True, at2));
              if \<not> fst probe \<or> (opcode = op_IF \<and> snd probe > sp_end package)
              then member_in_conditionals deeper code e (sp_end package)
              else case deeper (span_new (snd probe) (sp_end package)) of
                  Some (m, _) \<Rightarrow> Some (m, True)
                | None \<Rightarrow> member_in_conditionals deeper code e (sp_end package)
            }
          else if opcode = op_NAME then
            do {
              (_, at2) \<leftarrow> got (cur_name code at1);
              at3 \<leftarrow> went (skip_data code at2);
              member_in_conditionals deeper code e at3
            }
          else
            (case skip_object code opcode at1 of
               (True, at2) \<Rightarrow> member_in_conditionals deeper code e at2
             | (False, at2) \<Rightarrow>
                 (case skip_statement code opcode at2 of
                    (True, at3) \<Rightarrow> member_in_conditionals deeper code e at3
                  | (False, _) \<Rightarrow> None))
        }
      else None)"
  by pat_completeness auto

lemma object_position: "skip_object code opcode at = (b, at') \<Longrightarrow> at \<le> at'"
  using object_step.mono [of at code opcode] by simp

lemma statement_position: "skip_statement code opcode at = (b, at') \<Longrightarrow> at \<le> at'"
  using statement_step.mono [of at code opcode] by simp

lemma opened_package:
  assumes "at < e" "got (cur_byte code at) = Some (b, p)" "got (cur_package code p) = Some (sp, q)"
  shows "e - sp_end sp < e - at"
  using progress(1) [OF assms(2)] progress(4) [OF assms(3)] assms(1) by linarith

termination member_in_conditionals
  by (relation "measure (\<lambda>(deeper, code, e, at). e - at)", simp_all only: in_measure prod.case wf_measure)
    (hypsubst, (erule (2) opened_package
      | (drule progress object_position [OF sym] statement_position [OF sym])+, linarith))+

declare member_in_conditionals.simps [simp del]

primrec find_member :: "nat \<Rightarrow> u8 list \<Rightarrow> nameseg \<Rightarrow> span \<Rightarrow> (member \<times> bool) option" where
  "find_member 0 code want sp = map_option (\<lambda>m. (m, False)) (member_at_level code want sp)"
| "find_member (Suc depth) code want sp =
     (case member_at_level code want sp of
        Some m \<Rightarrow> Some (m, False)
      | None \<Rightarrow> member_in_conditionals (find_member depth code want) code (sp_end sp) (sp_start sp))"

definition CONDITIONAL_DEPTH :: nat where
  "CONDITIONAL_DEPTH = 4"

definition member_conditional :: "u8 list \<Rightarrow> acpi_device \<Rightarrow> nameseg \<Rightarrow> (member \<times> bool) option" where
  "member_conditional code d want = find_member CONDITIONAL_DEPTH code want (dev_body d)"

definition find_device_member :: "u8 list \<Rightarrow> acpi_device \<Rightarrow> nameseg \<Rightarrow> member option" where
  "find_device_member code d want = map_option fst (member_conditional code d want)"

section \<open>The walk\<close>

text \<open>
  What the walk does with one opcode: end this term list, go on at a position, open a scope or a
  device (with the name, the start of its object list and its end), or open a conditional, whose
  body is walked in the same scope.
\<close>

datatype walk_action =
    WalkStop
  | WalkNext nat
  | WalkOpen bool path bool nat nat
  | WalkInside nat nat

definition walk_next :: "bool \<times> nat \<Rightarrow> walk_action" where
  "walk_next r = (if fst r then WalkNext (snd r) else WalkStop)"

definition walk_extended :: "u8 list \<Rightarrow> u8 \<Rightarrow> nat \<Rightarrow> walk_action" where
  "walk_extended code extended at =
     (if extended \<in> {op_EXT_DEVICE, op_EXT_POWER_RES, op_EXT_THERMAL_ZONE, op_EXT_PROCESSOR} then
        (case cur_package code at of
           (None, _) \<Rightarrow> WalkStop
         | (Some body, at1) \<Rightarrow>
             (case cur_name code at1 of
                (None, _) \<Rightarrow> WalkStop
              | (Some (name, absolute), at2) \<Rightarrow>
                  (let inner = (if extended = op_EXT_POWER_RES then at2 + 3
                                else if extended = op_EXT_PROCESSOR then at2 + 6 else at2)
                   in if inner > sp_end body then WalkStop
                      else WalkOpen (extended = op_EXT_DEVICE) name absolute inner (sp_end body))))
      else if extended = op_EXT_OP_REGION then walk_next (and_then (skip_name code at) (skip_region code))
      else if extended \<in> {op_EXT_FIELD, op_EXT_INDEX_FIELD, op_EXT_BANK_FIELD} then
        walk_next (skip_package code at)
      else if extended = op_EXT_MUTEX then walk_next (and_then (skip_name code at) (skip_byte code))
      else if extended = op_EXT_EVENT then walk_next (skip_name code at)
      else if extended = op_EXT_CREATE_FIELD then
        walk_next (and_then (skip_term_arg code at) (\<lambda>at. and_then (skip_term_arg code at) (\<lambda>at.
          and_then (skip_term_arg code at) (skip_name code))))
      else WalkStop)"

definition walk_action :: "u8 list \<Rightarrow> u8 \<Rightarrow> nat \<Rightarrow> walk_action" where
  "walk_action code opcode at =
     (if opcode = op_SCOPE then
        (case cur_package code at of
           (None, _) \<Rightarrow> WalkStop
         | (Some body, at1) \<Rightarrow>
             (case cur_name code at1 of
                (None, _) \<Rightarrow> WalkStop
              | (Some (name, absolute), at2) \<Rightarrow> WalkOpen False name absolute at2 (sp_end body)))
      else if opcode = op_EXT_PREFIX then
        (case cur_byte code at of
           (None, _) \<Rightarrow> WalkStop
         | (Some extended, at1) \<Rightarrow> walk_extended code extended at1)
      else if opcode = op_METHOD then walk_next (skip_package code at)
      else if opcode = op_NAME then walk_next (and_then (skip_name code at) (skip_data code))
      else if opcode = op_ALIAS then walk_next (and_then (skip_name code at) (skip_name code))
      else if opcode = op_EXTERNAL then
        walk_next (and_then (skip_name code at) (\<lambda>at. and_then (skip_byte code at) (skip_byte code)))
      else if opcode \<in> {op_CREATE_DWORD_FIELD, op_CREATE_WORD_FIELD, op_CREATE_BYTE_FIELD,
          op_CREATE_BIT_FIELD, op_CREATE_QWORD_FIELD} then
        walk_next (and_then (skip_term_arg code at) (\<lambda>at.
          and_then (skip_term_arg code at) (skip_name code)))
      else if opcode = op_IF \<or> opcode = op_ELSE \<or> opcode = op_WHILE then
        (case cur_package code at of
           (None, _) \<Rightarrow> WalkStop
         | (Some package, at1) \<Rightarrow>
             if opcode = op_ELSE then WalkInside at1 (sp_end package)
             else (case skip_term_arg code at1 of (ok, probe) \<Rightarrow>
               if \<not> ok \<or> probe > sp_end package then WalkNext (sp_end package)
               else WalkInside probe (sp_end package)))
      else if opcode = op_NOOP then WalkNext at
      else walk_next (skip_statement code opcode at))"

lemma keeps_walk_next: "keeps code at r \<Longrightarrow> walk_next r = WalkNext p \<Longrightarrow> at \<le> p \<and> (at \<le> length code \<longrightarrow> p \<le> length code)"
  by (auto simp: walk_next_def keeps_def split: if_splits)

lemma walk_next_simps [simp]:
  "walk_next r \<noteq> WalkOpen b n a i e" "walk_next r \<noteq> WalkInside i e"
  by (simp_all add: walk_next_def)

lemma walk_extended_next:
  "walk_extended code extended at = WalkNext p \<Longrightarrow> at \<le> p \<and> (at \<le> length code \<longrightarrow> p \<le> length code)"
  unfolding walk_extended_def
  by (auto simp: Let_def split: if_splits option.splits prod.splits
      elim!: keeps_walk_next [rotated] intro!: keeps_intros keeps_term_arg keeps_region)

lemma open_positions:
  "cur_package code at = (Some body, at1) \<Longrightarrow> cur_name code at1 = (Some n, at2) \<Longrightarrow>
     at < at2 \<and> at < sp_end body \<and> sp_end body \<le> length code"
  using cur_package_Some [of code at body at1] name_step.consumes [of code at1] by simp

lemma walk_extended_open:
  "walk_extended code extended at = WalkOpen d name absolute inner e \<Longrightarrow>
     at < inner \<and> inner \<le> e \<and> e \<le> length code"
  unfolding walk_extended_def
  by (auto simp: Let_def split: if_splits option.splits prod.splits dest: open_positions)

lemma walk_extended_inside [simp]: "walk_extended code extended at \<noteq> WalkInside i e"
  unfolding walk_extended_def by (auto simp: Let_def split: option.splits prod.splits)

lemma walk_action_next:
  assumes "walk_action code opcode at = WalkNext p"
  shows "at \<le> p \<and> (at \<le> length code \<longrightarrow> p \<le> length code)"
proof -
  have nx: "walk_next r = WalkNext p \<Longrightarrow> keeps code at r \<Longrightarrow> ?thesis" for r
    by (rule keeps_walk_next)
  have ext: "walk_extended code extended at1 = WalkNext p \<Longrightarrow> cur_byte code at = (Some extended, at1) \<Longrightarrow> ?thesis"
    for extended at1
    using walk_extended_next [of code extended at1 p] by (auto simp: cur_byte_Some)
  have pk: "cur_package code at = (Some package, at1) \<Longrightarrow> at \<le> sp_end package \<and> sp_end package \<le> length code"
    for package at1
    using cur_package_Some [of code at package at1] by simp
  from assms show ?thesis
    unfolding walk_action_def
    by (auto split: if_splits option.splits prod.splits dest: pk ext
        elim!: nx intro!: keeps_intros keeps_term_arg keeps_statement)
qed

lemma walk_action_open:
  assumes "walk_action code opcode at = WalkOpen d name absolute inner e"
  shows "at < inner \<and> at < e \<and> e \<le> length code \<and> (d \<longrightarrow> inner \<le> e)"
proof -
  have ext: "walk_extended code extended at1 = WalkOpen d name absolute inner e \<Longrightarrow>
      cur_byte code at = (Some extended, at1) \<Longrightarrow> ?thesis" for extended at1
    using walk_extended_open [of code extended at1] by (auto simp: cur_byte_Some)
  from assms show ?thesis
    unfolding walk_action_def
    by (auto split: if_splits option.splits prod.splits dest: open_positions ext)
qed

lemma walk_action_inside:
  assumes "walk_action code opcode at = WalkInside inner e"
  shows "at < inner \<and> inner \<le> e \<and> e \<le> length code"
proof -
  have pk: "cur_package code at = (Some package, at1) \<Longrightarrow> at < at1 \<and> at1 \<le> sp_end package \<and> sp_end package \<le> length code"
    for package at1
    using cur_package_Some [of code at package at1] by simp
  have arg: "skip_term_arg code at1 = (b, p) \<Longrightarrow> at1 \<le> p" for at1 p b
    using term_arg_step.mono [of at1 code] by simp
  from assms show ?thesis
    unfolding walk_action_def
    by (auto split: if_splits option.splits prod.splits dest!: pk arg)
qed

text \<open>The segments of a name pushed on the scope, and whether all of them fitted.\<close>

fun push_all :: "nameseg list \<Rightarrow> path \<Rightarrow> bool \<times> path" where
  "push_all [] p = (True, p)"
| "push_all (seg # segs) p =
     (case path_push seg p of (ok, p') \<Rightarrow> case push_all segs p' of (oks, p'') \<Rightarrow> (ok \<and> oks, p''))"

function pop_to :: "nat \<Rightarrow> path \<Rightarrow> path" where
  "pop_to depth p = (if path_len p > depth then pop_to depth (path_pop p) else p)"
  by pat_completeness auto

termination pop_to
  by (relation "measure (\<lambda>(depth, p). path_len p)") (auto simp: path_pop_def)

declare pop_to.simps [simp del]

text \<open>An absolute name replaces the scope, and the scope is put back at the end of the object.\<close>

definition scope_base :: "bool \<Rightarrow> path \<Rightarrow> path" where
  "scope_base absolute scope = (if absolute then path_root else scope)"

definition scope_restore :: "bool \<Rightarrow> path \<Rightarrow> path \<Rightarrow> path" where
  "scope_restore absolute saved inner =
     (if absolute then saved else pop_to (path_len (scope_base absolute saved)) inner)"

function walk ::
  "(acpi_device \<Rightarrow> 's \<Rightarrow> bool \<times> 's) \<Rightarrow> u8 list \<Rightarrow> nat \<Rightarrow> nat \<Rightarrow> path \<Rightarrow> 's \<Rightarrow> bool \<times> path \<times> 's" where
  "walk visit code at e scope s =
     (if at < e then
        (case cur_byte code at of
           (None, _) \<Rightarrow> (True, scope, s)
         | (Some opcode, at1) \<Rightarrow>
             (case walk_action code opcode at1 of
                WalkStop \<Rightarrow> (True, scope, s)
              | WalkNext p \<Rightarrow> walk visit code p e scope s
              | WalkInside inner pend \<Rightarrow>
                  (case walk visit code inner pend scope s of
                     (False, scope1, s1) \<Rightarrow> (False, scope1, s1)
                   | (True, scope1, s1) \<Rightarrow> walk visit code pend e scope1 s1)
              | WalkOpen is_dev name absolute inner pend \<Rightarrow>
                  (let (nameable, scope1) = push_all (path_segments name) (scope_base absolute scope);
                       (go, s1) = (if is_dev \<and> nameable
                                   then visit (describe code scope1 (span_new inner pend)) s else (True, s))
                   in if \<not> go then (False, scope1, s1)
                      else (case walk visit code inner pend scope1 s1 of
                          (False, scope2, s2) \<Rightarrow> (False, scope2, s2)
                        | (True, scope2, s2) \<Rightarrow>
                            walk visit code pend e (scope_restore absolute scope scope2) s2))))
      else (True, scope, s))"
  by pat_completeness auto

lemma walk_descends:
  assumes "cur_byte code at = (Some opcode, at1)"
  shows "walk_action code opcode at1 = WalkNext p \<Longrightarrow> length code - p < length code - at"
    and "walk_action code opcode at1 = WalkInside i e \<Longrightarrow> length code - i < length code - at"
    and "walk_action code opcode at1 = WalkInside i e \<Longrightarrow> length code - e < length code - at"
    and "walk_action code opcode at1 = WalkOpen d n a i e \<Longrightarrow> length code - i < length code - at"
    and "walk_action code opcode at1 = WalkOpen d n a i e \<Longrightarrow> length code - e < length code - at"
  using assms walk_action_next [of code opcode at1 p] walk_action_inside [of code opcode at1 i e]
    walk_action_open [of code opcode at1 d n a i e]
  by (auto simp: cur_byte_Some)

termination walk
  by (relation "measure (\<lambda>(visit, code, at, e, scope, s). length code - at)",
      simp_all only: in_measure prod.case wf_measure)
    (hypsubst?, (simp only: prod.case)?, erule (1) walk_descends [OF sym])+

declare walk.simps [simp del]

section \<open>Searches\<close>

definition for_each_device :: "(acpi_device \<Rightarrow> 's \<Rightarrow> bool \<times> 's) \<Rightarrow> u8 list \<Rightarrow> 's \<Rightarrow> 's" where
  "for_each_device visit code s = snd (snd (walk visit code TABLE_HEADER (length code) path_root s))"

definition find_device :: "(acpi_device \<Rightarrow> bool) \<Rightarrow> u8 list \<Rightarrow> acpi_device option" where
  "find_device wanted code =
     for_each_device (\<lambda>d found.
       let found = (if found = None \<and> wanted d then Some d else found) in (found = None, found)) code None"

text \<open>All devices of a table, in the order of the walk.\<close>

definition all_devices :: "u8 list \<Rightarrow> acpi_device list" where
  "all_devices code = for_each_device (\<lambda>d ds. (True, ds @ [d])) code []"

section \<open>The walk as a list\<close>

text \<open>The devices of a term list in order, and the scope it leaves.\<close>

function devices_in :: "u8 list \<Rightarrow> nat \<Rightarrow> nat \<Rightarrow> path \<Rightarrow> acpi_device list \<times> path" where
  "devices_in code at e scope =
     (if at < e then
        (case cur_byte code at of
           (None, _) \<Rightarrow> ([], scope)
         | (Some opcode, at1) \<Rightarrow>
             (case walk_action code opcode at1 of
                WalkStop \<Rightarrow> ([], scope)
              | WalkNext p \<Rightarrow> devices_in code p e scope
              | WalkInside inner pend \<Rightarrow>
                  (case devices_in code inner pend scope of
                     (ds1, scope1) \<Rightarrow>
                       (case devices_in code pend e scope1 of (ds2, scope2) \<Rightarrow> (ds1 @ ds2, scope2)))
              | WalkOpen is_dev name absolute inner pend \<Rightarrow>
                  (let (nameable, scope1) = push_all (path_segments name) (scope_base absolute scope);
                       own = (if is_dev \<and> nameable then [describe code scope1 (span_new inner pend)] else [])
                   in case devices_in code inner pend scope1 of
                       (ds1, scope2) \<Rightarrow>
                         (case devices_in code pend e (scope_restore absolute scope scope2) of
                            (ds2, scope3) \<Rightarrow> (own @ ds1 @ ds2, scope3)))))
      else ([], scope))"
  by pat_completeness auto

termination devices_in
  by (relation "measure (\<lambda>(code, at, e, scope). length code - at)",
      simp_all only: in_measure prod.case wf_measure)
    (hypsubst?, (simp only: prod.case)?, erule (1) walk_descends [OF sym])+

declare devices_in.simps [simp del]

definition agrees ::
  "(acpi_device \<Rightarrow> 's \<Rightarrow> bool \<times> 's) \<Rightarrow> 's \<Rightarrow> bool \<times> path \<times> 's \<Rightarrow> acpi_device list \<times> path \<Rightarrow> bool" where
  "agrees visit s r l \<longleftrightarrow>
     fst r = fst (visit_list visit (fst l) s) \<and> snd (snd r) = snd (visit_list visit (fst l) s) \<and>
     (fst r \<longrightarrow> fst (snd r) = snd l)"

lemma walk_agrees: "agrees visit s (walk visit code at e scope s) (devices_in code at e scope)"
proof (induction "length code - at" arbitrary: at e scope s rule: less_induct)
  case less
  show ?case
  proof (cases "at < e \<and> at < length code")
    case False
    then show ?thesis
      by (auto simp: walk.simps [of _ _ at] devices_in.simps [of _ at] agrees_def cur_byte_def cur_peek_def get_at_def)
  next
    case True
    define opcode where "opcode = code ! at"
    have b: "cur_byte code at = (Some opcode, at + 1)" using True by (simp add: opcode_def cur_byte_Some)
    note IH = less.hyps [OF walk_descends(1) [OF b]] less.hyps [OF walk_descends(2) [OF b]]
      less.hyps [OF walk_descends(3) [OF b]] less.hyps [OF walk_descends(4) [OF b]]
      less.hyps [OF walk_descends(5) [OF b]]
    have seq: "agrees visit s (case r of (False, sc, s') \<Rightarrow> (False, sc, s') | (True, sc, s') \<Rightarrow> k sc s')
        (case l of (ds1, sc1) \<Rightarrow> case m sc1 of (ds2, sc2) \<Rightarrow> (ds1 @ ds2, sc2))"
      if "agrees visit s r l" "\<And>s'. agrees visit s' (k (snd l) s') (m (snd l))" for s r l k m
      using that(1) that(2) [of "snd (visit_list visit (fst l) s)"]
      by (auto simp: agrees_def visit_list_append split: prod.splits bool.splits)
    show ?thesis
    proof (cases "walk_action code opcode (at + 1)")
      case WalkStop
      with True b show ?thesis
        by (simp add: walk.simps [of _ _ at] devices_in.simps [of _ at] agrees_def)
    next
      case (WalkNext p)
      with True b IH(1) [OF WalkNext] show ?thesis
        by (simp add: walk.simps [of _ _ at] devices_in.simps [of _ at])
    next
      case (WalkInside inner pend)
      have "agrees visit s
          (case walk visit code inner pend scope s of (False, sc, s2) \<Rightarrow> (False, sc, s2)
             | (True, sc, s2) \<Rightarrow> walk visit code pend e sc s2)
          (case devices_in code inner pend scope of (ds1, sc1) \<Rightarrow>
             case devices_in code pend e sc1 of (ds2, sc2) \<Rightarrow> (ds1 @ ds2, sc2))"
        by (rule seq [OF IH(2) [OF WalkInside] IH(3) [OF WalkInside]])
      with True b WalkInside show ?thesis
        by (simp add: walk.simps [of _ _ at] devices_in.simps [of _ at])
    next
      case (WalkOpen is_dev name absolute inner pend)
      obtain nameable scope1 where p: "push_all (path_segments name) (scope_base absolute scope) = (nameable, scope1)"
        by fastforce
      let ?rest = "\<lambda>sc. scope_restore absolute scope sc"
      define own where "own = (if is_dev \<and> nameable then [describe code scope1 (span_new inner pend)] else [])"
      have inner: "agrees visit s'
          (case walk visit code inner pend scope1 s' of (False, sc, s2) \<Rightarrow> (False, sc, s2)
             | (True, sc, s2) \<Rightarrow> walk visit code pend e (?rest sc) s2)
          (case devices_in code inner pend scope1 of (ds1, sc1) \<Rightarrow>
             case devices_in code pend e (?rest sc1) of (ds2, sc2) \<Rightarrow> (ds1 @ ds2, sc2))" for s'
        by (rule seq [OF IH(4) [OF WalkOpen] IH(5) [OF WalkOpen]])
      have d: "devices_in code at e scope =
          (case (case devices_in code inner pend scope1 of (ds1, sc1) \<Rightarrow>
             case devices_in code pend e (?rest sc1) of (ds2, sc2) \<Rightarrow> (ds1 @ ds2, sc2)) of (ds, sc) \<Rightarrow> (own @ ds, sc))"
        using True b p WalkOpen
        by (simp add: devices_in.simps [of _ at] own_def Let_def split: prod.splits)
      have w: "walk visit code at e scope s =
          (let (go, s1) = (if is_dev \<and> nameable then visit (describe code scope1 (span_new inner pend)) s else (True, s))
           in if \<not> go then (False, scope1, s1)
              else (case walk visit code inner pend scope1 s1 of (False, sc, s2) \<Rightarrow> (False, sc, s2)
             | (True, sc, s2) \<Rightarrow> walk visit code pend e (?rest sc) s2))"
        using True b p WalkOpen
        by (simp add: walk.simps [of _ _ at] Let_def)
      show ?thesis
        using inner unfolding d w own_def
        by (auto simp: agrees_def visit_list_append Let_def split: prod.splits)
    qed
  qed
qed

lemma for_each_visit_list:
  "for_each_device visit code s = snd (visit_list visit (fst (devices_in code TABLE_HEADER (length code) path_root)) s)"
  using walk_agrees [of visit s code TABLE_HEADER "length code" path_root]
  by (simp add: for_each_device_def agrees_def)

lemma all_devices_eq: "all_devices code = fst (devices_in code TABLE_HEADER (length code) path_root)"
proof -
  have "visit_list (\<lambda>d ds. (True, ds @ [d])) xs acc = (True, acc @ xs)" for xs acc :: "acpi_device list"
    by (induction xs arbitrary: acc) auto
  then show ?thesis by (simp add: all_devices_def for_each_visit_list)
qed

lemma for_each_all: "for_each_device visit code s = snd (visit_list visit (all_devices code) s)"
  by (simp add: for_each_visit_list all_devices_eq)

lemma find_device_first: "find_device wanted code = List.find wanted (all_devices code)"
proof -
  have "snd (visit_list (\<lambda>d found. let found = (if found = None \<and> wanted d then Some d else found)
      in (found = None, found)) ds None) = List.find wanted ds" for ds
    by (induction ds) (auto simp: Let_def)
  then show ?thesis by (simp add: find_device_def for_each_all)
qed

section \<open>The contract of a search\<close>

interpretation device_walk: visiting "\<lambda>visit. for_each_device visit code" "all_devices code" for code
  by unfold_locales (rule for_each_all)

interpretation device_search: searching "\<lambda>visit. for_each_device visit code" "all_devices code" for code
  by unfold_locales

section \<open>Paths stay well formed\<close>

definition path_ok :: "path \<Rightarrow> bool" where
  "path_ok p \<longleftrightarrow> length (path_segs p) = MAX_PATH \<and> path_len p \<le> MAX_PATH \<and>
     (\<forall>seg\<in>set (path_segs p). length seg = 4)"

lemma path_ok_root [simp]: "path_ok path_root"
  by (simp add: path_ok_def path_root_def blank_seg_def)

lemma path_push_ok: "path_ok p \<Longrightarrow> length seg = 4 \<Longrightarrow> path_ok (snd (path_push seg p))"
  by (auto simp: path_ok_def path_push_def dest!: set_update_subset_insert [THEN subsetD])

lemma name_segments_ok:
  "name_segments strict n p code at = (Some q, at') \<Longrightarrow> path_ok p \<Longrightarrow> path_ok q"
proof (induction n arbitrary: p at)
  case 0
  then show ?case by simp
next
  case (Suc n)
  then obtain seg at1 where t: "cur_take 4 code at = (Some seg, at1)"
    and "name_segments strict n (snd (path_push seg p)) code at1 = (Some q, at')"
    by (auto simp: then_read_Some_iff case_prod_beta split: if_splits)
  with Suc.IH path_push_ok [OF Suc.prems(2), of seg] cur_take_Some [OF t] show ?case by blast
qed

lemma cur_name_ok: "cur_name code at = (Some (p, absolute), at') \<Longrightarrow> path_ok p"
  by (auto simp: cur_name_def name_tail_def then_read_Some_iff simp del: name_segments.simps
      split: option.splits if_splits dest!: name_segments_ok)

lemma walk_extended_open_ok: "walk_extended code extended at = WalkOpen d p a i e \<Longrightarrow> path_ok p"
  unfolding walk_extended_def
  by (auto simp: Let_def split: if_splits option.splits prod.splits dest: cur_name_ok)

lemma walk_action_open_ok: "walk_action code opcode at = WalkOpen d p a i e \<Longrightarrow> path_ok p"
  unfolding walk_action_def
  by (auto split: if_splits option.splits prod.splits dest: cur_name_ok walk_extended_open_ok)

text \<open>A scope is extended by pushes and cut back to its depth, which leaves its segments alone.\<close>

definition extends :: "path \<Rightarrow> path \<Rightarrow> bool" where
  "extends p q \<longleftrightarrow> path_ok q \<and> path_len p \<le> path_len q \<and>
     take (path_len p) (path_segs q) = take (path_len p) (path_segs p)"

lemma extends_push: "extends p q \<Longrightarrow> length seg = 4 \<Longrightarrow> extends p (snd (path_push seg q))"
  using path_push_ok [of q seg] by (auto simp: extends_def path_push_def take_update_cancel)

lemma extends_push_all:
  "extends p q \<Longrightarrow> \<forall>seg\<in>set segs. length seg = 4 \<Longrightarrow> extends p (snd (push_all segs q))"
  by (induction segs arbitrary: q) (auto simp: case_prod_beta intro: extends_push)

lemma pop_to_eq: "pop_to depth p = p\<lparr>path_len := min depth (path_len p)\<rparr>"
proof (induction depth p rule: pop_to.induct)
  case (1 depth p)
  then show ?case
    by (subst pop_to.simps) (auto simp: path_pop_def min_def)
qed

lemma extends_pop: "extends p q \<Longrightarrow> path_ok p \<Longrightarrow> path_segments (pop_to (path_len p) q) = path_segments p \<and>
    path_ok (pop_to (path_len p) q) \<and> path_len (pop_to (path_len p) q) = path_len p"
  by (auto simp: pop_to_eq extends_def path_ok_def path_segments_def)

lemma extends_segments:
  "path_segments q = path_segments q' \<Longrightarrow> path_len q = path_len q' \<Longrightarrow> path_ok q \<Longrightarrow> extends p q' \<Longrightarrow> extends p q"
proof -
  assume q: "path_segments q = path_segments q'" "path_len q = path_len q'" "path_ok q" "extends p q'"
  then have "path_len p \<le> path_len q'" by (simp add: extends_def)
  then have "take (path_len p) (path_segs r) = take (path_len p) (path_segments r)" if "path_len r = path_len q'" for r
    using that by (simp add: path_segments_def min_def)
  with q show ?thesis by (simp add: extends_def)
qed

lemma devices_in_inv:
  assumes "path_ok scope"
  shows "let (ds, scope') = devices_in code at e scope in
    path_ok scope' \<and> path_len scope' = path_len scope \<and> path_segments scope' = path_segments scope \<and>
    (\<forall>d\<in>set ds. path_ok (dev_path d) \<and> at < sp_start (dev_body d) \<and>
       sp_start (dev_body d) \<le> sp_end (dev_body d) \<and> sp_end (dev_body d) \<le> length code)"
  using assms
proof (induction "length code - at" arbitrary: at e scope rule: less_induct)
  case less
  show ?case
  proof (cases "at < e \<and> at < length code")
    case False
    then show ?thesis using less.prems
      by (auto simp: devices_in.simps [of _ at] cur_byte_def cur_peek_def get_at_def)
  next
    case True
    define opcode where "opcode = code ! at"
    have b: "cur_byte code at = (Some opcode, at + 1)" using True by (simp add: opcode_def cur_byte_Some)
    note IH = less.hyps [OF walk_descends(1) [OF b]] less.hyps [OF walk_descends(2) [OF b]]
      less.hyps [OF walk_descends(3) [OF b]] less.hyps [OF walk_descends(4) [OF b]]
      less.hyps [OF walk_descends(5) [OF b]]
    show ?thesis
    proof (cases "walk_action code opcode (at + 1)")
      case WalkStop
      with True b less.prems show ?thesis by (simp add: devices_in.simps [of _ at])
    next
      case (WalkNext p)
      with True b IH(1) [OF WalkNext less.prems] walk_action_next [OF WalkNext] show ?thesis
        by (fastforce simp: devices_in.simps [of _ at] split: prod.splits)
    next
      case (WalkInside inner pend)
      obtain ds1 sc1 where d1: "devices_in code inner pend scope = (ds1, sc1)" by fastforce
      note i1 = IH(2) [OF WalkInside less.prems, of pend]
      then have "path_ok sc1" by (simp add: d1)
      note i2 = IH(3) [OF WalkInside this, of e]
      obtain ds2 sc2 where d2: "devices_in code pend e sc1 = (ds2, sc2)" by fastforce
      from True b i1 i2 walk_action_inside [OF WalkInside] WalkInside d1 d2 show ?thesis
        by (fastforce simp: devices_in.simps [of _ at])
    next
      case (WalkOpen is_dev name absolute inner pend)
      obtain nameable scope1 where p: "push_all (path_segments name) (scope_base absolute scope) = (nameable, scope1)"
        by fastforce
      have base: "path_ok (scope_base absolute scope)" using less.prems by (simp add: scope_base_def)
      have "\<forall>seg\<in>set (path_segments name). length seg = 4"
        using walk_action_open_ok [OF WalkOpen] by (auto simp: path_ok_def path_segments_def dest: in_set_takeD)
      moreover have "extends (scope_base absolute scope) (scope_base absolute scope)"
        using base by (simp add: extends_def)
      ultimately have ext: "extends (scope_base absolute scope) scope1"
        using extends_push_all [of "scope_base absolute scope" "scope_base absolute scope" "path_segments name"] p
        by simp
      then have ok1: "path_ok scope1" by (simp add: extends_def)
      obtain ds1 sc1 where d1: "devices_in code inner pend scope1 = (ds1, sc1)" by fastforce
      note i1 = IH(4) [OF WalkOpen ok1, of pend]
      with d1 ext have "extends (scope_base absolute scope) sc1"
        using extends_segments [of sc1 scope1] by simp
      with less.prems extends_pop [of "scope_base absolute scope" sc1] base
      have r: "path_ok (scope_restore absolute scope sc1)" "path_len (scope_restore absolute scope sc1) = path_len scope"
        "path_segments (scope_restore absolute scope sc1) = path_segments scope"
        by (auto simp: scope_restore_def scope_base_def split: if_splits)
      note i2 = IH(5) [OF WalkOpen r(1), of e]
      obtain ds2 sc2 where d2: "devices_in code pend e (scope_restore absolute scope sc1) = (ds2, sc2)" by fastforce
      have at: "at < inner" "at < pend" "pend \<le> length code" "is_dev \<longrightarrow> inner \<le> pend"
        using walk_action_open [OF WalkOpen] by auto
      have dv: "devices_in code at e scope =
          ((if is_dev \<and> nameable then [describe code scope1 (span_new inner pend)] else []) @ ds1 @ ds2, sc2)"
        using True b WalkOpen p d1 d2 by (simp add: devices_in.simps [of _ at] Let_def)
      show ?thesis
        unfolding dv using i1 i2 d1 d2 at ok1 r by (fastforce simp: describe_def)
    qed
  qed
qed

section \<open>Properties\<close>

text \<open>
  Looking for a device stops at the first match of the whole enumeration: the early end of the walk
  neither skips a device in front of the match nor misses one behind a scope or a conditional.
\<close>

theorem find_device_is_first_match:
  "find_device wanted code = List.find wanted (all_devices code)"
  by (rule find_device_first)

text \<open>
  Every device the walk reports lies inside the table, behind its header, under a path of at most
  eight segments of four bytes, and walking any scope leaves the scope's path as it found it.
\<close>

theorem devices_inside_table:
  "(\<forall>d\<in>set (all_devices code). TABLE_HEADER < sp_start (dev_body d) \<and>
      sp_start (dev_body d) \<le> sp_end (dev_body d) \<and> sp_end (dev_body d) \<le> length code \<and>
      length (path_segments (dev_path d)) \<le> MAX_PATH \<and>
      (\<forall>seg\<in>set (path_segments (dev_path d)). length seg = 4)) \<and>
   path_segments (snd (devices_in code TABLE_HEADER (length code) path_root)) = []"
proof -
  have "path_segments path_root = []" by (simp add: path_segments_def path_root_def)
  then show ?thesis
    using devices_in_inv [OF path_ok_root, of code TABLE_HEADER "length code"]
    by (auto simp: all_devices_eq Let_def path_ok_def path_segments_def split: prod.splits dest: in_set_takeD)
qed

text \<open>A table with one device, \<open>DEV0\<close>, of an empty object list.\<close>

definition tiny_table :: "u8 list" where
  "tiny_table = replicate 36 0 @ [0x5B, 0x82, 0x05, 0x44, 0x45, 0x56, 0x30]"

lemma devices_inside_table_witness:
  "\<exists>d. all_devices tiny_table = [d] \<and> TABLE_HEADER < sp_start (dev_body d) \<and> sp_end (dev_body d) \<le> 43"
proof -
  have "map (\<lambda>d. path_len (dev_path d)) (all_devices tiny_table) = [1]" by code_simp
  then obtain d where d: "all_devices tiny_table = [d]" by (cases "all_devices tiny_table") auto
  have "length tiny_table = 43" by (simp add: tiny_table_def)
  with devices_inside_table [of tiny_table] d show ?thesis by auto
qed

end
