(* ===== verification/Aml_Interp.thy ===== *)
theory Aml_Interp
  imports Aml_Namespace
begin

text \<open>
  \<open>crates/nanochrono-core/src/aml.rs\<close>, the interpreter for method bodies: expressions, stores,
  statements and the evaluation of a device's members.  An evaluation that leaves the supported
  subset, runs off the table or exhausts its budget is \<open>None\<close>.

  Every expression, every loop round and every statement spends one unit of the budget before it
  calls anything, so the bodies are iterated on one unit of fuel more than the budget holds, which
  is never exhausted: \<open>eval_eq\<close>, \<open>run_eq\<close> and \<open>while_eq\<close> are the recursive equations of the
  source.
\<close>

section \<open>State\<close>

datatype flow = Continue | Return aml_value | Break

record interp =
  in_args :: "aml_value list"
  in_locals :: "aml_value list"
  in_budget :: nat

definition BUDGET :: nat where
  "BUDGET = 200000"

definition interp_new :: interp where
  "interp_new = \<lparr>in_args = replicate 7 Uninitialised, in_locals = replicate 8 Uninitialised, in_budget = BUDGET\<rparr>"

text \<open>The zip of slots and values writes the first as many slots as there are values.\<close>

definition with_args :: "aml_value list \<Rightarrow> interp \<Rightarrow> interp" where
  "with_args args st =
     st\<lparr>in_args := take (length (in_args st)) args @ drop (length args) (in_args st)\<rparr>"

definition spend :: "interp \<Rightarrow> interp option" where
  "spend st = (if in_budget st = 0 then None else Some (st\<lparr>in_budget := in_budget st - 1\<rparr>))"

definition truthy :: "aml_value \<Rightarrow> bool" where
  "truthy v = (case v of Integer n \<Rightarrow> n \<noteq> 0 | Uninitialised \<Rightarrow> False | _ \<Rightarrow> True)"

definition boolean :: "bool \<Rightarrow> aml_value" where
  "boolean b = Integer (if b then - 1 else 0)"

definition same_bytes :: "u8 list option \<Rightarrow> u8 list option \<Rightarrow> bool" where
  "same_bytes a b = (case (a, b) of (Some a, Some b) \<Rightarrow> a = b | _ \<Rightarrow> False)"

definition equal_values :: "u8 list \<Rightarrow> aml_value \<Rightarrow> aml_value \<Rightarrow> bool" where
  "equal_values code l r =
     (case (l, r) of
        (Integer a, Integer b) \<Rightarrow> a = b
      | (Buffer a, Buffer b) \<Rightarrow> same_bytes (span_of a code) (span_of b code)
      | (Text a, Text b) \<Rightarrow> same_bytes (span_of a code) (span_of b code)
      | _ \<Rightarrow> False)"

definition store :: "u8 list \<Rightarrow> nat \<Rightarrow> aml_value \<Rightarrow> interp \<Rightarrow> (nat \<times> interp) option" where
  "store code at v st =
     do {
       opcode \<leftarrow> cur_peek code at;
       if opcode = op_ZERO then Some (at + 1, st)
       else if is_local opcode then
         Some (at + 1, st\<lparr>in_locals := (in_locals st)[unat (opcode - op_LOCAL0) := v]\<rparr>)
       else if is_arg opcode then
         Some (at + 1, st\<lparr>in_args := (in_args st)[unat (opcode - op_ARG0) := v]\<rparr>)
       else if is_name_lead opcode then do { (_, at') \<leftarrow> got (cur_name code at); Some (at', st) }
       else None
     }"

section \<open>Expressions\<close>

type_synonym evaluator = "nat \<Rightarrow> interp \<Rightarrow> (aml_value \<times> nat \<times> interp) option"

definition eval_integer :: "evaluator \<Rightarrow> nat \<Rightarrow> interp \<Rightarrow> (u64 \<times> nat \<times> interp) option" where
  "eval_integer rec at st =
     do { (v, at, st) \<leftarrow> rec at st; n \<leftarrow> value_integer v; Some (n, at, st) }"

definition checked_shift :: "(nat \<Rightarrow> u64 \<Rightarrow> u64) \<Rightarrow> u64 \<Rightarrow> u64 \<Rightarrow> u64" where
  "checked_shift shift left right =
     (let amount = unat (ucast right :: u32) in if amount < 64 then shift amount left else 0)"

definition arithmetic :: "u8 \<Rightarrow> u64 \<Rightarrow> u64 \<Rightarrow> u64" where
  "arithmetic opcode left right =
     (if opcode = op_ADD then left + right
      else if opcode = op_SUBTRACT then left - right
      else if opcode = op_AND then left AND right
      else if opcode = op_NAND then NOT (left AND right)
      else if opcode = op_OR then left OR right
      else if opcode = op_NOR then NOT (left OR right)
      else if opcode = op_XOR then left XOR right
      else if opcode = op_SHIFT_LEFT then checked_shift push_bit left right
      else checked_shift drop_bit left right)"

definition value_to_integer :: "u8 list \<Rightarrow> aml_value \<Rightarrow> u64 option" where
  "value_to_integer code v =
     (case v of
        Integer n \<Rightarrow> Some n
      | Buffer sp \<Rightarrow> do { bytes \<leftarrow> span_of sp code; Some (le_word (take 8 bytes)) }
      | _ \<Rightarrow> None)"

definition stored :: "u8 list \<Rightarrow> nat \<Rightarrow> aml_value \<Rightarrow> interp \<Rightarrow> (aml_value \<times> nat \<times> interp) option" where
  "stored code at v st = do { (at, st) \<leftarrow> store code at v st; Some (v, at, st) }"

definition eval_step :: "evaluator \<Rightarrow> u8 list \<Rightarrow> evaluator" where
  "eval_step rec code at st =
     do {
       st \<leftarrow> spend st;
       opcode \<leftarrow> cur_peek code at;
       if opcode \<in> {op_ZERO, op_ONE, op_ONES, op_BYTE_PREFIX, op_WORD_PREFIX, op_DWORD_PREFIX,
           op_QWORD_PREFIX, op_STRING_PREFIX, op_BUFFER, op_PACKAGE, op_VAR_PACKAGE}
       then do { (v, at) \<leftarrow> got (parse_data code at); Some (v, at, st) }
       else if is_arg opcode then Some (in_args st ! unat (opcode - op_ARG0), at + 1, st)
       else if is_local opcode then Some (in_locals st ! unat (opcode - op_LOCAL0), at + 1, st)
       else if opcode = op_STORE then
         do { (v, at, st) \<leftarrow> rec (at + 1) st; stored code at v st }
       else if opcode = op_LNOT then
         do { (v, at, st) \<leftarrow> rec (at + 1) st; Some (boolean (\<not> truthy v), at, st) }
       else if opcode = op_LAND then
         do {
           (l, at, st) \<leftarrow> rec (at + 1) st;
           (r, at, st) \<leftarrow> rec at st;
           Some (boolean (truthy l \<and> truthy r), at, st)
         }
       else if opcode = op_LOR then
         do {
           (l, at, st) \<leftarrow> rec (at + 1) st;
           (r, at, st) \<leftarrow> rec at st;
           Some (boolean (truthy l \<or> truthy r), at, st)
         }
       else if opcode = op_LEQUAL then
         do {
           (l, at, st) \<leftarrow> rec (at + 1) st;
           (r, at, st) \<leftarrow> rec at st;
           Some (boolean (equal_values code l r), at, st)
         }
       else if opcode = op_LGREATER then
         do {
           (l, at, st) \<leftarrow> eval_integer rec (at + 1) st;
           (r, at, st) \<leftarrow> eval_integer rec at st;
           Some (boolean (l > r), at, st)
         }
       else if opcode = op_LLESS then
         do {
           (l, at, st) \<leftarrow> eval_integer rec (at + 1) st;
           (r, at, st) \<leftarrow> eval_integer rec at st;
           Some (boolean (l < r), at, st)
         }
       else if opcode \<in> {op_ADD, op_SUBTRACT, op_AND, op_OR, op_XOR, op_NAND, op_NOR, op_SHIFT_LEFT, op_SHIFT_RIGHT} then
         do {
           (l, at, st) \<leftarrow> eval_integer rec (at + 1) st;
           (r, at, st) \<leftarrow> eval_integer rec at st;
           stored code at (Integer (arithmetic opcode l r)) st
         }
       else if opcode = op_INCREMENT \<or> opcode = op_DECREMENT then
         do {
           (current, _, st) \<leftarrow> eval_integer rec (at + 1) st;
           stored code (at + 1) (Integer (if opcode = op_INCREMENT then current + 1 else current - 1)) st
         }
       else if opcode = op_TO_INTEGER then
         do {
           (v, at, st) \<leftarrow> rec (at + 1) st;
           n \<leftarrow> value_to_integer code v;
           stored code at (Integer n) st
         }
       else if opcode = op_TO_BUFFER then
         do { (v, at, st) \<leftarrow> rec (at + 1) st; stored code at v st }
       else if opcode = op_SIZE_OF then
         do {
           (v, at, st) \<leftarrow> rec (at + 1) st;
           case v of
             Buffer sp \<Rightarrow> Some (Integer (of_nat (span_len sp)), at, st)
           | Text sp \<Rightarrow> Some (Integer (of_nat (span_len sp)), at, st)
           | _ \<Rightarrow> None
         }
       else None
     }"

primrec eval_fuel :: "nat \<Rightarrow> u8 list \<Rightarrow> evaluator" where
  "eval_fuel 0 code at st = None"
| "eval_fuel (Suc n) code at st = eval_step (eval_fuel n code) code at st"

definition eval :: "u8 list \<Rightarrow> evaluator" where
  "eval code at st = eval_fuel (Suc (in_budget st)) code at st"

section \<open>Statements\<close>

type_synonym runner = "nat \<Rightarrow> nat \<Rightarrow> interp \<Rightarrow> (flow \<times> interp) option"

text \<open>
  One statement at a position of a term list that ends at \<open>e\<close>; \<open>run_body\<close> runs a term list and
  \<open>loop\<close> the rounds of a \<open>While\<close> whose test is at its first argument.
\<close>

definition statement ::
  "runner \<Rightarrow> runner \<Rightarrow> u8 list \<Rightarrow> nat \<Rightarrow> nat \<Rightarrow> interp \<Rightarrow> (flow \<times> nat \<times> interp) option" where
  "statement run_body loop code at e st =
     do {
       opcode \<leftarrow> cur_peek code at;
       if opcode = op_IF then
         do {
           (package, at1) \<leftarrow> got (cur_package code (at + 1));
           (condition, body, st) \<leftarrow> eval code at1 st;
           let at2 = sp_end package;
           (otherwise, at3) \<leftarrow>
             (if at2 < e \<and> cur_peek code at2 = Some op_ELSE then
                do {
                  (alternative, at3) \<leftarrow> got (cur_package code (at2 + 1));
                  Some (Some (at3, sp_end alternative), sp_end alternative)
                }
              else Some (None, at2));
           (if truthy condition then
              do { (fl, st) \<leftarrow> run_body body at2 st; Some (fl, at3, st) }
            else case otherwise of
                Some (s, e') \<Rightarrow> do { (fl, st) \<leftarrow> run_body s e' st; Some (fl, at3, st) }
              | None \<Rightarrow> Some (Continue, at3, st))
         }
       else if opcode = op_ELSE then None
       else if opcode = op_WHILE then
         do {
           (package, test) \<leftarrow> got (cur_package code (at + 1));
           (fl, st) \<leftarrow> loop test (sp_end package) st;
           Some (fl, sp_end package, st)
         }
       else if opcode = op_RETURN then
         do { (v, at, st) \<leftarrow> eval code (at + 1) st; Some (Return v, at, st) }
       else if opcode = op_BREAK then Some (Break, at + 1, st)
       else if opcode = op_NOOP then Some (Continue, at + 1, st)
       else if opcode = op_NAME then
         do {
           (_, at1) \<leftarrow> got (cur_name code (at + 1));
           at2 \<leftarrow> went (skip_data code at1);
           Some (Continue, at2, st)
         }
       else do { (_, at, st) \<leftarrow> eval code at st; Some (Continue, at, st) }
     }"

definition run_step :: "runner \<Rightarrow> runner \<Rightarrow> u8 list \<Rightarrow> runner" where
  "run_step run_body loop code at e st =
     (if at < e then
        do {
          st \<leftarrow> spend st;
          (fl, at, st) \<leftarrow> statement run_body loop code at e st;
          if fl = Continue then run_body at e st else Some (fl, st)
        }
      else Some (Continue, st))"

text \<open>\<open>Continue\<close> is the result of a loop that ended, \<open>Return\<close> of one that was returned from.\<close>

definition while_step :: "runner \<Rightarrow> runner \<Rightarrow> u8 list \<Rightarrow> runner" where
  "while_step run_body loop code test e st =
     do {
       st \<leftarrow> spend st;
       (condition, body, st) \<leftarrow> eval code test st;
       if \<not> truthy condition then Some (Continue, st)
       else
         do {
           (fl, st) \<leftarrow> run_body body e st;
           case fl of
             Continue \<Rightarrow> loop test e st
           | Break \<Rightarrow> Some (Continue, st)
           | Return v \<Rightarrow> Some (Return v, st)
         }
     }"

primrec exec_fuel :: "nat \<Rightarrow> u8 list \<Rightarrow> runner \<times> runner" where
  "exec_fuel 0 code = ((\<lambda>at e st. None), (\<lambda>at e st. None))"
| "exec_fuel (Suc n) code =
     (run_step (fst (exec_fuel n code)) (snd (exec_fuel n code)) code,
      while_step (fst (exec_fuel n code)) (snd (exec_fuel n code)) code)"

definition run :: "u8 list \<Rightarrow> runner" where
  "run code at e st = fst (exec_fuel (Suc (in_budget st)) code) at e st"

definition while_loop :: "u8 list \<Rightarrow> runner" where
  "while_loop code test e st = snd (exec_fuel (Suc (in_budget st)) code) test e st"

section \<open>Members\<close>

definition evaluate_member_with :: "u8 list \<Rightarrow> member \<Rightarrow> aml_value list \<Rightarrow> aml_value option" where
  "evaluate_member_with code m args =
     (case m of
        MemberName at \<Rightarrow> fst (parse_data code at)
      | MemberMethod body arguments \<Rightarrow>
          if arguments \<noteq> length args then None
          else do {
            (fl, _) \<leftarrow> run code (sp_start body) (sp_end body) (with_args args interp_new);
            case fl of Return v \<Rightarrow> Some v | _ \<Rightarrow> None
          })"

definition evaluate_member :: "u8 list \<Rightarrow> member \<Rightarrow> aml_value option" where
  "evaluate_member code m = evaluate_member_with code m []"

definition evaluate :: "u8 list \<Rightarrow> acpi_device \<Rightarrow> nameseg \<Rightarrow> aml_value list \<Rightarrow> aml_value option" where
  "evaluate code d name args =
     do { m \<leftarrow> find_device_member code d name; evaluate_member_with code m args }"

definition seg_STA :: nameseg where "seg_STA = [0x5F, 0x53, 0x54, 0x41]"

definition present :: "u8 list \<Rightarrow> acpi_device \<Rightarrow> bool" where
  "present code d =
     (case member_conditional code d seg_STA of
        None \<Rightarrow> True
      | Some (m, conditional) \<Rightarrow>
          if conditional then True
          else (case evaluate_member code m of
              Some (Integer status) \<Rightarrow> status AND 3 = 3
            | _ \<Rightarrow> True))"

section \<open>The budget only shrinks\<close>

text \<open>
  \<open>within b r\<close>: a result leaves at most \<open>b\<close> units.  \<open>frugal f\<close>: \<open>f\<close> never adds to the budget.
\<close>

definition within :: "nat \<Rightarrow> ('a \<times> 'p \<times> interp) option \<Rightarrow> bool" where
  "within b r \<longleftrightarrow> (\<forall>v at st. r = Some (v, at, st) \<longrightarrow> in_budget st \<le> b)"

definition frugal :: "evaluator \<Rightarrow> bool" where
  "frugal f \<longleftrightarrow> (\<forall>at st. within (in_budget st) (f at st))"

lemma within_None [simp]: "within b None"
  by (simp add: within_def)

lemma within_Some [simp]: "within b (Some (v, at, st)) \<longleftrightarrow> in_budget st \<le> b"
  by (simp add: within_def)

lemma spend_Some: "spend st = Some st' \<Longrightarrow> in_budget st' < in_budget st"
  by (auto simp: spend_def split: if_splits)

lemma store_budget: "store code at v st = Some (at', st') \<Longrightarrow> in_budget st' = in_budget st"
  by (auto simp: store_def bind_eq_Some_conv split: if_splits)

lemma within_stored: "in_budget st \<le> b \<Longrightarrow> within b (stored code at v st)"
  by (auto simp: stored_def within_def bind_eq_Some_conv dest: store_budget)

lemma within_bind:
  "within c r \<Longrightarrow> (\<And>v at st. in_budget st \<le> c \<Longrightarrow> within b (k (v, at, st))) \<Longrightarrow> within b (Option.bind r k)"
  by (auto simp: within_def bind_eq_Some_conv)

lemma within_bind_any: "(\<And>x. within b (k x)) \<Longrightarrow> within b (Option.bind r k)"
  by (cases r) auto

lemma within_if: "(P \<Longrightarrow> within b x) \<Longrightarrow> (\<not> P \<Longrightarrow> within b y) \<Longrightarrow> within b (if P then x else y)"
  by simp

lemma within_mono: "within c r \<Longrightarrow> c \<le> b \<Longrightarrow> within b r"
  by (auto simp: within_def intro: order_trans)

lemma frugal_within: "frugal f \<Longrightarrow> in_budget st \<le> b \<Longrightarrow> within b (f at st)"
  by (auto simp: frugal_def intro: within_mono)

lemma frugal_eval_integer: "frugal f \<Longrightarrow> within (in_budget st) (eval_integer f at st)"
  unfolding eval_integer_def
  by (rule within_bind [OF frugal_within [OF _ order_refl]]) (auto intro: within_bind_any)

lemma within_eval_step:
  assumes f: "frugal f"
  shows "within (in_budget st) (eval_step f code at st)"
proof (cases "spend st")
  case None
  then show ?thesis by (simp add: eval_step_def)
next
  case (Some st0)
  then have b: "in_budget st0 \<le> in_budget st" by (auto dest: spend_Some)
  have e1: "within c (Option.bind (f a s) k)"
    if "in_budget s \<le> c" "\<And>v at st. in_budget st \<le> c \<Longrightarrow> within c (k (v, at, st))" for a s c k
    using that by (intro within_bind [of c]) (auto intro: frugal_within [OF f])
  have e2: "within c (Option.bind (eval_integer f a s) k)"
    if "in_budget s \<le> c" "\<And>v at st. in_budget st \<le> c \<Longrightarrow> within c (k (v, at, st))" for a s c k
    using that by (intro within_bind [of c]) (auto intro: within_mono [OF frugal_eval_integer [OF f]])
  show ?thesis
    unfolding eval_step_def Some Option.bind.simps
    by (rule within_bind_any)
      (intro within_if; auto intro!: e1 e2 within_stored b intro: within_bind_any split: aml_value.split)
qed

lemma frugal_fuel: "frugal (eval_fuel n code)"
  by (induction n) (auto simp: frugal_def intro: within_eval_step [unfolded frugal_def])

lemma frugal_eval: "frugal (eval code)"
  using frugal_fuel unfolding eval_def frugal_def by blast

section \<open>The recursive equations\<close>

definition agree_below :: "nat \<Rightarrow> evaluator \<Rightarrow> evaluator \<Rightarrow> bool" where
  "agree_below b f g \<longleftrightarrow> (\<forall>at st. in_budget st < b \<longrightarrow> f at st = g at st)"

lemma agree_bind:
  assumes "frugal f" "agree_below b f g" "in_budget st < b"
    and "\<And>v at st. in_budget st < b \<Longrightarrow> k (v, at, st) = k' (v, at, st)"
  shows "Option.bind (f at st) k = Option.bind (g at st) k'"
proof -
  have "f at st = g at st" using assms by (simp add: agree_below_def)
  moreover have "k x = k' x" if "f at st = Some x" for x
  proof -
    obtain v at' st' where x: "x = (v, at', st')" by (cases x) auto
    have "in_budget st' \<le> in_budget st"
      using assms(1) that unfolding frugal_def x within_def by blast
    with assms(3,4) x show ?thesis by simp
  qed
  ultimately show ?thesis by (intro Option.bind_cong) auto
qed

lemma agree_eval_integer:
  "frugal f \<Longrightarrow> agree_below b f g \<Longrightarrow> in_budget st < b \<Longrightarrow> eval_integer f at st = eval_integer g at st"
  unfolding eval_integer_def by (rule agree_bind) auto

lemma agree_bind_integer:
  assumes "frugal f" "agree_below b f g" "in_budget st < b"
    and "\<And>v at st. in_budget st < b \<Longrightarrow> k (v, at, st) = k' (v, at, st)"
  shows "Option.bind (eval_integer f at st) k = Option.bind (eval_integer g at st) k'"
proof (rule Option.bind_cong)
  show "eval_integer f at st = eval_integer g at st"
    by (rule agree_eval_integer [OF assms(1-3)])
next
  fix x assume "eval_integer g at st = Some x"
  then have "eval_integer f at st = Some x" using agree_eval_integer [OF assms(1-3)] by simp
  moreover obtain v at' st' where x: "x = (v, at', st')" by (cases x) auto
  ultimately have "in_budget st' \<le> in_budget st"
    using frugal_eval_integer [OF assms(1), of st at] unfolding within_def x by blast
  with assms(3,4) x show "k x = k' x" by simp
qed

lemma if_agree: "(P \<Longrightarrow> x = x') \<Longrightarrow> (\<not> P \<Longrightarrow> y = y') \<Longrightarrow> (if P then x else y) = (if P then x' else y')"
  by simp

lemma eval_step_agree:
  assumes f: "frugal f" and g: "agree_below (in_budget st) f g"
  shows "eval_step f code at st = eval_step g code at st"
proof (cases "spend st")
  case None
  then show ?thesis by (simp add: eval_step_def)
next
  case (Some st0)
  note b = spend_Some [OF Some]
  show ?thesis
    unfolding eval_step_def Some Option.bind.simps
    by (rule Option.bind_cong [OF refl])
      (intro if_agree refl; auto intro!: agree_bind [OF f g] agree_bind_integer [OF f g] b)
qed

lemma eval_fuel_enough: "in_budget st < n \<Longrightarrow> n \<le> m \<Longrightarrow> eval_fuel n code at st = eval_fuel m code at st"
proof (induction n arbitrary: m at st)
  case 0
  then show ?case by simp
next
  case (Suc n)
  then obtain k where m: "m = Suc k" "n \<le> k" by (cases m) auto
  have "agree_below (in_budget st) (eval_fuel n code) (eval_fuel k code)"
    unfolding agree_below_def using Suc m by auto
  then show ?case unfolding m by (simp add: eval_step_agree [OF frugal_fuel])
qed

lemma eval_eq: "eval code at st = eval_step (eval code) code at st"
proof -
  have "agree_below (in_budget st) (eval_fuel (in_budget st) code) (eval code)"
    unfolding agree_below_def eval_def
    by (auto intro!: eval_fuel_enough [symmetric] simp: Suc_le_eq simp del: eval_fuel.simps)
  then show ?thesis
    unfolding eval_def [of code at st] eval_fuel.simps by (rule eval_step_agree [OF frugal_fuel])
qed

text \<open>The same for term lists and loops.\<close>

definition frugal_run :: "runner \<Rightarrow> bool" where
  "frugal_run f \<longleftrightarrow> (\<forall>at e st fl st'. f at e st = Some (fl, st') \<longrightarrow> in_budget st' \<le> in_budget st)"

definition agree_run :: "nat \<Rightarrow> runner \<Rightarrow> runner \<Rightarrow> bool" where
  "agree_run b f g \<longleftrightarrow> (\<forall>at e st. in_budget st < b \<longrightarrow> f at e st = g at e st)"

lemma eval_budget: "eval code at st = Some (v, at', st') \<Longrightarrow> in_budget st' \<le> in_budget st"
  using frugal_eval [of code] by (auto simp: frugal_def within_def)

definition within2 :: "nat \<Rightarrow> ('a \<times> interp) option \<Rightarrow> bool" where
  "within2 b r \<longleftrightarrow> (\<forall>fl st. r = Some (fl, st) \<longrightarrow> in_budget st \<le> b)"

lemma within2_simps [simp]: "within2 b None" "within2 b (Some (fl, st)) \<longleftrightarrow> in_budget st \<le> b"
  by (simp_all add: within2_def)

lemma run_within: "frugal_run f \<Longrightarrow> in_budget st \<le> b \<Longrightarrow> within2 b (f at e st)"
  by (auto simp: frugal_run_def within2_def) (meson order_trans)

lemma bind_run_within:
  assumes "frugal_run f" "in_budget st \<le> b" "\<And>fl st. in_budget st \<le> b \<Longrightarrow> within b (k (fl, st))"
  shows "within b (Option.bind (f at e st) k)"
  using run_within [OF assms(1,2), of at e] assms(3) by (auto simp: within2_def within_def bind_eq_Some_conv)

lemma bind_run_within2:
  assumes "frugal_run f" "in_budget st \<le> b" "\<And>fl st. in_budget st \<le> b \<Longrightarrow> within2 b (k (fl, st))"
  shows "within2 b (Option.bind (f at e st) k)"
  using run_within [OF assms(1,2), of at e] assms(3) by (auto simp: within2_def bind_eq_Some_conv)

lemma bind_eval_within:
  assumes "in_budget st \<le> b" "\<And>v at st. in_budget st \<le> b \<Longrightarrow> within b (k (v, at, st))"
  shows "within b (Option.bind (eval code at st) k)"
  using frugal_within [OF frugal_eval assms(1)] by (rule within_bind) (rule assms(2))

lemma bind3_within2:
  assumes "within b r" "\<And>v at st. in_budget st \<le> b \<Longrightarrow> within2 b (k (v, at, st))"
  shows "within2 b (Option.bind r k)"
  using assms by (auto simp: within_def within2_def bind_eq_Some_conv)

lemma within_statement:
  assumes f: "frugal_run f" and w: "frugal_run w"
  shows "within (in_budget st) (statement f w code at e st)"
  unfolding statement_def
  by (rule within_bind_any)
    (intro within_if; auto simp: Let_def
      intro!: within_bind_any [of _ _ "got r" for r] within_bind_any [of _ _ "went r" for r]
        within_bind_any [of _ _ "if c then r else s" for c r s] bind_eval_within
        bind_run_within [OF f] bind_run_within [OF w] split: option.split)

lemma statement_budget:
  assumes "frugal_run f" "frugal_run w" "statement f w code at e st = Some (fl, at', st')"
  shows "in_budget st' \<le> in_budget st"
  using within_statement [OF assms(1,2), of st code at e] assms(3) by simp

lemma frugal_run_step:
  assumes f: "frugal_run f" and w: "frugal_run w"
  shows "frugal_run (run_step f w code)"
proof -
  have "within2 (in_budget st) (run_step f w code at e st)" for at e st
  proof (cases "spend st")
    case (Some st0)
    then have b: "in_budget st0 \<le> in_budget st" by (auto dest: spend_Some)
    have "within (in_budget st) (statement f w code at e st0)"
      using within_statement [OF f w] b by (rule within_mono)
    then show ?thesis
      unfolding run_step_def Some by (auto intro!: bind3_within2 run_within [OF f])
  qed (simp add: run_step_def)
  then show ?thesis by (simp add: frugal_run_def within2_def)
qed

lemma frugal_while_step:
  assumes f: "frugal_run f" and w: "frugal_run w"
  shows "frugal_run (while_step f w code)"
proof -
  have "within2 (in_budget st) (while_step f w code at e st)" for at e st
  proof (cases "spend st")
    case (Some st0)
    then have b: "in_budget st0 \<le> in_budget st" by (auto dest: spend_Some)
    have "within (in_budget st) (eval code at st0)"
      using b by (auto simp: within_def dest!: eval_budget)
    then show ?thesis
      unfolding while_step_def Some
      by (auto intro!: bind3_within2 bind_run_within2 [OF f] run_within [OF w] split: flow.split)
  qed (simp add: while_step_def)
  then show ?thesis by (simp add: frugal_run_def within2_def)
qed

lemma frugal_exec: "frugal_run (fst (exec_fuel n code)) \<and> frugal_run (snd (exec_fuel n code))"
proof (induction n)
  case 0
  then show ?case by (simp add: frugal_run_def)
next
  case (Suc n)
  then show ?case by (simp add: frugal_run_step frugal_while_step)
qed

lemma bind_eval:
  assumes "in_budget st < b" "\<And>v at st. in_budget st < b \<Longrightarrow> k (v, at, st) = k' (v, at, st)"
  shows "Option.bind (eval code at st) k = Option.bind (eval code at st) k'"
  using assms by (intro Option.bind_cong refl) (force dest: eval_budget)

lemma bind_any: "(\<And>x. k x = k' x) \<Longrightarrow> Option.bind r k = Option.bind r k'"
  by (cases r) auto

lemma bind_run:
  assumes "frugal_run f" "agree_run b f g" "in_budget st < b"
    and "\<And>fl st. in_budget st < b \<Longrightarrow> k (fl, st) = k' (fl, st)"
  shows "Option.bind (f at e st) k = Option.bind (g at e st) k'"
proof -
  have e: "f at e st = g at e st" using assms by (simp add: agree_run_def)
  moreover have "k x = k' x" if "f at e st = Some x" for x
  proof -
    obtain fl st' where x: "x = (fl, st')" by (cases x) auto
    have "in_budget st' \<le> in_budget st"
      using assms(1) that unfolding frugal_run_def x by blast
    with assms(3,4) x show ?thesis by simp
  qed
  ultimately show ?thesis by (intro Option.bind_cong) auto
qed

lemma statement_agree:
  assumes "frugal_run f" "frugal_run w" "agree_run b f g" "agree_run b w w'" "in_budget st < b"
  shows "statement f w code at e st = statement g w' code at e st"
  unfolding statement_def
  by (rule bind_any)
    (intro if_agree refl;
      auto simp: Let_def intro!: bind_any [of _ _ "got r" for r] bind_any [of _ _ "went r" for r]
        bind_any [of _ _ "if c then r else s" for c r s] bind_eval bind_run [OF assms(1,3)] bind_run [OF assms(2,4)] assms(5)
        split: option.split)

lemma bind_statement:
  assumes "frugal_run f" "frugal_run w" "agree_run b f g" "agree_run b w w'" "in_budget st < b"
    and "\<And>fl at st. in_budget st < b \<Longrightarrow> k (fl, at, st) = k' (fl, at, st)"
  shows "Option.bind (statement f w code at e st) k = Option.bind (statement g w' code at e st) k'"
  using assms(5,6) unfolding statement_agree [OF assms(1-5), symmetric]
  by (intro Option.bind_cong refl) (force dest: statement_budget [OF assms(1,2)])

lemma run_step_agree:
  assumes "frugal_run f" "frugal_run w" "agree_run (in_budget st) f g" "agree_run (in_budget st) w w'"
  shows "run_step f w code at e st = run_step g w' code at e st"
proof (cases "spend st")
  case None
  then show ?thesis by (simp add: run_step_def)
next
  case (Some st0)
  note b = spend_Some [OF Some]
  show ?thesis
    unfolding run_step_def Some Option.bind.simps
    using assms(3) by (auto intro!: bind_statement [OF assms] b simp: agree_run_def)
qed

lemma while_step_agree:
  assumes "frugal_run f" "frugal_run w" "agree_run (in_budget st) f g" "agree_run (in_budget st) w w'"
  shows "while_step f w code test e st = while_step g w' code test e st"
proof (cases "spend st")
  case None
  then show ?thesis by (simp add: while_step_def)
next
  case (Some st0)
  note b = spend_Some [OF Some]
  show ?thesis
    unfolding while_step_def Some Option.bind.simps
    using assms(4)
    by (auto intro!: bind_eval [OF b] bind_run [OF assms(1,3)] simp: agree_run_def split: flow.split)
qed

lemma exec_fuel_enough:
  "in_budget st < n \<Longrightarrow> n \<le> m \<Longrightarrow> fst (exec_fuel n code) at e st = fst (exec_fuel m code) at e st \<and>
     snd (exec_fuel n code) at e st = snd (exec_fuel m code) at e st"
proof (induction n arbitrary: m at e st)
  case 0
  then show ?case by simp
next
  case (Suc n)
  then obtain k where m: "m = Suc k" "n \<le> k" by (cases m) auto
  have "agree_run (in_budget st) (fst (exec_fuel n code)) (fst (exec_fuel k code))"
    "agree_run (in_budget st) (snd (exec_fuel n code)) (snd (exec_fuel k code))"
    unfolding agree_run_def using Suc m by auto
  then show ?case unfolding m
    by (simp add: run_step_agree while_step_agree frugal_exec)
qed

lemma agree_exec:
  "agree_run (in_budget st) (fst (exec_fuel (in_budget st) code)) (run code)"
  "agree_run (in_budget st) (snd (exec_fuel (in_budget st) code)) (while_loop code)"
proof -
  have "fst (exec_fuel (in_budget st) code) at e s = fst (exec_fuel (Suc (in_budget s)) code) at e s \<and>
      snd (exec_fuel (in_budget st) code) at e s = snd (exec_fuel (Suc (in_budget s)) code) at e s"
    if "in_budget s < in_budget st" for at e s
    using exec_fuel_enough [of s "Suc (in_budget s)" "in_budget st" code at e] that
    by (simp del: exec_fuel.simps)
  then show "agree_run (in_budget st) (fst (exec_fuel (in_budget st) code)) (run code)"
    "agree_run (in_budget st) (snd (exec_fuel (in_budget st) code)) (while_loop code)"
    unfolding agree_run_def run_def while_loop_def by blast+
qed

lemma run_eq: "run code at e st = run_step (run code) (while_loop code) code at e st"
  unfolding run_def [of code at e st]
  by (simp add: run_step_agree [OF _ _ agree_exec] frugal_exec)

lemma while_eq: "while_loop code test e st = while_step (run code) (while_loop code) code test e st"
  unfolding while_loop_def [of code test e st]
  by (simp add: while_step_agree [OF _ _ agree_exec] frugal_exec)

end
