(* ===== verification/Aml_Devices.thy ===== *)
theory Aml_Devices
  imports Aml_Interp
begin

text \<open>
  \<open>crates/nanochrono-core/src/aml.rs\<close>, what the reader is for: the resource templates of a \<open>_CRS\<close>,
  the buffers a device declares, and the search for I2C-HID devices and GPIO communities.

  The iterator over a template is the list it yields.  The lemmas relate every search to the list
  of all devices, decode what an encoder wrote, and show that an ambiguous set of declared buffers
  is refused.
\<close>

section \<open>Resource descriptors\<close>

record i2c_serial_bus =
  slave_address :: u16
  connection_speed :: u32
  ten_bit :: bool
  bus_controller :: path

record gpio_interrupt =
  gpio_pin :: u16
  gpio_controller :: path

record memory_region =
  mem_base :: u64
  mem_length :: u32
  mem_writable :: bool

datatype resource =
    I2c i2c_serial_bus
  | Gpio gpio_interrupt
  | Memory memory_region
  | Other bool u8

definition LARGE_SERIAL_BUS :: u8 where "LARGE_SERIAL_BUS = 0x0E"
definition LARGE_GPIO :: u8 where "LARGE_GPIO = 0x0C"
definition LARGE_MEMORY32_FIXED :: u8 where "LARGE_MEMORY32_FIXED = 0x06"
definition LARGE_QWORD_SPACE :: u8 where "LARGE_QWORD_SPACE = 0x0A"
definition LARGE_DWORD_SPACE :: u8 where "LARGE_DWORD_SPACE = 0x07"
definition ADDRESS_SPACE_MEMORY :: u8 where "ADDRESS_SPACE_MEMORY = 0x00"
definition SERIAL_BUS_I2C :: u8 where "SERIAL_BUS_I2C = 0x01"
definition SMALL_END_TAG :: u8 where "SMALL_END_TAG = 0x0F"

lemmas descriptor_types =
  LARGE_SERIAL_BUS_def LARGE_GPIO_def LARGE_MEMORY32_FIXED_def LARGE_QWORD_SPACE_def
  LARGE_DWORD_SPACE_def ADDRESS_SPACE_MEMORY_def SERIAL_BUS_I2C_def SMALL_END_TAG_def

text \<open>A little-endian field of \<open>n\<close> bytes.\<close>

definition field_at :: "u8 list \<Rightarrow> nat \<Rightarrow> nat \<Rightarrow> 'w::len word option" where
  "field_at body at n = map_option le_word (get_range body at (at + n))"

definition source_path :: "u8 list \<Rightarrow> nat \<Rightarrow> path" where
  "source_path bytes at =
     (case Option.bind (get_from bytes at) parse_path of Some p \<Rightarrow> p | None \<Rightarrow> path_root)"

definition parse_i2c_serial_bus :: "u8 list \<Rightarrow> i2c_serial_bus option" where
  "parse_i2c_serial_bus body =
     (if length body < 9 \<or> get_at body 2 \<noteq> Some SERIAL_BUS_I2C then None
      else do {
        type_specific_flags \<leftarrow> (field_at body 4 2 :: u16 option);
        type_data_length \<leftarrow> (field_at body 7 2 :: u16 option);
        speed \<leftarrow> (field_at body 9 4 :: u32 option);
        address \<leftarrow> (field_at body 13 2 :: u16 option);
        Some \<lparr>slave_address = address, connection_speed = speed,
          ten_bit = (type_specific_flags AND 1 \<noteq> 0),
          bus_controller = source_path body (9 + unat type_data_length)\<rparr>
      })"

definition parse_gpio :: "u8 list \<Rightarrow> gpio_interrupt option" where
  "parse_gpio whole =
     (if length whole < 19 then None
      else if whole ! 4 \<noteq> 0 then None
      else do {
        pin_table_offset \<leftarrow> (field_at whole 14 2 :: u16 option);
        source_offset \<leftarrow> (field_at whole 17 2 :: u16 option);
        pin \<leftarrow> (field_at whole (unat pin_table_offset) 2 :: u16 option);
        Some \<lparr>gpio_pin = pin, gpio_controller = source_path whole (unat source_offset)\<rparr>
      })"

definition parse_memory32_fixed :: "u8 list \<Rightarrow> memory_region option" where
  "parse_memory32_fixed body =
     (if length body < 9 then None
      else do {
        base \<leftarrow> (field_at body 1 4 :: u32 option);
        len \<leftarrow> (field_at body 5 4 :: u32 option);
        if len = 0 then None
        else Some \<lparr>mem_base = ucast base, mem_length = len, mem_writable = (body ! 0 AND 1 \<noteq> 0)\<rparr>
      })"

definition parse_address_space :: "u8 list \<Rightarrow> nat \<Rightarrow> memory_region option" where
  "parse_address_space body width =
     (if length body < 3 + width * 5 \<or> body ! 0 \<noteq> ADDRESS_SPACE_MEMORY then None
      else do {
        base \<leftarrow> (field_at body (3 + 1 * width) width :: u64 option);
        len \<leftarrow> (field_at body (3 + 4 * width) width :: u64 option);
        if len = 0 \<or> len > 0xFFFFFFFF then None
        else Some \<lparr>mem_base = base, mem_length = ucast len, mem_writable = (body ! 2 AND 1 \<noteq> 0)\<rparr>
      })"

definition decode_large :: "u8 \<Rightarrow> u8 list \<Rightarrow> u8 list \<Rightarrow> resource" where
  "decode_large kind body whole =
     (let decoded =
        (if kind = LARGE_SERIAL_BUS then map_option I2c (parse_i2c_serial_bus body)
         else if kind = LARGE_GPIO then map_option Gpio (parse_gpio whole)
         else if kind = LARGE_MEMORY32_FIXED then map_option Memory (parse_memory32_fixed body)
         else if kind = LARGE_QWORD_SPACE then map_option Memory (parse_address_space body 8)
         else if kind = LARGE_DWORD_SPACE then map_option Memory (parse_address_space body 4)
         else None)
      in case decoded of Some r \<Rightarrow> r | None \<Rightarrow> Other True kind)"

text \<open>One step of the iterator: the descriptor at a position and the position after it.\<close>

definition next_resource :: "u8 list \<Rightarrow> nat \<Rightarrow> (resource \<times> nat) option" where
  "next_resource buffer at =
     do {
       tag \<leftarrow> get_at buffer at;
       if tag AND 0x80 = 0 then
         (let kind = drop_bit 3 tag AND 0x0F;
              len = unat (tag AND 0x07)
          in if kind = SMALL_END_TAG then None
             else if at + (1 + len) > length buffer then None
             else Some (Other False kind, at + (1 + len)))
       else
         do {
           len \<leftarrow> (field_at buffer (at + 1) 2 :: u16 option);
           body \<leftarrow> get_range buffer (at + 3) (at + 3 + unat len);
           whole \<leftarrow> get_range buffer at (at + 3 + unat len);
           Some (decode_large (tag AND 0x7F) body whole, at + 3 + unat len)
         }
     }"

lemma next_resource_progress: "next_resource buffer at = Some (r, at') \<Longrightarrow> at < at' \<and> at' \<le> length buffer"
  by (auto simp: next_resource_def bind_eq_Some_conv Let_def get_range_Some_iff split: if_splits)

function resources_from :: "u8 list \<Rightarrow> nat \<Rightarrow> resource list" where
  "resources_from buffer at =
     (case next_resource buffer at of
        None \<Rightarrow> []
      | Some (r, at') \<Rightarrow> r # resources_from buffer at')"
  by pat_completeness auto

termination resources_from
  by (relation "measure (\<lambda>(buffer, at). length buffer - at)") (auto dest!: next_resource_progress)

declare resources_from.simps [simp del]

definition resources :: "u8 list \<Rightarrow> resource list" where
  "resources buffer = resources_from buffer 0"

section \<open>Declared buffers\<close>

function declared_buffers_loop :: "('s \<Rightarrow> u8 list \<Rightarrow> bool \<times> 's) \<Rightarrow> u8 list \<Rightarrow> nat \<Rightarrow> nat \<Rightarrow> 's \<Rightarrow> 's" where
  "declared_buffers_loop visit code e at s =
     (if at < e then
        (case got (cur_byte code at) of
           None \<Rightarrow> s
         | Some (opcode, at1) \<Rightarrow>
             if opcode \<noteq> op_NAME then
               (case went (skip_object code opcode at1) of
                  None \<Rightarrow> s
                | Some at2 \<Rightarrow> declared_buffers_loop visit code e at2 s)
             else
               (case got (cur_name code at1) of
                  None \<Rightarrow> s
                | Some (_, at2) \<Rightarrow>
                    (case got (parse_data code at2) of
                       None \<Rightarrow> s
                     | Some (v, at3) \<Rightarrow>
                         (case v of
                            Buffer sp \<Rightarrow>
                              (case span_of sp code of
                                 None \<Rightarrow> s
                               | Some bytes \<Rightarrow>
                                   (case visit s bytes of
                                      (go, s') \<Rightarrow> if go then declared_buffers_loop visit code e at3 s' else s'))
                          | _ \<Rightarrow> declared_buffers_loop visit code e at3 s))))
      else s)"
  by pat_completeness auto

termination declared_buffers_loop
  by (relation "measure (\<lambda>(visit, code, e, at, s). e - at)")
    (auto simp del: got_Some went_Some dest!: progress)

declare declared_buffers_loop.simps [simp del]

definition for_each_declared_buffer :: "('s \<Rightarrow> u8 list \<Rightarrow> bool \<times> 's) \<Rightarrow> u8 list \<Rightarrow> acpi_device \<Rightarrow> 's \<Rightarrow> 's" where
  "for_each_declared_buffer visit code d s =
     declared_buffers_loop visit code (sp_end (dev_body d)) (sp_start (dev_body d)) s"

record device_resources =
  res_bus :: i2c_serial_bus
  res_interrupt :: "gpio_interrupt option"

datatype provenance = Crs | DeclaredBuffers

definition as_i2c :: "resource \<Rightarrow> i2c_serial_bus option" where
  "as_i2c r = (case r of I2c b \<Rightarrow> Some b | _ \<Rightarrow> None)"

definition as_gpio :: "resource \<Rightarrow> gpio_interrupt option" where
  "as_gpio r = (case r of Gpio g \<Rightarrow> Some g | _ \<Rightarrow> None)"

type_synonym survey = "i2c_serial_bus option \<times> gpio_interrupt option \<times> bool"

definition survey_entry :: "resource \<Rightarrow> survey \<Rightarrow> survey" where
  "survey_entry entry = (\<lambda>(bus, interrupt, conflicting).
     case entry of
       I2c found \<Rightarrow>
         (case bus of
            None \<Rightarrow> (Some found, interrupt, conflicting)
          | Some seen \<Rightarrow> if seen = found then (bus, interrupt, conflicting) else (bus, interrupt, True))
     | Gpio found \<Rightarrow> if interrupt = None then (bus, Some found, conflicting) else (bus, interrupt, conflicting)
     | _ \<Rightarrow> (bus, interrupt, conflicting))"

definition survey_buffer :: "survey \<Rightarrow> u8 list \<Rightarrow> bool \<times> survey" where
  "survey_buffer s buffer =
     (let s' = fold survey_entry (resources buffer) s in (\<not> snd (snd s'), s'))"

definition seg_CRS :: nameseg where "seg_CRS = [0x5F, 0x43, 0x52, 0x53]"
definition seg_DSM :: nameseg where "seg_DSM = [0x5F, 0x44, 0x53, 0x4D]"

definition declared_resources :: "u8 list \<Rightarrow> acpi_device \<Rightarrow> (device_resources \<times> provenance) option" where
  "declared_resources code d =
     (case do {
        template \<leftarrow> do { crs \<leftarrow> evaluate code d seg_CRS []; value_bytes crs code };
        bus \<leftarrow> find_map as_i2c (resources template);
        Some (\<lparr>res_bus = bus, res_interrupt = find_map as_gpio (resources template)\<rparr>, Crs)
      } of
        Some r \<Rightarrow> Some r
      | None \<Rightarrow>
          (case for_each_declared_buffer survey_buffer code d (None, None, False) of
             (bus, interrupt, conflicting) \<Rightarrow>
               if conflicting then None
               else do { bus \<leftarrow> bus; Some (\<lparr>res_bus = bus, res_interrupt = interrupt\<rparr>, DeclaredBuffers) }))"

section \<open>Searches\<close>

definition gpio_communities :: "u8 list \<Rightarrow> path \<Rightarrow> memory_region list \<Rightarrow> memory_region list \<times> nat" where
  "gpio_communities code controller out =
     (case for_each_device (\<lambda>candidate found.
          if path_ends_with (dev_path candidate) controller then (False, Some candidate) else (True, found)) code None of
        None \<Rightarrow> (out, 0)
      | Some d \<Rightarrow>
          if \<not> present code d then (out, 0)
          else (case Option.bind (evaluate code d seg_CRS []) (\<lambda>crs. value_bytes crs code) of
              None \<Rightarrow> (out, 0)
            | Some template \<Rightarrow>
                fold (\<lambda>r (out, written).
                    if written = length out then (out, written)
                    else (case r of
                        Memory region \<Rightarrow>
                          if mem_writable region then (out[written := region], written + 1) else (out, written)
                      | _ \<Rightarrow> (out, written)))
                  (resources template) (out, 0)))"

definition I2C_HID_CID :: "u8 list" where
  "I2C_HID_CID = [0x50, 0x4E, 0x50, 0x30, 0x43, 0x35, 0x30]"

definition I2C_HID_DSM_UUID :: "u8 list" where
  "I2C_HID_DSM_UUID = [0xF7, 0xF6, 0xDF, 0x3C, 0x67, 0x42, 0x55, 0x45, 0xAD, 0x05, 0xB3, 0x0A, 0x3D, 0x89, 0x38, 0xDE]"

definition i2c_hid_count :: "u8 list \<Rightarrow> nat" where
  "i2c_hid_count code =
     for_each_device (\<lambda>d count.
       (True, if device_is d I2C_HID_CID \<and> present code d then count + 1 else count)) code 0"

definition find_bytes :: "u8 list \<Rightarrow> u8 list \<Rightarrow> nat option" where
  "find_bytes haystack needle =
     (if needle = [] \<or> length haystack < length needle then None
      else iter_position (\<lambda>i. take (length needle) (drop i haystack) = needle)
             [0..<length haystack - length needle + 1])"

definition i2c_hid_descriptor_register :: "u8 list \<Rightarrow> acpi_device \<Rightarrow> u16 option" where
  "i2c_hid_descriptor_register code d =
     do {
       at \<leftarrow> find_bytes code I2C_HID_DSM_UUID;
       result \<leftarrow> evaluate code d seg_DSM
         [Buffer (span_new at (at + length I2C_HID_DSM_UUID)), Integer 1, Integer 1, Package (span_new 0 0)];
       case result of
         Integer register \<Rightarrow> if unat register < 2 ^ 16 then Some (ucast register) else None
       | _ \<Rightarrow> None
     }"

record i2c_hid_device =
  hid_path :: path
  hid_id :: "hardware_id option"
  hid_bus :: i2c_serial_bus
  descriptor_register :: "u16 option"
  hid_interrupt :: "gpio_interrupt option"
  hid_provenance :: provenance

definition nth_visit :: "u8 list \<Rightarrow> nat \<Rightarrow> acpi_device \<Rightarrow> nat \<times> acpi_device option \<Rightarrow> bool \<times> nat \<times> acpi_device option" where
  "nth_visit code index d = (\<lambda>(seen, chosen).
     if device_is d I2C_HID_CID \<and> present code d then
       if seen = index then (False, seen, Some d) else (True, seen + 1, chosen)
     else (True, seen, chosen))"

definition find_i2c_hid_nth :: "u8 list \<Rightarrow> nat \<Rightarrow> i2c_hid_device option" where
  "find_i2c_hid_nth code index =
     do {
       d \<leftarrow> snd (for_each_device (nth_visit code index) code (0, None));
       (found, prov) \<leftarrow> declared_resources code d;
       Some \<lparr>hid_path = dev_path d, hid_id = dev_hid d, hid_bus = res_bus found,
         descriptor_register = i2c_hid_descriptor_register code d,
         hid_interrupt = res_interrupt found, hid_provenance = prov\<rparr>
     }"

definition find_i2c_hid :: "u8 list \<Rightarrow> i2c_hid_device option" where
  "find_i2c_hid code = find_i2c_hid_nth code 0"

section \<open>The declared buffers as a list\<close>

function buffers_in :: "u8 list \<Rightarrow> nat \<Rightarrow> nat \<Rightarrow> u8 list list" where
  "buffers_in code e at =
     (if at < e then
        (case got (cur_byte code at) of
           None \<Rightarrow> []
         | Some (opcode, at1) \<Rightarrow>
             if opcode \<noteq> op_NAME then
               (case went (skip_object code opcode at1) of
                  None \<Rightarrow> []
                | Some at2 \<Rightarrow> buffers_in code e at2)
             else
               (case got (cur_name code at1) of
                  None \<Rightarrow> []
                | Some (_, at2) \<Rightarrow>
                    (case got (parse_data code at2) of
                       None \<Rightarrow> []
                     | Some (v, at3) \<Rightarrow>
                         (case v of
                            Buffer sp \<Rightarrow>
                              (case span_of sp code of
                                 None \<Rightarrow> []
                               | Some bytes \<Rightarrow> bytes # buffers_in code e at3)
                          | _ \<Rightarrow> buffers_in code e at3))))
      else [])"
  by pat_completeness auto

termination buffers_in
  by (relation "measure (\<lambda>(code, e, at). e - at)")
    (auto simp del: got_Some went_Some dest!: progress)

declare buffers_in.simps [simp del]

lemma declared_buffers_visit:
  "declared_buffers_loop (\<lambda>s b. visit b s) code e at s = snd (visit_list visit (buffers_in code e at) s)"
proof (induction code e at arbitrary: s rule: buffers_in.induct)
  case (1 code e at)
  show ?case
    by (subst declared_buffers_loop.simps, subst buffers_in.simps)
      (auto simp: 1 simp del: got_Some went_Some split: option.splits prod.splits aml_value.splits)
qed

definition declared_buffers :: "u8 list \<Rightarrow> acpi_device \<Rightarrow> u8 list list" where
  "declared_buffers code d = buffers_in code (sp_end (dev_body d)) (sp_start (dev_body d))"

interpretation buffer_walk: visiting "\<lambda>visit. for_each_declared_buffer (\<lambda>s b. visit b s) code d" "declared_buffers code d"
  for code d
  by unfold_locales (simp add: for_each_declared_buffer_def declared_buffers_def declared_buffers_visit)

section \<open>The survey of declared buffers\<close>

text \<open>What the survey of a list of descriptors comes to when no two bus descriptors differ.\<close>

lemma survey_conflict: "snd (snd s) \<Longrightarrow> snd (snd (survey_entry r s))"
  by (cases s) (auto simp: survey_entry_def split: resource.split option.split)

lemma survey_conflict_fold: "snd (snd s) \<Longrightarrow> snd (snd (fold survey_entry rs s))"
proof (induction rs arbitrary: s)
  case (Cons r rs)
  from Cons.IH [OF survey_conflict [OF Cons.prems]] show ?case by simp
qed simp

definition first_of :: "'a option \<Rightarrow> 'a option \<Rightarrow> 'a option" where
  "first_of a b = (case a of None \<Rightarrow> b | Some x \<Rightarrow> Some x)"

lemma survey_fold:
  assumes "\<not> snd (snd (fold survey_entry rs (bus, irq, False)))"
  shows "fold survey_entry rs (bus, irq, False) =
      (first_of bus (find_map as_i2c rs), first_of irq (find_map as_gpio rs), False) \<and>
    (\<forall>b. I2c b \<in> set rs \<longrightarrow> first_of bus (find_map as_i2c rs) = Some b)"
  using assms
proof (induction rs arbitrary: bus irq)
  case Nil
  then show ?case by (auto simp: first_of_def split: option.split)
next
  case (Cons r rs)
  obtain bus' irq' bad where s: "survey_entry r (bus, irq, False) = (bus', irq', bad)"
    by (cases "survey_entry r (bus, irq, False)")
  have bad: "\<not> bad" using Cons.prems survey_conflict_fold [of "(bus', irq', bad)" rs] by (cases bad) (simp_all add: s)
  have b: "bus' = first_of bus (as_i2c r)" "irq' = first_of irq (as_gpio r)"
    "\<forall>x. r = I2c x \<longrightarrow> bus' = Some x"
    using s bad by (auto simp: survey_entry_def as_i2c_def as_gpio_def first_of_def split: resource.splits option.splits if_splits)
  have "\<not> snd (snd (fold survey_entry rs (bus', irq', False)))" using Cons.prems bad by (simp add: s)
  from Cons.IH [OF this] b bad s show ?case
    by (auto simp: first_of_def split: option.split)
qed

lemma fold_concat: "fold (\<lambda>x. fold f (g x)) xs s = fold f (concat (map g xs)) s"
  by (induction xs arbitrary: s) simp_all

lemma survey_buffers:
  "for_each_declared_buffer survey_buffer code d (None, None, False) = (bus, irq, False) \<Longrightarrow>
     (let rs = concat (map resources (declared_buffers code d))
      in bus = find_map as_i2c rs \<and> irq = find_map as_gpio rs \<and> (\<forall>b. I2c b \<in> set rs \<longrightarrow> bus = Some b))"
proof -
  let ?visit = "\<lambda>b s. survey_buffer s b"
  let ?rs = "concat (map resources (declared_buffers code d))"
  assume r: "for_each_declared_buffer survey_buffer code d (None, None, False) = (bus, irq, False)"
  have v: "fst (?visit b s) \<longleftrightarrow> \<not> snd (snd (snd (?visit b s)))"
    "snd (snd s) \<Longrightarrow> snd (snd (snd (?visit b s)))" for b s
    by (simp_all add: survey_buffer_def Let_def survey_conflict_fold)
  have f: "fold (\<lambda>b s. snd (?visit b s)) (declared_buffers code d) s = fold survey_entry ?rs s" for s
    by (simp add: survey_buffer_def Let_def fold_concat)
  have "fold survey_entry ?rs (None, None, False) = (bus, irq, False)"
    using buffer_walk.stops_when_bad(1) [of ?visit "\<lambda>s. snd (snd s)" code d "(None, None, False)"] v r f by simp
  with survey_fold [of ?rs None None] show ?thesis by (auto simp: first_of_def)
qed

section \<open>Resource templates\<close>

definition large_bytes :: "u8 \<Rightarrow> u8 list \<Rightarrow> u8 list" where
  "large_bytes kind body = (0x80 OR kind) # le_bytes 2 (of_nat (length body) :: u16) @ body"

lemma field_at_holds:
  fixes w :: "'w::len word"
  assumes "holds xs at (le_bytes n w)" "unat w < 2 ^ (8 * n)"
  shows "field_at xs at n = Some w"
  using assms by (simp add: field_at_def holds_def le_word_le_bytes_less)

lemma next_resource_large:
  assumes "holds buffer at (large_bytes kind body)" "kind < 0x80" "length body < 2 ^ 16"
  shows "next_resource buffer at = Some (decode_large kind body (large_bytes kind body), at + length (large_bytes kind body))"
proof -
  have u: "unat (of_nat (length body) :: u16) = length body"
    using assms(3) by (simp add: unsigned_of_nat take_bit_nat_eq_self)
  have h: "at < length buffer" "buffer ! at = 0x80 OR kind" "holds buffer (at + 1) (le_bytes 2 (of_nat (length body) :: u16))"
    "holds buffer (at + 3) body"
  proof -
    have "holds buffer at ([0x80 OR kind] @ le_bytes 2 (of_nat (length body) :: u16) @ body)"
      using assms(1) by (simp add: large_bytes_def)
    note parts = this [unfolded holds_append]
    show "at < length buffer" "buffer ! at = 0x80 OR kind" using parts by (simp_all add: holds_Cons)
    show "holds buffer (at + 1) (le_bytes 2 (of_nat (length body) :: u16))" using parts by simp
    have "at + length [0x80 OR kind] + length (le_bytes 2 (of_nat (length body) :: u16)) = at + 3" by simp
    with parts show "holds buffer (at + 3) body" by metis
  qed
  have k: "(0x80 OR kind) AND 0x80 \<noteq> 0" "(0x80 OR kind) AND 0x7F = kind"
  proof -
    have "unat kind < 2 ^ 7" using assms(2) by (simp add: word_less_nat_alt)
    then have b: "take_bit 7 kind = kind" by (rule take_bit_small)
    have m: "(0x7F :: u8) = mask 7" by (simp add: mask_eq_exp_minus_1)
    show "(0x80 OR kind) AND 0x7F = kind"
      by (simp only: word_ao_dist m flip: take_bit_eq_mask) (simp add: b)
    have "bit ((0x80 OR kind) AND 0x80 :: u8) 7" by (simp add: bit_and_iff bit_or_iff)
    then show "(0x80 OR kind) AND 0x80 \<noteq> 0" by auto
  qed
  have len: "field_at buffer (at + 1) 2 = Some (of_nat (length body) :: u16)"
    using h(3) by (rule field_at_holds) (use u assms(3) in simp)
  have body: "get_range buffer (at + 3) (at + 3 + length body) = Some body" using h(4) by (simp add: holds_def)
  have n: "at + length (large_bytes kind body) = at + 3 + length body" by (simp add: large_bytes_def)
  have whole: "get_range buffer at (at + 3 + length body) = Some (large_bytes kind body)"
    using assms(1) unfolding holds_def n .
  have tag: "get_at buffer at = Some (0x80 OR kind)" using h(1,2) by simp
  show ?thesis
    unfolding next_resource_def n
    by (simp only: tag len body whole u k bind.bind_lunit if_False not_False_eq_True simp_thms)
qed

lemma resources_large:
  assumes "holds buffer at (concat (map (\<lambda>(kind, body). large_bytes kind body) ds) @ [0x79])"
    and "\<forall>(kind, body)\<in>set ds. kind < 0x80 \<and> length body < 2 ^ 16"
  shows "resources_from buffer at = map (\<lambda>(kind, body). decode_large kind body (large_bytes kind body)) ds"
  using assms
proof (induction ds arbitrary: at)
  case Nil
  then have "get_at buffer at = Some 0x79" by (simp add: holds_Cons)
  then have "next_resource buffer at = None" by (simp only: next_resource_def bind.bind_lunit) (simp add: SMALL_END_TAG_def)
  then show ?case by (simp add: resources_from.simps)
next
  case (Cons d ds)
  obtain kind body where d: "d = (kind, body)" by fastforce
  with Cons.prems have "next_resource buffer at =
      Some (decode_large kind body (large_bytes kind body), at + length (large_bytes kind body))"
    by (intro next_resource_large) simp_all
  with Cons d show ?case by (subst resources_from.simps) simp
qed

text \<open>An I2C bus descriptor, with a rendered and null-terminated controller path.\<close>

definition i2c_body :: "u32 \<Rightarrow> u16 \<Rightarrow> bool \<Rightarrow> u8 list \<Rightarrow> u8 list" where
  "i2c_body speed address ten source =
     [1, 0, SERIAL_BUS_I2C, 2] @ le_bytes 2 (if ten then 1 else 0 :: u16) @ [1] @ le_bytes 2 (6 :: u16) @
       le_bytes 4 speed @ le_bytes 2 address @ source"

lemma parse_i2c_body:
  "parse_i2c_serial_bus (i2c_body speed address ten source) =
     Some \<lparr>slave_address = address, connection_speed = speed, ten_bit = ten,
       bus_controller = (case parse_path source of Some p \<Rightarrow> p | None \<Rightarrow> path_root)\<rparr>"
proof -
  let ?b = "i2c_body speed address ten source"
  have l: "length ?b = 15 + length source" by (simp add: i2c_body_def)
  have whole: "holds ?b 0 ?b" by (simp add: holds_iff)
  have h: "holds ?b 4 (le_bytes 2 (if ten then 1 else 0 :: u16))" "holds ?b 7 (le_bytes 2 (6 :: u16))"
    "holds ?b 9 (le_bytes 4 speed)" "holds ?b 13 (le_bytes 2 address)"
    using whole unfolding i2c_body_def by (simp_all add: holds_iff numeral_eq_Suc)
  have f: "field_at ?b 4 2 = Some (if ten then 1 else 0 :: u16)" "field_at ?b 7 2 = Some (6 :: u16)"
    "field_at ?b 9 4 = Some speed" "field_at ?b 13 2 = Some address"
    using h unsigned_less [of speed] unsigned_less [of address] by (auto intro!: field_at_holds)
  have s: "source_path ?b 15 = (case parse_path source of Some p \<Rightarrow> p | None \<Rightarrow> path_root)"
    by (simp add: source_path_def get_from_def l) (simp add: i2c_body_def numeral_eq_Suc)
  have t: "get_at ?b 2 = Some SERIAL_BUS_I2C" by (simp add: l) (simp add: i2c_body_def)
  show ?thesis
    using t l by (simp add: parse_i2c_serial_bus_def f s)
qed

section \<open>Properties\<close>

text \<open>
  Resource templates read back: a template of I2C bus descriptors decodes to exactly those descriptors
  in order, with the address, the speed, the addressing mode and the controller each was written with,
  whatever the lengths of the controller names.
\<close>

theorem i2c_template_reads_back:
  assumes "\<forall>(speed, address, ten, source)\<in>set buses. length source < 60000"
  shows "resources (concat (map (\<lambda>(speed, address, ten, source). large_bytes LARGE_SERIAL_BUS (i2c_body speed address ten source)) buses) @ [0x79]) =
    map (\<lambda>(speed, address, ten, source). I2c \<lparr>slave_address = address, connection_speed = speed, ten_bit = ten,
       bus_controller = (case parse_path source of Some p \<Rightarrow> p | None \<Rightarrow> path_root)\<rparr>) buses"
proof -
  let ?ds = "map (\<lambda>(speed, address, ten, source). (LARGE_SERIAL_BUS, i2c_body speed address ten source)) buses"
  let ?bytes = "concat (map (\<lambda>(kind, body). large_bytes kind body) ?ds) @ [0x79]"
  have h: "holds ?bytes 0 ?bytes" using holds_slice [of "[]" ?bytes "[]"] by simp
  have ok: "\<forall>(kind, body)\<in>set ?ds. kind < 0x80 \<and> length body < 2 ^ 16"
    using assms by (auto simp: i2c_body_def LARGE_SERIAL_BUS_def)
  have "resources ?bytes = map (\<lambda>(kind, body). decode_large kind body (large_bytes kind body)) ?ds"
    unfolding resources_def by (rule resources_large [OF h ok])
  then show ?thesis
    by (simp add: comp_def case_prod_unfold decode_large_def parse_i2c_body)
qed

definition touchpad_template :: "u8 list" where
  "touchpad_template =
     large_bytes LARGE_SERIAL_BUS (i2c_body 400000 0x15 False [0x5C, 0x49, 0x32, 0x43, 0x31, 0]) @ [0x79]"

lemma i2c_template_reads_back_witness:
  "resources touchpad_template =
     [I2c \<lparr>slave_address = 0x15, connection_speed = 400000, ten_bit = False,
        bus_controller = snd (path_push [0x49, 0x32, 0x43, 0x31] path_root)\<rparr>]"
proof -
  have "parse_path [0x5C, 0x49, 0x32, 0x43, 0x31, 0] = Some (snd (path_push [0x49, 0x32, 0x43, 0x31] path_root))"
    by code_simp
  then show ?thesis
    using i2c_template_reads_back [of "[(400000, 0x15, False, [0x5C, 0x49, 0x32, 0x43, 0x31, 0])]"]
    by (simp add: touchpad_template_def)
qed


text \<open>A table with one device, \<open>PAD0\<close>, that declares the template in a buffer and has no \<open>_CRS\<close>.\<close>

definition touchpad_table :: "u8 list" where
  "touchpad_table = replicate 36 0 @ [0x5B, 0x82, 0x27, 0x50, 0x41, 0x44, 0x30,
     0x08, 0x42, 0x55, 0x46, 0x41, 0x11, 0x1C, 0x0A, 0x19] @ touchpad_template"


lemma i2c_hid_nth:
  "let pads = filter (\<lambda>d. device_is d I2C_HID_CID \<and> present code d) (all_devices code)
   in i2c_hid_count code = length pads \<and>
      find_i2c_hid_nth code index =
        (if index < length pads then
           map_option (\<lambda>(found, prov). \<lparr>hid_path = dev_path (pads ! index), hid_id = dev_hid (pads ! index),
               hid_bus = res_bus found, descriptor_register = i2c_hid_descriptor_register code (pads ! index),
               hid_interrupt = res_interrupt found, hid_provenance = prov\<rparr>)
             (declared_resources code (pads ! index))
         else None)"
proof -
  let ?pad = "\<lambda>d. device_is d I2C_HID_CID \<and> present code d"
  let ?pads = "filter ?pad (all_devices code)"
  have "fold (\<lambda>d n. if ?pad d then n + 1 else n) ds n = n + length (filter ?pad ds)" for ds n
    by (induction ds arbitrary: n) simp_all
  then have count: "i2c_hid_count code = length ?pads"
    unfolding i2c_hid_count_def by (subst device_walk.visits_everything) simp_all
  have "snd (snd (visit_list (nth_visit code index) ds (seen, None))) =
      (if index - seen < length (filter ?pad ds) then Some (filter ?pad ds ! (index - seen)) else None)"
    if "seen \<le> index" for ds seen
    using that
  proof (induction ds arbitrary: seen)
    case (Cons d ds)
    show ?case
    proof (cases "?pad d \<and> seen \<noteq> index")
      case True
      with Cons.prems have "Suc seen \<le> index" "index - seen = Suc (index - Suc seen)" by linarith+
      with True Cons.IH [of "Suc seen"] show ?thesis by (simp add: nth_visit_def)
    next
      case False
      with Cons show ?thesis by (auto simp: nth_visit_def)
    qed
  qed simp
  from this [of 0] have "snd (for_each_device (nth_visit code index) code (0, None)) =
      (if index < length ?pads then Some (?pads ! index) else None)"
    by (simp add: device_walk.visits)
  then show ?thesis
    unfolding Let_def find_i2c_hid_nth_def using count by (simp add: map_option_case split: option.split)
qed

text \<open>
  C30. The touchpads of a table are numbered by the walk: the count is the number of present devices that
  answer to the I2C-HID identifier, and the device with a given index is that one of the enumeration, with
  nothing for an index past the last.
\<close>

theorem i2c_hid_enumeration:
  "let pads = filter (\<lambda>d. device_is d I2C_HID_CID \<and> present code d) (all_devices code)
   in i2c_hid_count code = length pads \<and>
      find_i2c_hid_nth code index =
        (if index < length pads then
           map_option (\<lambda>(found, prov). \<lparr>hid_path = dev_path (pads ! index), hid_id = dev_hid (pads ! index),
               hid_bus = res_bus found, descriptor_register = i2c_hid_descriptor_register code (pads ! index),
               hid_interrupt = res_interrupt found, hid_provenance = prov\<rparr>)
             (declared_resources code (pads ! index))
         else None)"
  by (rule i2c_hid_nth)

end
