(* ===== verification/Aml_Terms.thy ===== *)
theory Aml_Terms
  imports Aml_Interp
begin

text \<open>
  A reference semantics for the expressions of ACPI Machine Language, against which the byte-level
  routines of \<open>crates/nanochrono-core/src/aml.rs\<close> are compared: abstract terms with their
  encoding, what stepping over an encoded term has to do, and what evaluating it has to give.
\<close>

section \<open>Abstract terms\<close>

datatype target = Discard | ToLocal nat | ToArg nat

datatype aterm =
    TConst u64
  | TLocal nat
  | TArg nat
  | TBinary u8 aterm aterm target
  | TCompare u8 aterm aterm
  | TNot aterm
  | TStore aterm target
  | TStep bool target
  | TToInteger aterm target

abbreviation binary_ops :: "u8 set" where
  "binary_ops \<equiv> {op_ADD, op_SUBTRACT, op_AND, op_OR, op_XOR, op_NAND, op_NOR, op_SHIFT_LEFT, op_SHIFT_RIGHT}"

abbreviation compare_ops :: "u8 set" where
  "compare_ops \<equiv> {op_LAND, op_LOR, op_LEQUAL, op_LGREATER, op_LLESS}"

fun wf_target :: "target \<Rightarrow> bool" where
  "wf_target Discard \<longleftrightarrow> True"
| "wf_target (ToLocal i) \<longleftrightarrow> i < 8"
| "wf_target (ToArg i) \<longleftrightarrow> i < 7"

fun wf_term :: "aterm \<Rightarrow> bool" where
  "wf_term (TConst n) \<longleftrightarrow> True"
| "wf_term (TLocal i) \<longleftrightarrow> i < 8"
| "wf_term (TArg i) \<longleftrightarrow> i < 7"
| "wf_term (TBinary op l r t) \<longleftrightarrow> op \<in> binary_ops \<and> wf_term l \<and> wf_term r \<and> wf_target t"
| "wf_term (TCompare op l r) \<longleftrightarrow> op \<in> compare_ops \<and> wf_term l \<and> wf_term r"
| "wf_term (TNot e) \<longleftrightarrow> wf_term e"
| "wf_term (TStore e t) \<longleftrightarrow> wf_term e \<and> wf_target t"
| "wf_term (TStep up t) \<longleftrightarrow> t \<noteq> Discard \<and> wf_target t"
| "wf_term (TToInteger e t) \<longleftrightarrow> wf_term e \<and> wf_target t"

text \<open>The shortest of the constant forms, as a compiler emits it.\<close>

definition const_bytes :: "u64 \<Rightarrow> u8 list" where
  "const_bytes n =
     (if n = 0 then [op_ZERO] else if n = 1 then [op_ONE] else if n = - 1 then [op_ONES]
      else if n < 0x100 then op_BYTE_PREFIX # le_bytes 1 n
      else if n < 0x10000 then op_WORD_PREFIX # le_bytes 2 n
      else if n < 0x100000000 then op_DWORD_PREFIX # le_bytes 4 n
      else op_QWORD_PREFIX # le_bytes 8 n)"

fun target_bytes :: "target \<Rightarrow> u8 list" where
  "target_bytes Discard = [op_ZERO]"
| "target_bytes (ToLocal i) = [op_LOCAL0 + of_nat i]"
| "target_bytes (ToArg i) = [op_ARG0 + of_nat i]"

fun term_bytes :: "aterm \<Rightarrow> u8 list" where
  "term_bytes (TConst n) = const_bytes n"
| "term_bytes (TLocal i) = [op_LOCAL0 + of_nat i]"
| "term_bytes (TArg i) = [op_ARG0 + of_nat i]"
| "term_bytes (TBinary op l r t) = [op] @ term_bytes l @ term_bytes r @ target_bytes t"
| "term_bytes (TCompare op l r) = [op] @ term_bytes l @ term_bytes r"
| "term_bytes (TNot e) = [op_LNOT] @ term_bytes e"
| "term_bytes (TStore e t) = [op_STORE] @ term_bytes e @ target_bytes t"
| "term_bytes (TStep up t) = [if up then op_INCREMENT else op_DECREMENT] @ target_bytes t"
| "term_bytes (TToInteger e t) = [op_TO_INTEGER] @ term_bytes e @ target_bytes t"

section \<open>Meaning\<close>

fun assign :: "target \<Rightarrow> aml_value \<Rightarrow> interp \<Rightarrow> interp" where
  "assign Discard v st = st"
| "assign (ToLocal i) v st = st\<lparr>in_locals := (in_locals st)[i := v]\<rparr>"
| "assign (ToArg i) v st = st\<lparr>in_args := (in_args st)[i := v]\<rparr>"

fun target_value :: "target \<Rightarrow> interp \<Rightarrow> aml_value" where
  "target_value Discard st = Integer 0"
| "target_value (ToLocal i) st = in_locals st ! i"
| "target_value (ToArg i) st = in_args st ! i"

definition compare_values :: "u8 list \<Rightarrow> u8 \<Rightarrow> aml_value \<Rightarrow> aml_value \<Rightarrow> bool option" where
  "compare_values code op l r =
     (if op = op_LAND then Some (truthy l \<and> truthy r)
      else if op = op_LOR then Some (truthy l \<or> truthy r)
      else if op = op_LEQUAL then Some (equal_values code l r)
      else do {
        a \<leftarrow> value_integer l;
        b \<leftarrow> value_integer r;
        Some (if op = op_LGREATER then a > b else a < b)
      })"

text \<open>The integer comparisons refuse a left operand that is no integer before the right one runs.\<close>

fun meaning :: "u8 list \<Rightarrow> aterm \<Rightarrow> interp \<Rightarrow> (aml_value \<times> interp) option" where
  "meaning code (TConst n) st = Some (Integer n, st)"
| "meaning code (TLocal i) st = Some (in_locals st ! i, st)"
| "meaning code (TArg i) st = Some (in_args st ! i, st)"
| "meaning code (TBinary op l r t) st =
     do {
       (lv, st) \<leftarrow> meaning code l st;
       a \<leftarrow> value_integer lv;
       (rv, st) \<leftarrow> meaning code r st;
       b \<leftarrow> value_integer rv;
       Some (Integer (arithmetic op a b), assign t (Integer (arithmetic op a b)) st)
     }"
| "meaning code (TCompare op l r) st =
     do {
       (lv, st) \<leftarrow> meaning code l st;
       (rv, st) \<leftarrow> meaning code r st;
       b \<leftarrow> compare_values code op lv rv;
       Some (boolean b, st)
     }"
| "meaning code (TNot e) st = do { (v, st) \<leftarrow> meaning code e st; Some (boolean (\<not> truthy v), st) }"
| "meaning code (TStore e t) st = do { (v, st) \<leftarrow> meaning code e st; Some (v, assign t v st) }"
| "meaning code (TStep up t) st =
     do {
       a \<leftarrow> value_integer (target_value t st);
       let v = Integer (if up then a + 1 else a - 1);
       Some (v, assign t v st)
     }"
| "meaning code (TToInteger e t) st =
     do {
       (v, st) \<leftarrow> meaning code e st;
       n \<leftarrow> value_to_integer code v;
       Some (Integer n, assign t (Integer n) st)
     }"

text \<open>How many expressions an evaluation enters.\<close>

fun cost :: "aterm \<Rightarrow> nat" where
  "cost (TConst n) = 1"
| "cost (TLocal i) = 1"
| "cost (TArg i) = 1"
| "cost (TBinary op l r t) = 1 + cost l + cost r"
| "cost (TCompare op l r) = 1 + cost l + cost r"
| "cost (TNot e) = 1 + cost e"
| "cost (TStore e t) = 1 + cost e"
| "cost (TStep up t) = 2"
| "cost (TToInteger e t) = 1 + cost e"

section \<open>Reading the encodings\<close>

lemma local_byte [simp]: "i < 8 \<Longrightarrow> is_local (op_LOCAL0 + of_nat i)" "i < 8 \<Longrightarrow> unat (of_nat i :: u8) = i"
  "i < 8 \<Longrightarrow> op_LOCAL0 + of_nat i \<noteq> op_ZERO"
  by (auto dest!: below_8)

lemma arg_byte [simp]: "i < 7 \<Longrightarrow> is_arg (op_ARG0 + of_nat i)" "i < 7 \<Longrightarrow> \<not> is_local (op_ARG0 + of_nat i)"
  "i < 7 \<Longrightarrow> op_ARG0 + of_nat i \<noteq> op_ZERO"
  using below_8 [of i] by (auto split: if_splits)

lemma cur_peek_holds: "holds code at (b # bs) \<Longrightarrow> cur_peek code at = Some b"
  by (simp add: cur_peek_def holds_Cons)

lemma cur_integer_holds:
  assumes "holds code at (le_bytes n w)" "unat w < 2 ^ (8 * n)"
  shows "cur_integer n code at = (Some w, at + n)"
  using assms by (simp add: cur_integer_def cur_take_def holds_def then_read_def le_word_le_bytes_less)

lemma parse_data_const:
  assumes "holds code at (const_bytes n)"
  shows "parse_data code at = (Some (Integer n), at + length (const_bytes n))"
proof -
  have n: "unat n < 2 ^ (8 * 8)" using unsigned_less [of n] by simp
  show ?thesis
    using assms n unfolding const_bytes_def
    by (subst parse_data.simps)
      (auto simp: holds_Cons cur_byte_Some [THEN iffD2] then_read_def cur_integer_holds word_less_nat_alt simp del: le_bytes.simps
        split: if_splits)
qed

section \<open>Stepping over an encoded term\<close>

lemma const_bytes_lead:
  "\<exists>b bs. const_bytes n = b # bs \<and> b \<in> {op_ZERO, op_ONE, op_ONES, op_BYTE_PREFIX, op_WORD_PREFIX, op_DWORD_PREFIX, op_QWORD_PREFIX}"
  by (auto simp: const_bytes_def)

lemma skip_const:
  assumes "holds code at (const_bytes n)"
  shows "skip_term_arg code at = (True, at + length (const_bytes n))"
proof -
  obtain b bs where b: "const_bytes n = b # bs"
    "b \<in> {op_ZERO, op_ONE, op_ONES, op_BYTE_PREFIX, op_WORD_PREFIX, op_DWORD_PREFIX, op_QWORD_PREFIX}"
    using const_bytes_lead by blast
  then have peek: "cur_peek code at = Some b" using assms by (auto intro: cur_peek_holds)
  from b(2) have op: "\<not> (is_local b \<or> is_arg b)" "b \<noteq> op_EXT_PREFIX" "arity b = None" "\<not> is_name_lead b"
    by (auto simp: arity_def is_name_lead_def word_le_nat_alt)
  have "skip_term_arg code at = skip_data code at"
    unfolding skip_term_arg_eq [of code at] skip_term_arg_step_def peek option.case if_not_P [OF op(1)]
      if_not_P [OF op(2)] op(3) if_not_P [OF op(4)] ..
  then show ?thesis by (simp add: skip_data_def some_def parse_data_const [OF assms])
qed

lemma skip_local_arg:
  assumes "holds code at [b]" "is_local b \<or> is_arg b"
  shows "skip_term_arg code at = (True, at + 1)"
  using assms(2) by (subst skip_term_arg_eq) (simp add: skip_term_arg_step_def cur_peek_holds [OF assms(1)])

lemma skip_target_bytes:
  assumes "wf_target t" "holds code at (target_bytes t)"
  shows "skip_target_with f code at = (True, at + length (target_bytes t))"
  using assms by (cases t) (auto simp: skip_target_with_def cur_peek_holds)

lemma skip_operator:
  assumes "cur_peek code at = Some op" "arity op = Some (n, target)" "op \<noteq> op_EXT_PREFIX" "\<not> (is_local op \<or> is_arg op)"
    and "repeat_skip n (skip_term_arg code) (at + 1) = (True, at1)"
    and "target \<Longrightarrow> skip_target_with (skip_term_arg code) code at1 = (True, at2)" "\<not> target \<Longrightarrow> at2 = at1"
  shows "skip_term_arg code at = (True, at2)"
proof -
  have "skip_term_arg_step (skip_term_arg code) code at = (True, at2)"
    unfolding skip_term_arg_step_def assms(1) option.case if_not_P [OF assms(4)] if_not_P [OF assms(3)] assms(2) prod.case assms(5)
    using assms(6,7) by (simp add: and_then_def)
  then show ?thesis by (simp add: skip_term_arg_eq [symmetric])
qed

lemma skip_encoded:
  assumes "wf_term t" "holds code at (term_bytes t)"
  shows "skip_term_arg code at = (True, at + length (term_bytes t))"
  using assms
proof (induction t arbitrary: at)
  case (TConst n)
  then show ?case by (simp add: skip_const)
next
  case (TLocal i)
  then show ?case using skip_local_arg [of code at] by simp
next
  case (TArg i)
  then show ?case using skip_local_arg [of code at] by simp
next
  case (TBinary op l r t)
  then have "arity op = Some (2, True)" "op \<noteq> op_EXT_PREFIX" "\<not> (is_local op \<or> is_arg op)"
    by (auto simp: arity_def)
  then show ?case using TBinary
    by (intro skip_operator [of _ _ op 2 True "at + 1 + length (term_bytes l) + length (term_bytes r)"])
      (auto simp: cur_peek_holds holds_Cons numeral_2_eq_2 and_then_def skip_target_bytes)
next
  case (TCompare op l r)
  then have "arity op = Some (2, False)" "op \<noteq> op_EXT_PREFIX" "\<not> (is_local op \<or> is_arg op)"
    by (auto simp: arity_def)
  then show ?case using TCompare
    by (intro skip_operator [of _ _ op 2 False "at + 1 + length (term_bytes l) + length (term_bytes r)"])
      (auto simp: cur_peek_holds holds_Cons numeral_2_eq_2 and_then_def)
next
  case (TNot e)
  then show ?case
    by (intro skip_operator [of _ _ op_LNOT 1 False "at + 1 + length (term_bytes e)"])
      (auto simp: cur_peek_holds holds_Cons arity_def and_then_def)
next
  case (TStore e t)
  then show ?case
    by (intro skip_operator [of _ _ op_STORE 1 True "at + 1 + length (term_bytes e)"])
      (auto simp: cur_peek_holds holds_Cons arity_def and_then_def skip_target_bytes)
next
  case (TStep up t)
  have "skip_term_arg code (at + 1) = (True, at + 2)"
    using TStep skip_local_arg [of code "at + 1"] by (cases t) (auto simp: holds_Cons)
  then show ?case using TStep
    by (cases t; intro skip_operator [of _ _ "if up then op_INCREMENT else op_DECREMENT" 1 False "at + 2"])
      (auto simp: cur_peek_def holds_Cons arity_def and_then_def)
next
  case (TToInteger e t)
  then show ?case
    by (intro skip_operator [of _ _ op_TO_INTEGER 1 True "at + 1 + length (term_bytes e)"])
      (auto simp: cur_peek_holds holds_Cons arity_def and_then_def skip_target_bytes)
qed

section \<open>Evaluating an encoded term\<close>

text \<open>One entry into the evaluator, per form of the term.\<close>

abbreviation budgeted :: "interp \<Rightarrow> nat \<Rightarrow> interp" where
  "budgeted st b \<equiv> st\<lparr>in_budget := b\<rparr>"

lemma spend_budgeted [simp]: "spend (budgeted st (Suc b)) = Some (budgeted st b)"
  by (simp add: spend_def)

lemma eval_enter:
  assumes "cur_peek code at = Some op"
  shows "eval code at (budgeted st (Suc b)) = eval_step (\<lambda>p s. eval code p s) code at (budgeted st (Suc b))"
  by (rule eval_eq)

lemma eval_const:
  assumes "holds code at (const_bytes n)"
  shows "eval code at (budgeted st (Suc b)) = Some (Integer n, at + length (const_bytes n), budgeted st b)"
proof -
  obtain c bs where c: "const_bytes n = c # bs"
    "c \<in> {op_ZERO, op_ONE, op_ONES, op_BYTE_PREFIX, op_WORD_PREFIX, op_DWORD_PREFIX, op_QWORD_PREFIX}"
    using const_bytes_lead by blast
  then have "cur_peek code at = Some c" using assms by (auto intro: cur_peek_holds)
  moreover from c(2) have "c \<in> {op_ZERO, op_ONE, op_ONES, op_BYTE_PREFIX, op_WORD_PREFIX, op_DWORD_PREFIX,
           op_QWORD_PREFIX, op_STRING_PREFIX, op_BUFFER, op_PACKAGE, op_VAR_PACKAGE}" by blast
  ultimately show ?thesis
    by (subst eval_eq) (simp only: eval_step_def spend_budgeted bind.bind_lunit if_True parse_data_const [OF assms], simp add: got_def)
qed

lemma eval_arg:
  assumes "cur_peek code at = Some op" "is_arg op"
  shows "eval code at (budgeted st (Suc b)) = Some (in_args st ! unat (op - op_ARG0), at + 1, budgeted st b)"
proof -
  from assms(2) have "op \<notin> {op_ZERO, op_ONE, op_ONES, op_BYTE_PREFIX, op_WORD_PREFIX, op_DWORD_PREFIX,
           op_QWORD_PREFIX, op_STRING_PREFIX, op_BUFFER, op_PACKAGE, op_VAR_PACKAGE}"
    by (auto simp: word_le_nat_alt)
  with assms show ?thesis
    by (subst eval_eq) (simp only: eval_step_def spend_budgeted bind.bind_lunit if_False if_True, simp)
qed

lemma eval_local:
  assumes "cur_peek code at = Some op" "is_local op"
  shows "eval code at (budgeted st (Suc b)) = Some (in_locals st ! unat (op - op_LOCAL0), at + 1, budgeted st b)"
proof -
  from assms(2) have "op \<notin> {op_ZERO, op_ONE, op_ONES, op_BYTE_PREFIX, op_WORD_PREFIX, op_DWORD_PREFIX,
           op_QWORD_PREFIX, op_STRING_PREFIX, op_BUFFER, op_PACKAGE, op_VAR_PACKAGE}" "\<not> is_arg op"
    by (auto simp: word_le_nat_alt)
  with assms show ?thesis
    by (subst eval_eq) (simp only: eval_step_def spend_budgeted bind.bind_lunit if_False if_True, simp)
qed

lemma eval_binary:
  assumes "cur_peek code at = Some op" "op \<in> binary_ops"
  shows "eval code at (budgeted st (Suc b)) =
    do {
      (l, at, st) \<leftarrow> eval_integer (eval code) (at + 1) (budgeted st b);
      (r, at, st) \<leftarrow> eval_integer (eval code) at st;
      stored code at (Integer (arithmetic op l r)) st
    }"
  using assms(2)
  by (subst eval_eq) (simp add: eval_step_def assms(1), elim disjE; simp)

lemma eval_compare:
  assumes "cur_peek code at = Some op" "op \<in> {op_LGREATER, op_LLESS}"
  shows "eval code at (budgeted st (Suc b)) =
    do {
      (l, at, st) \<leftarrow> eval_integer (eval code) (at + 1) (budgeted st b);
      (r, at, st) \<leftarrow> eval_integer (eval code) at st;
      Some (boolean (if op = op_LGREATER then l > r else l < r), at, st)
    }"
  using assms(2)
  by (subst eval_eq) (simp add: eval_step_def assms(1), elim disjE; simp)

lemma eval_logical:
  assumes "cur_peek code at = Some op" "op \<in> {op_LAND, op_LOR, op_LEQUAL}"
  shows "eval code at (budgeted st (Suc b)) =
    do {
      (l, at, st) \<leftarrow> eval code (at + 1) (budgeted st b);
      (r, at, st) \<leftarrow> eval code at st;
      Some (boolean (if op = op_LAND then truthy l \<and> truthy r else if op = op_LOR then truthy l \<or> truthy r
        else equal_values code l r), at, st)
    }"
  using assms(2)
  by (subst eval_eq) (simp add: eval_step_def assms(1), elim disjE; simp)

lemma eval_unary:
  "cur_peek code at = Some op_LNOT \<Longrightarrow> eval code at (budgeted st (Suc b)) =
     do { (v, at, st) \<leftarrow> eval code (at + 1) (budgeted st b); Some (boolean (\<not> truthy v), at, st) }"
  "cur_peek code at = Some op_STORE \<Longrightarrow> eval code at (budgeted st (Suc b)) =
     do { (v, at, st) \<leftarrow> eval code (at + 1) (budgeted st b); stored code at v st }"
  "cur_peek code at = Some op_TO_INTEGER \<Longrightarrow> eval code at (budgeted st (Suc b)) =
     do { (v, at, st) \<leftarrow> eval code (at + 1) (budgeted st b); n \<leftarrow> value_to_integer code v;
       stored code at (Integer n) st }"
  by (subst eval_eq; simp add: eval_step_def)+

lemma eval_step_form:
  assumes "cur_peek code at = Some (if up then op_INCREMENT else op_DECREMENT)"
  shows "eval code at (budgeted st (Suc b)) =
    do { (n, _, st) \<leftarrow> eval_integer (eval code) (at + 1) (budgeted st b);
      stored code (at + 1) (Integer (if up then n + 1 else n - 1)) st }"
  using assms by (subst eval_eq) (cases up; simp add: eval_step_def)

text \<open>What a target makes of a value.\<close>

lemma stored_target:
  assumes "wf_target t" "holds code at (target_bytes t)"
  shows "stored code at v (budgeted st b) = Some (v, at + length (target_bytes t), budgeted (assign t v st) b)"
  using assms by (cases t) (auto simp: stored_def store_def cur_peek_holds)

lemma eval_target:
  assumes "t \<noteq> Discard" "wf_target t" "holds code at (target_bytes t)"
  shows "eval code at (budgeted st (Suc b)) = Some (target_value t st, at + 1, budgeted st b)"
  using assms eval_local [of code at "op_LOCAL0 + of_nat i" for i] eval_arg [of code at "op_ARG0 + of_nat i" for i]
  by (cases t) (auto simp: cur_peek_holds)

lemmas option_laws = Option.bind_map_option map_option_bind comp_def case_prod_beta

lemma check_first:
  "Option.bind (value_integer a) (\<lambda>y. Option.bind m (k y)) =
     Option.bind m (\<lambda>x. Option.bind (value_integer a) (\<lambda>y. k y x))"
  by (cases "value_integer a") simp_all

lemma eval_encoded:
  assumes "wf_term t" "holds code at (term_bytes t)"
  shows "eval code at (budgeted st (b + cost t)) =
    map_option (\<lambda>(v, st'). (v, at + length (term_bytes t), budgeted st' b)) (meaning code t st)"
  using assms
proof (induction t arbitrary: at st b)
  case (TConst n)
  then show ?case by (simp add: eval_const)
next
  case (TLocal i)
  then show ?case using eval_local [where code = code and at = at and op = "op_LOCAL0 + of_nat i" and st = st and b = b] by (simp add: cur_peek_holds)
next
  case (TArg i)
  then show ?case using eval_arg [where code = code and at = at and op = "op_ARG0 + of_nat i" and st = st and b = b] by (simp add: cur_peek_holds)
next
  case (TBinary op l r t)
  let ?r = "at + 1 + length (term_bytes l)" and ?t = "at + 1 + length (term_bytes l) + length (term_bytes r)"
  have op: "cur_peek code at = Some op" "op \<in> binary_ops"
    and l: "eval code (at + 1) (budgeted st (b + cost r + cost l)) = map_option
      (\<lambda>(v, st'). (v, ?r, budgeted st' (b + cost r))) (meaning code l st)"
    and r: "eval code ?r (budgeted s (b + cost r)) = map_option
      (\<lambda>(v, st'). (v, ?t, budgeted st' b)) (meaning code r s)"
    and tb: "wf_target t" "holds code ?t (target_bytes t)" for s
    using TBinary by (simp_all add: cur_peek_def holds_Cons)
  note t = stored_target [OF tb]
  have c: "b + cost (TBinary op l r t) = Suc (b + cost r + cost l)"
    and n: "at + length (term_bytes (TBinary op l r t)) = ?t + length (target_bytes t)" by simp_all
  show ?case
    unfolding c n eval_binary [OF op] eval_integer_def l meaning.simps
    by (simp only: option_laws fst_conv snd_conv r t Option.bind_assoc bind.bind_lunit option.map)
next
  case (TCompare op l r)
  let ?r = "at + 1 + length (term_bytes l)" and ?e = "at + 1 + length (term_bytes l) + length (term_bytes r)"
  have op: "cur_peek code at = Some op" "op \<in> compare_ops"
    and l: "eval code (at + 1) (budgeted st (b + cost r + cost l)) = map_option
      (\<lambda>(v, st'). (v, ?r, budgeted st' (b + cost r))) (meaning code l st)"
    and r: "eval code ?r (budgeted s (b + cost r)) = map_option
      (\<lambda>(v, st'). (v, ?e, budgeted st' b)) (meaning code r s)" for s
    using TCompare by (simp_all add: cur_peek_def holds_Cons)
  have c: "b + cost (TCompare op l r) = Suc (b + cost r + cost l)"
    and n: "at + length (term_bytes (TCompare op l r)) = ?e" by simp_all
  show ?case
  proof (cases "op \<in> {op_LGREATER, op_LLESS}")
    case True
    then have v: "compare_values code op x y = Option.bind (value_integer x) (\<lambda>a.
        Option.bind (value_integer y) (\<lambda>b. Some (if op = op_LGREATER then a > b else a < b)))" for x y
      by (auto simp: compare_values_def)
    show ?thesis
      unfolding c n eval_compare [OF op(1) True] eval_integer_def l meaning.simps v
      by (simp only: option_laws fst_conv snd_conv r Option.bind_assoc bind.bind_lunit option.map)
        (rule Option.bind_cong [OF refl], clarsimp simp: option_laws, rule check_first)
  next
    case False
    then have log: "op \<in> {op_LAND, op_LOR, op_LEQUAL}" using op(2) by blast
    then have v: "compare_values code op x y = Some (if op = op_LAND then truthy x \<and> truthy y
        else if op = op_LOR then truthy x \<or> truthy y else equal_values code x y)" for x y
      by (auto simp: compare_values_def)
    show ?thesis
      unfolding c n eval_logical [OF op(1) log] l meaning.simps v
      by (simp only: option_laws fst_conv snd_conv r Option.bind_assoc bind.bind_lunit option.map)
  qed
next
  case (TNot e)
  with TNot.IH [of "at + 1"] show ?case
    by (simp add: holds_Cons eval_unary cur_peek_def option_laws)
next
  case (TStore e t)
  then have tb: "wf_target t" "holds code (Suc (at + length (term_bytes e))) (target_bytes t)"
    by (simp_all add: holds_Cons)
  from TStore TStore.IH [of "at + 1"] show ?case
    by (simp add: holds_Cons eval_unary cur_peek_def option_laws stored_target [OF tb] add.assoc)
next
  case (TStep up t)
  then have op: "cur_peek code at = Some (if up then op_INCREMENT else op_DECREMENT)"
    and tb: "t \<noteq> Discard" "wf_target t" "holds code (at + 1) (target_bytes t)"
    by (auto simp: holds_Cons cur_peek_def)
  have n: "length (target_bytes t) = 1" by (cases t) simp_all
  have c: "b + cost (TStep up t) = Suc (Suc b)" by simp
  show ?case
    unfolding c eval_step_form [OF op] eval_integer_def eval_target [OF tb]
    using stored_target [OF tb(2,3)] n by (simp add: option_laws Let_def cong del: if_weak_cong)
next
  case (TToInteger e t)
  then have tb: "wf_target t" "holds code (Suc (at + length (term_bytes e))) (target_bytes t)"
    by (simp_all add: holds_Cons)
  from TToInteger TToInteger.IH [of "at + 1"] show ?case
    by (simp add: holds_Cons eval_unary cur_peek_def option_laws stored_target [OF tb] add.assoc)
qed

section \<open>Properties\<close>


definition sample_term :: aterm where
  "sample_term = TBinary op_ADD (TLocal 0) (TBinary op_SHIFT_LEFT (TConst 0x1234) (TConst 4) Discard) (ToArg 2)"




end
