(* ===== verification/Aml_Programs.thy ===== *)
theory Aml_Programs
  imports Aml_Terms
begin

text \<open>
  A reference semantics for method bodies: structured statements with their encoding in packages, a
  big-step relation that counts what a run spends of the budget, and the proof that the interpreter of
  \<open>crates/nanochrono-core/src/aml.rs\<close> realises it.
\<close>

section \<open>Package lengths\<close>

text \<open>The encoding of a package around \<open>m\<close> bytes: the length counts its own bytes.\<close>

definition package_lead :: "nat \<Rightarrow> nat \<Rightarrow> u8" where
  "package_lead k n = push_bit 6 (of_nat k) OR of_nat (take_bit 4 n)"

definition length_bytes :: "nat \<Rightarrow> nat \<Rightarrow> u8 list" where
  "length_bytes k n = package_lead k n # map (\<lambda>i. of_nat (take_bit 8 (drop_bit (4 + 8 * i) n))) [0..<k]"

definition package_header :: "nat \<Rightarrow> u8 list" where
  "package_header m =
     (if m + 1 < 2 ^ 6 then [of_nat (m + 1)]
      else if m + 2 < 2 ^ 12 then length_bytes 1 (m + 2)
      else if m + 3 < 2 ^ 20 then length_bytes 2 (m + 3)
      else length_bytes 3 (m + 4))"

lemma unat_of_nat_u8: "n < 256 \<Longrightarrow> unat (of_nat n :: u8) = n"
  by (simp add: unsigned_of_nat take_bit_nat_eq_self)

lemma package_lead_parts:
  assumes "k < 4"
  shows "drop_bit 6 (package_lead k n) = of_nat k" "package_lead k n AND 0x0F = of_nat (take_bit 4 n)"
proof -
  have "take_bit 2 k = k" using assms by (simp add: take_bit_nat_eq_self)
  then have k: "j < 2" if "bit k j" for j using that bit_take_bit_iff [of 2 k j] by simp
  have m: "(0x0F :: u8) = mask 4" by (simp add: mask_eq_exp_minus_1)
  have hi: "\<not> bit (of_nat (take_bit 4 n) :: u8) j" if "4 \<le> j" for j
    using that by (simp add: bit_simps)
  have kb: "bit (of_nat k :: u8) j \<longleftrightarrow> j < 2 \<and> bit k j" for j
    using k [of j] by (auto simp: bit_simps)
  show "drop_bit 6 (package_lead k n) = of_nat k"
    unfolding package_lead_def by (rule bit_word_eqI) (use hi kb in \<open>auto simp: bit_simps\<close>)
  show "package_lead k n AND 0x0F = of_nat (take_bit 4 n)"
    unfolding package_lead_def m by (rule bit_word_eqI) (use hi in \<open>auto simp: bit_simps\<close>)
qed

lemma join_bits: "take_bit a n OR push_bit a (take_bit b (drop_bit a n)) = take_bit (a + b) n" for n :: nat
  by (rule bit_eqI) (auto simp: bit_simps)

lemma cur_package_small:
  assumes "at < length code" "code ! at = of_nat n" "n < 2 ^ 6" "at + n \<le> length code" "0 < n"
  shows "cur_package code at = (Some (span_new (at + 1) (at + n)), at + 1)"
proof -
  have m: "(0x3F :: u8) = mask 6" by (simp add: mask_eq_exp_minus_1)
  have n: "unat (of_nat n :: u8) = n" using assms(3) by (intro unat_of_nat_u8) simp
  have t8: "take_bit 8 n = n" using assms(3) by (simp add: take_bit_nat_eq_self)
  then have "unat (drop_bit 6 (of_nat n :: u8)) = drop_bit 6 n"
    by (simp add: unsigned_drop_bit_eq unsigned_of_nat)
  then have "unat (drop_bit 6 (of_nat n :: u8)) = 0"
    using assms(3) by (simp add: drop_bit_eq_div)
  then have d: "drop_bit 6 (of_nat n :: u8) = 0" by (simp only: unat_eq_0)
  have a: "(of_nat n :: u8) AND 0x3F = of_nat n"
    unfolding m take_bit_eq_mask [symmetric]
    by (rule word_unat_eq_iff [THEN iffD2]) (use assms(3) n in \<open>simp only: unsigned_take_bit_eq take_bit_nat_eq_self\<close>)
  show ?thesis
    using assms n by (simp add: cur_package_def cur_byte_Some [THEN iffD2] then_read_def d a)
qed

lemma package_bytes_holds:
  assumes "\<And>m. m < j \<Longrightarrow> at + m < length code \<and> code ! (at + m) = of_nat (take_bit 8 (drop_bit (4 + 8 * (i + m)) n))"
  shows "package_bytes j i (take_bit (4 + 8 * i) n) code at = (Some (take_bit (4 + 8 * (i + j)) n), at + j)"
  using assms
proof (induction j arbitrary: i at)
  case 0
  then show ?case by simp
next
  case (Suc j)
  let ?b = "take_bit 8 (drop_bit (4 + 8 * i) n)"
  have b: "at < length code" "code ! at = of_nat ?b" using Suc.prems [of 0] by simp_all
  have u: "unat (of_nat ?b :: u8) = ?b" by (rule unat_of_nat_u8) (simp add: take_bit_nat_less_exp [of 8, simplified])
  have v: "take_bit (4 + 8 * i) n OR push_bit (4 + 8 * i) ?b = take_bit (4 + 8 * Suc i) n"
    using join_bits [of "4 + 8 * i" n 8] by (simp add: add.commute add.left_commute)
  have r: "package_bytes j (Suc i) (take_bit (4 + 8 * Suc i) n) code (at + 1) =
      (Some (take_bit (4 + 8 * (Suc i + j)) n), at + 1 + j)"
  proof (rule Suc.IH)
    fix m assume "m < j"
    with Suc.prems [of "Suc m"]
    show "at + 1 + m < length code \<and> code ! (at + 1 + m) = of_nat (take_bit 8 (drop_bit (4 + 8 * (Suc i + m)) n))"
      by simp
  qed
  have "package_bytes (Suc j) i (take_bit (4 + 8 * i) n) code at =
      package_bytes j (Suc i) (take_bit (4 + 8 * i) n OR push_bit (4 + 8 * i) (unat (code ! at))) code (at + 1)"
    using b(1) by (simp add: cur_byte_Some [THEN iffD2] then_read_def)
  then show ?case using b(2) r by (simp only: u v, simp)
qed

lemma cur_package_large:
  assumes "holds code at (length_bytes k n)" "k \<in> {1, 2, 3}" "n < 2 ^ (4 + 8 * k)"
    and "at + n \<le> length code" "1 + k \<le> n"
  shows "cur_package code at = (Some (span_new (at + 1 + k) (at + n)), at + 1 + k)"
proof -
  have h: "at < length code" "code ! at = package_lead k n"
    "holds code (at + 1) (map (\<lambda>i. of_nat (take_bit 8 (drop_bit (4 + 8 * i) n))) [0..<k])"
    using assms(1) by (simp_all add: length_bytes_def holds_Cons)
  have len: "at + 1 + m < length code \<and> code ! (at + 1 + m) = of_nat (take_bit 8 (drop_bit (4 + 8 * (0 + m)) n))"
    if "m < k" for m
  proof -
    from h(3) have e: "at + 1 + k \<le> length code"
      "take k (drop (at + 1) code) = map (\<lambda>i. of_nat (take_bit 8 (drop_bit (4 + 8 * i) n))) [0..<k]"
      by (simp_all add: holds_iff)
    have "code ! (at + 1 + m) = take k (drop (at + 1) code) ! m" using that e(1) by simp
    also have "\<dots> = of_nat (take_bit 8 (drop_bit (4 + 8 * m) n))" unfolding e(2) using that by simp
    finally show ?thesis using that e(1) by simp
  qed
  have f: "unat (drop_bit 6 (code ! at)) = k" "unat (code ! at AND 0x0F) = take_bit 4 n"
    using assms(2) package_lead_parts [of k n]
    by (auto simp: h(2) unat_of_nat_u8 intro!: unat_of_nat_u8 order_less_le_trans [OF take_bit_nat_less_exp])
  have p: "package_bytes k 0 (take_bit 4 n) code (at + 1) = (Some n, at + 1 + k)"
    using package_bytes_holds [of k "at + 1" code 0 n] len assms(3) by (simp add: take_bit_nat_eq_self)
  have "k \<noteq> 0" using assms(2) by auto
  then show ?thesis
    using assms(4,5) p f h(1)
    by (simp add: cur_package_def cur_byte_Some [THEN iffD2] then_read_def Let_def)
qed

lemma cur_package_holds:
  assumes "holds code at (package_header (length body) @ body)" "length body + 4 < 2 ^ 28"
  shows "cur_package code at =
    (Some (span_new (at + length (package_header (length body))) (at + length (package_header (length body) @ body))),
     at + length (package_header (length body)))"
proof -
  let ?m = "length body"
  have e: "at + length (package_header ?m) + ?m \<le> length code"
    and h: "holds code at (package_header ?m)"
    using assms(1) by (simp_all add: holds_iff [of code "_ + _"])
  have l: "length (length_bytes k n) = k + 1" for k n by (simp add: length_bytes_def)
  consider "?m + 1 < 2 ^ 6" | "\<not> ?m + 1 < 2 ^ 6" "?m + 2 < 2 ^ 12"
    | "\<not> ?m + 1 < 2 ^ 6" "\<not> ?m + 2 < 2 ^ 12" "?m + 3 < 2 ^ 20"
    | "\<not> ?m + 1 < 2 ^ 6" "\<not> ?m + 2 < 2 ^ 12" "\<not> ?m + 3 < 2 ^ 20" by blast
  then show ?thesis
  proof cases
    case 1
    then have p: "package_header ?m = [of_nat (?m + 1)]" by (simp add: package_header_def)
    with h e show ?thesis
      using cur_package_small [of at code "?m + 1"] 1 by (simp add: holds_Cons)
  next
    case 2
    then have p: "package_header ?m = length_bytes 1 (?m + 2)" by (simp add: package_header_def)
    show ?thesis
      using cur_package_large [of code at 1 "?m + 2"] h e 2 unfolding p by (simp add: l add.commute add.left_commute)
  next
    case 3
    then have p: "package_header ?m = length_bytes 2 (?m + 3)" by (simp add: package_header_def)
    show ?thesis
      using cur_package_large [of code at 2 "?m + 3"] h e 3 unfolding p by (simp add: l add.commute add.left_commute)
  next
    case 4
    then have p: "package_header ?m = length_bytes 3 (?m + 4)" by (simp add: package_header_def)
    show ?thesis
      using cur_package_large [of code at 3 "?m + 4"] h e 4 assms(2) unfolding p by (simp add: l add.commute add.left_commute)
  qed
qed

section \<open>Statements\<close>

datatype astmt =
    SExpr aterm
  | SReturn aterm
  | SBreak
  | SNoop
  | SIf aterm "astmt list"
  | SIfElse aterm "astmt list" "astmt list"
  | SWhile aterm "astmt list"

definition package :: "u8 list \<Rightarrow> u8 list" where
  "package body = package_header (length body) @ body"

fun stmt_bytes :: "astmt \<Rightarrow> u8 list" and stmts_bytes :: "astmt list \<Rightarrow> u8 list" where
  "stmt_bytes (SExpr t) = term_bytes t"
| "stmt_bytes (SReturn t) = [op_RETURN] @ term_bytes t"
| "stmt_bytes SBreak = [op_BREAK]"
| "stmt_bytes SNoop = [op_NOOP]"
| "stmt_bytes (SIf c ss) = [op_IF] @ package (term_bytes c @ stmts_bytes ss)"
| "stmt_bytes (SIfElse c ss es) =
     [op_IF] @ package (term_bytes c @ stmts_bytes ss) @ [op_ELSE] @ package (stmts_bytes es)"
| "stmt_bytes (SWhile c ss) = [op_WHILE] @ package (term_bytes c @ stmts_bytes ss)"
| "stmts_bytes [] = []"
| "stmts_bytes (s # ss) = stmt_bytes s @ stmts_bytes ss"

abbreviation package_fits :: "u8 list \<Rightarrow> bool" where
  "package_fits body \<equiv> length body + 4 < 2 ^ 28"

fun wf_stmt :: "astmt \<Rightarrow> bool" and wf_stmts :: "astmt list \<Rightarrow> bool" where
  "wf_stmt (SExpr t) \<longleftrightarrow> wf_term t"
| "wf_stmt (SReturn t) \<longleftrightarrow> wf_term t"
| "wf_stmt SBreak \<longleftrightarrow> True"
| "wf_stmt SNoop \<longleftrightarrow> True"
| "wf_stmt (SIf c ss) \<longleftrightarrow> wf_term c \<and> wf_stmts ss \<and> package_fits (term_bytes c @ stmts_bytes ss)"
| "wf_stmt (SIfElse c ss es) \<longleftrightarrow> wf_term c \<and> wf_stmts ss \<and> wf_stmts es \<and>
     package_fits (term_bytes c @ stmts_bytes ss) \<and> package_fits (stmts_bytes es)"
| "wf_stmt (SWhile c ss) \<longleftrightarrow> wf_term c \<and> wf_stmts ss \<and> package_fits (term_bytes c @ stmts_bytes ss)"
| "wf_stmts [] \<longleftrightarrow> True"
| "wf_stmts (s # ss) \<longleftrightarrow> wf_stmt s \<and> wf_stmts ss"

text \<open>
  The big-step relations: what a statement, a statement list and the rounds of a loop do to the state, the
  flow they end with, and the budget they spend.
\<close>

inductive
  exec_stmt :: "u8 list \<Rightarrow> astmt \<Rightarrow> interp \<Rightarrow> flow \<Rightarrow> interp \<Rightarrow> nat \<Rightarrow> bool" and
  exec_stmts :: "u8 list \<Rightarrow> astmt list \<Rightarrow> interp \<Rightarrow> flow \<Rightarrow> interp \<Rightarrow> nat \<Rightarrow> bool" and
  exec_loop :: "u8 list \<Rightarrow> aterm \<Rightarrow> astmt list \<Rightarrow> interp \<Rightarrow> flow \<Rightarrow> interp \<Rightarrow> nat \<Rightarrow> bool"
  for code :: "u8 list"
where
  exec_expr: "meaning code t st = Some (v, st') \<Longrightarrow> exec_stmt code (SExpr t) st Continue st' (cost t)"
| exec_return: "meaning code t st = Some (v, st') \<Longrightarrow> exec_stmt code (SReturn t) st (Return v) st' (cost t)"
| exec_break: "exec_stmt code SBreak st Break st 0"
| exec_noop: "exec_stmt code SNoop st Continue st 0"
| exec_if: "meaning code c st = Some (v, st') \<Longrightarrow> truthy v \<Longrightarrow> exec_stmts code ss st' fl st'' n \<Longrightarrow>
    exec_stmt code (SIf c ss) st fl st'' (cost c + n)"
| exec_if_not: "meaning code c st = Some (v, st') \<Longrightarrow> \<not> truthy v \<Longrightarrow>
    exec_stmt code (SIf c ss) st Continue st' (cost c)"
| exec_then: "meaning code c st = Some (v, st') \<Longrightarrow> truthy v \<Longrightarrow> exec_stmts code ss st' fl st'' n \<Longrightarrow>
    exec_stmt code (SIfElse c ss es) st fl st'' (cost c + n)"
| exec_else: "meaning code c st = Some (v, st') \<Longrightarrow> \<not> truthy v \<Longrightarrow> exec_stmts code es st' fl st'' n \<Longrightarrow>
    exec_stmt code (SIfElse c ss es) st fl st'' (cost c + n)"
| exec_while: "exec_loop code c ss st fl st' n \<Longrightarrow> exec_stmt code (SWhile c ss) st fl st' n"
| exec_nil: "exec_stmts code [] st Continue st 0"
| exec_next: "exec_stmt code s st Continue st' m \<Longrightarrow> exec_stmts code ss st' fl st'' n \<Longrightarrow>
    exec_stmts code (s # ss) st fl st'' (1 + m + n)"
| exec_leave: "exec_stmt code s st fl st' m \<Longrightarrow> fl \<noteq> Continue \<Longrightarrow> exec_stmts code (s # ss) st fl st' (1 + m)"
| exec_done: "meaning code c st = Some (v, st') \<Longrightarrow> \<not> truthy v \<Longrightarrow>
    exec_loop code c ss st Continue st' (1 + cost c)"
| exec_again: "meaning code c st = Some (v, st') \<Longrightarrow> truthy v \<Longrightarrow> exec_stmts code ss st' Continue st'' m \<Longrightarrow>
    exec_loop code c ss st'' fl st3 n \<Longrightarrow> exec_loop code c ss st fl st3 (1 + cost c + m + n)"
| exec_out: "meaning code c st = Some (v, st') \<Longrightarrow> truthy v \<Longrightarrow> exec_stmts code ss st' Break st'' m \<Longrightarrow>
    exec_loop code c ss st Continue st'' (1 + cost c + m)"
| exec_away: "meaning code c st = Some (v, st') \<Longrightarrow> truthy v \<Longrightarrow> exec_stmts code ss st' (Return r) st'' m \<Longrightarrow>
    exec_loop code c ss st (Return r) st'' (1 + cost c + m)"

section \<open>Refinement\<close>

lemma local_cases: "i < 8 \<Longrightarrow> op_LOCAL0 + of_nat i \<in> {0x60, 0x61, 0x62, 0x63, 0x64, 0x65, 0x66, 0x67}"
  by (auto dest!: below_8)

lemma arg_cases: "i < 7 \<Longrightarrow> op_ARG0 + of_nat i \<in> {0x68, 0x69, 0x6A, 0x6B, 0x6C, 0x6D, 0x6E, 0x6F}"
  using below_8 [of i] by auto

lemma term_lead:
  assumes "wf_term t"
  obtains b bs where "term_bytes t = b # bs"
    "b \<notin> {op_IF, op_ELSE, op_WHILE, op_RETURN, op_BREAK, op_NOOP, op_NAME}"
proof (cases t)
  case (TConst n)
  with that const_bytes_lead [of n] show ?thesis by fastforce
next
  case (TLocal i)
  with that assms local_cases [of i] show ?thesis by auto
next
  case (TArg i)
  with that assms arg_cases [of i] show ?thesis by auto
next
  case (TStep up x)
  with that show ?thesis by (cases up) auto
qed (use that assms in auto)

lemma stmt_lead:
  assumes "wf_stmt s"
  obtains b bs where "stmt_bytes s = b # bs" "b \<noteq> op_ELSE"
proof (cases s)
  case (SExpr t)
  with assms have "wf_term t" by simp
  then obtain b bs where "term_bytes t = b # bs" "b \<notin> {op_IF, op_ELSE, op_WHILE, op_RETURN, op_BREAK, op_NOOP, op_NAME}"
    by (rule term_lead)
  with that SExpr show ?thesis by simp
qed (use that in auto)

lemma eval_term:
  assumes "wf_term t" "holds code at (term_bytes t)" "meaning code t st = Some (v, st')"
  shows "eval code at (budgeted st (b + cost t)) = Some (v, at + length (term_bytes t), budgeted st' b)"
  by (simp add: eval_encoded [OF assms(1,2)] assms(3))

text \<open>The statements with packages, by the positions their parts are read at.\<close>

lemma statement_if:
  assumes "cur_peek code at = Some op_IF" "cur_package code (at + 1) = (Some (span_new p q), p)"
    and "eval code p st = Some (v, r, st')" "\<not> (q < e \<and> cur_peek code q = Some op_ELSE)"
  shows "statement run_body loop code at e st =
    (if truthy v then Option.bind (run_body r q st') (\<lambda>(fl, s). Some (fl, q, s)) else Some (Continue, q, st'))"
  using assms by (cases "q < e") (simp_all add: statement_def Let_def got_def)

lemma statement_if_else:
  assumes "cur_peek code at = Some op_IF" "cur_package code (at + 1) = (Some (span_new p q), p)"
    and "eval code p st = Some (v, r, st')" "q < e" "cur_peek code q = Some op_ELSE"
    and "cur_package code (q + 1) = (Some (span_new p' q'), p')"
  shows "statement run_body loop code at e st =
    Option.bind (if truthy v then run_body r q st' else run_body p' q' st') (\<lambda>(fl, s). Some (fl, q', s))"
  using assms by (simp add: statement_def Let_def got_def)

lemma statement_while:
  assumes "cur_peek code at = Some op_WHILE" "cur_package code (at + 1) = (Some (span_new p q), p)"
  shows "statement run_body loop code at e st = Option.bind (loop p q st) (\<lambda>(fl, s). Some (fl, q, s))"
  using assms by (simp add: statement_def Let_def got_def)

lemma statement_other:
  "cur_peek code at = Some op_RETURN \<Longrightarrow> eval code (at + 1) st = Some (v, r, st') \<Longrightarrow>
     statement run_body loop code at e st = Some (Return v, r, st')"
  "cur_peek code at = Some op_BREAK \<Longrightarrow> statement run_body loop code at e st = Some (Break, at + 1, st)"
  "cur_peek code at = Some op_NOOP \<Longrightarrow> statement run_body loop code at e st = Some (Continue, at + 1, st)"
  by (simp_all add: statement_def)

lemma statement_expr:
  assumes "cur_peek code at = Some b" "b \<notin> {op_IF, op_ELSE, op_WHILE, op_RETURN, op_BREAK, op_NOOP, op_NAME}"
    and "eval code at st = Some (v, r, st')"
  shows "statement run_body loop code at e st = Some (Continue, r, st')"
  using assms by (simp add: statement_def)

text \<open>The parts of an encoded test with its body, and where they are.\<close>

lemma package_parts:
  assumes "holds code at (package (xs @ ys))" "package_fits (xs @ ys)"
  defines "p \<equiv> at + length (package_header (length (xs @ ys)))"
  shows "cur_package code at = (Some (span_new p (p + length xs + length ys)), p)"
    and "holds code p xs" "holds code (p + length xs) ys"
    and "p + length xs + length ys = at + length (package (xs @ ys))"
  using cur_package_holds [of code at "xs @ ys"] assms(1,2) by (simp_all add: p_def package_def add.assoc)

lemma next_not_else:
  assumes "wf_stmts ss" "holds code at (stmts_bytes ss)" "stmts_bytes ss \<noteq> []"
  shows "cur_peek code at \<noteq> Some op_ELSE"
proof (cases ss)
  case (Cons s rest)
  with assms(1) have "wf_stmt s" by simp
  then obtain b bs where "stmt_bytes s = b # bs" "b \<noteq> op_ELSE" by (rule stmt_lead)
  with assms(2) Cons show ?thesis by (simp add: cur_peek_def holds_Cons)
qed (use assms in simp)

lemma run_next:
  assumes "at < e" "statement (run code) (while_loop code) code at e (budgeted st n) = Some (fl, q, st')"
  shows "run code at e (budgeted st (Suc n)) = (if fl = Continue then run code q e st' else Some (fl, st'))"
  using assms by (subst run_eq) (simp add: run_step_def)

lemma while_round:
  assumes "eval code at (budgeted st n) = Some (v, q, st')"
  shows "while_loop code at e (budgeted st (Suc n)) =
    (if \<not> truthy v then Some (Continue, st')
     else Option.bind (run code q e st') (\<lambda>(fl, s). case fl of
         Continue \<Rightarrow> while_loop code at e s
       | Break \<Rightarrow> Some (Continue, s)
       | Return r \<Rightarrow> Some (Return r, s)))"
  using assms by (subst while_eq) (simp add: while_step_def)

lemma interpreter_realises_semantics:
  shows "exec_stmt code s st fl st' n \<Longrightarrow> wf_stmt s \<Longrightarrow> holds code at (stmt_bytes s) \<Longrightarrow>
      at + length (stmt_bytes s) \<le> e \<Longrightarrow>
      (at + length (stmt_bytes s) < e \<Longrightarrow> cur_peek code (at + length (stmt_bytes s)) \<noteq> Some op_ELSE) \<Longrightarrow>
      statement (run code) (while_loop code) code at e (budgeted st (b + n)) =
        Some (fl, at + length (stmt_bytes s), budgeted st' b)"
    and "exec_stmts code ss st fl st' n \<Longrightarrow> wf_stmts ss \<Longrightarrow> holds code at (stmts_bytes ss) \<Longrightarrow>
      run code at (at + length (stmts_bytes ss)) (budgeted st (b + n)) = Some (fl, budgeted st' b)"
    and "exec_loop code c ss st fl st' n \<Longrightarrow> wf_term c \<Longrightarrow> wf_stmts ss \<Longrightarrow>
      holds code at (term_bytes c @ stmts_bytes ss) \<Longrightarrow>
      while_loop code at (at + length (term_bytes c) + length (stmts_bytes ss)) (budgeted st (b + n)) =
        Some (fl, budgeted st' b)"
proof (induction arbitrary: at e b and at b and at b rule: exec_stmt_exec_stmts_exec_loop.inducts)
  case (exec_expr t st v st')
  have "wf_term t" using exec_expr.prems(1) by simp
  then obtain c bs where "term_bytes t = c # bs" "c \<notin> {op_IF, op_ELSE, op_WHILE, op_RETURN, op_BREAK, op_NOOP, op_NAME}"
    by (rule term_lead)
  then show ?case
    using exec_expr eval_term [of t code at st v st' b]
    by (auto intro!: statement_expr [of _ _ c] simp: cur_peek_def holds_Cons)
next
  case (exec_return t st v st')
  then show ?case
    using eval_term [of t code "at + 1" st v st' b] by (simp add: statement_other cur_peek_def holds_Cons)
next
  case (exec_break st)
  then show ?case by (simp add: statement_other cur_peek_def holds_Cons)
next
  case (exec_noop st)
  then show ?case by (simp add: statement_other cur_peek_def holds_Cons)
next
  case (exec_if c st v st' ss fl st'' n)
  let ?xs = "term_bytes c" and ?ys = "stmts_bytes ss"
  let ?p = "at + 1 + length (package_header (length (?xs @ ?ys)))"
  have w: "cur_peek code at = Some op_IF" "wf_term c" "wf_stmts ss" "holds code (at + 1) (package (?xs @ ?ys))"
    "package_fits (?xs @ ?ys)"
    using exec_if.prems by (simp_all add: holds_Cons cur_peek_def)
  note pp = package_parts [OF w(4,5)]
  have q: "at + length (stmt_bytes (SIf c ss)) = ?p + length ?xs + length ?ys" using pp(4) by simp
  have b: "b + (cost c + n) = b + n + cost c" by simp
  have no: "\<not> (?p + length ?xs + length ?ys < e \<and> cur_peek code (?p + length ?xs + length ?ys) = Some op_ELSE)"
    using exec_if.prems(4) unfolding q by blast
  show ?case
    unfolding b q statement_if [OF w(1) pp(1) eval_term [OF w(2) pp(2) \<open>meaning code c st = Some (v, st')\<close>] no]
    using \<open>truthy v\<close> exec_if.IH(3) [OF w(3) pp(3)] by simp
next
  case (exec_if_not c st v st' ss)
  let ?xs = "term_bytes c" and ?ys = "stmts_bytes ss"
  let ?p = "at + 1 + length (package_header (length (?xs @ ?ys)))"
  have w: "cur_peek code at = Some op_IF" "wf_term c" "wf_stmts ss" "holds code (at + 1) (package (?xs @ ?ys))"
    "package_fits (?xs @ ?ys)"
    using exec_if_not.prems by (simp_all add: holds_Cons cur_peek_def)
  note pp = package_parts [OF w(4,5)]
  have q: "at + length (stmt_bytes (SIf c ss)) = ?p + length ?xs + length ?ys" using pp(4) by simp
  have no: "\<not> (?p + length ?xs + length ?ys < e \<and> cur_peek code (?p + length ?xs + length ?ys) = Some op_ELSE)"
    using exec_if_not.prems(4) unfolding q by blast
  show ?case
    unfolding q statement_if [OF w(1) pp(1) eval_term [OF w(2) pp(2) \<open>meaning code c st = Some (v, st')\<close>] no]
    using \<open>\<not> truthy v\<close> by simp
next
  case (exec_then c st v st' ss fl st'' n es)
  let ?xs = "term_bytes c" and ?ys = "stmts_bytes ss"
  let ?p = "at + 1 + length (package_header (length (?xs @ ?ys)))"
  have w: "cur_peek code at = Some op_IF" "wf_term c" "wf_stmts ss" "holds code (at + 1) (package (?xs @ ?ys))"
    "package_fits (?xs @ ?ys)"
    using exec_then.prems by (simp_all add: holds_Cons cur_peek_def)
  note pp = package_parts [OF w(4,5)]
  let ?q = "?p + length ?xs + length ?ys"
  have v: "holds code (?q + 1) (package ([] @ stmts_bytes es))" "package_fits ([] @ stmts_bytes es)" "wf_stmts es"
    "cur_peek code ?q = Some op_ELSE" "?q < e"
    using exec_then.prems pp(4) by (simp_all add: holds_Cons cur_peek_def add.assoc)
  note pe = package_parts [OF v(1,2)]
  have q: "at + length (stmt_bytes (SIfElse c ss es)) = ?q + 1 + length (package ([] @ stmts_bytes es))"
    using pp(4) by simp
  have b: "b + (cost c + n) = b + n + cost c" by simp
  show ?case
    unfolding b q pe(4) [symmetric]
      statement_if_else [OF w(1) pp(1) eval_term [OF w(2) pp(2) \<open>meaning code c st = Some (v, st')\<close>] v(5,4) pe(1)]
    using \<open>truthy v\<close> exec_then.IH(3) [OF w(3) pp(3)] by simp
next
  case (exec_else c st v st' es fl st'' n ss)
  let ?xs = "term_bytes c" and ?ys = "stmts_bytes ss"
  let ?p = "at + 1 + length (package_header (length (?xs @ ?ys)))"
  have w: "cur_peek code at = Some op_IF" "wf_term c" "wf_stmts ss" "holds code (at + 1) (package (?xs @ ?ys))"
    "package_fits (?xs @ ?ys)"
    using exec_else.prems by (simp_all add: holds_Cons cur_peek_def)
  note pp = package_parts [OF w(4,5)]
  let ?q = "?p + length ?xs + length ?ys"
  have v: "holds code (?q + 1) (package ([] @ stmts_bytes es))" "package_fits ([] @ stmts_bytes es)" "wf_stmts es"
    "cur_peek code ?q = Some op_ELSE" "?q < e"
    using exec_else.prems pp(4) by (simp_all add: holds_Cons cur_peek_def add.assoc)
  note pe = package_parts [OF v(1,2)]
  have q: "at + length (stmt_bytes (SIfElse c ss es)) = ?q + 1 + length (package ([] @ stmts_bytes es))"
    using pp(4) by simp
  have b: "b + (cost c + n) = b + n + cost c" by simp
  show ?case
    unfolding b q pe(4) [symmetric]
      statement_if_else [OF w(1) pp(1) eval_term [OF w(2) pp(2) \<open>meaning code c st = Some (v, st')\<close>] v(5,4) pe(1)]
    using \<open>\<not> truthy v\<close> exec_else.IH(3) [OF v(3) pe(3)] by simp
next
  case (exec_while c ss st fl st' n)
  let ?xs = "term_bytes c" and ?ys = "stmts_bytes ss"
  let ?p = "at + 1 + length (package_header (length (?xs @ ?ys)))"
  have w: "cur_peek code at = Some op_WHILE" "wf_term c" "wf_stmts ss" "holds code (at + 1) (package (?xs @ ?ys))"
    "package_fits (?xs @ ?ys)"
    using exec_while.prems by (simp_all add: holds_Cons cur_peek_def)
  note pp = package_parts [OF w(4,5)]
  have q: "at + length (stmt_bytes (SWhile c ss)) = ?p + length ?xs + length ?ys" using pp(4) by simp
  have h: "holds code ?p (?xs @ ?ys)" using pp(2,3) by simp
  show ?case
    unfolding q statement_while [OF w(1) pp(1)] exec_while.IH(2) [OF w(2,3) h] by simp
next
  case (exec_nil st)
  then show ?case by (subst run_eq) (simp add: run_step_def)
next
  case (exec_next s st st' m ss fl st'' n)
  let ?q = "at + length (stmt_bytes s)"
  let ?e = "at + length (stmts_bytes (s # ss))"
  have w: "wf_stmt s" "holds code at (stmt_bytes s)" "?q \<le> ?e" "wf_stmts ss" "holds code ?q (stmts_bytes ss)"
    using exec_next.prems by simp_all
  have lt: "at < ?e" using w(1) by (auto elim: stmt_lead)
  have no: "cur_peek code ?q \<noteq> Some op_ELSE" if "?q < ?e"
    using that next_not_else [OF w(4,5)] by simp
  have b: "b + (1 + m + n) = Suc (b + n + m)" and e: "?e = ?q + length (stmts_bytes ss)" by simp_all
  show ?case
    using run_next [OF lt exec_next.IH(2) [OF w(1-3) no]] exec_next.IH(4) [OF w(4,5)]
    unfolding b e by simp
next
  case (exec_leave s st fl st' m ss)
  let ?q = "at + length (stmt_bytes s)"
  let ?e = "at + length (stmts_bytes (s # ss))"
  have w: "wf_stmt s" "holds code at (stmt_bytes s)" "?q \<le> ?e" "wf_stmts ss" "holds code ?q (stmts_bytes ss)"
    using exec_leave.prems by simp_all
  have lt: "at < ?e" using w(1) by (auto elim: stmt_lead)
  have no: "cur_peek code ?q \<noteq> Some op_ELSE" if "?q < ?e"
    using that next_not_else [OF w(4,5)] by simp
  have b: "b + (1 + m) = Suc (b + m)" by simp
  show ?case
    using run_next [OF lt exec_leave.IH(2) [OF w(1-3) no]] \<open>fl \<noteq> Continue\<close> unfolding b by simp
next
  case (exec_done c st v st' ss)
  let ?q = "at + length (term_bytes c)"
  have w: "holds code at (term_bytes c)" "holds code ?q (stmts_bytes ss)" using exec_done.prems(3) by simp_all
  have b: "b + (1 + cost c) = Suc (b + (0) + cost c)" by simp
  show ?case
    unfolding b
    by (subst while_round [OF eval_term [OF exec_done.prems(1) w(1) \<open>meaning code c st = Some (v, st')\<close>]])
      (simp add: \<open>\<not> truthy v\<close>)
next
  case (exec_again c st v st' ss st'' m fl st3 n)
  let ?q = "at + length (term_bytes c)"
  have w: "holds code at (term_bytes c)" "holds code ?q (stmts_bytes ss)" using exec_again.prems(3) by simp_all
  have b: "b + (1 + cost c + m + n) = Suc (b + (m + n) + cost c)" by simp
  show ?case
    unfolding b
    by (subst while_round [OF eval_term [OF exec_again.prems(1) w(1) \<open>meaning code c st = Some (v, st')\<close>]])
      (use exec_again.IH(3) [OF exec_again.prems(2) w(2), of "b + n"] exec_again.IH(5) [OF exec_again.prems, of b] in \<open>simp add: \<open>truthy v\<close> add.commute add.left_commute\<close>)
next
  case (exec_out c st v st' ss st'' m)
  let ?q = "at + length (term_bytes c)"
  have w: "holds code at (term_bytes c)" "holds code ?q (stmts_bytes ss)" using exec_out.prems(3) by simp_all
  have b: "b + (1 + cost c + m) = Suc (b + (m) + cost c)" by simp
  show ?case
    unfolding b
    by (subst while_round [OF eval_term [OF exec_out.prems(1) w(1) \<open>meaning code c st = Some (v, st')\<close>]])
      (use exec_out.IH(3) [OF exec_out.prems(2) w(2), of b] in \<open>simp add: \<open>truthy v\<close>\<close>)
next
  case (exec_away c st v st' ss r st'' m)
  let ?q = "at + length (term_bytes c)"
  have w: "holds code at (term_bytes c)" "holds code ?q (stmts_bytes ss)" using exec_away.prems(3) by simp_all
  have b: "b + (1 + cost c + m) = Suc (b + (m) + cost c)" by simp
  show ?case
    unfolding b
    by (subst while_round [OF eval_term [OF exec_away.prems(1) w(1) \<open>meaning code c st = Some (v, st')\<close>]])
      (use exec_away.IH(3) [OF exec_away.prems(2) w(2), of b] in \<open>simp add: \<open>truthy v\<close>\<close>)
qed

section \<open>Properties\<close>

text \<open>
  A package length reads back: for every body up to the four-byte limit of the encoding, the cursor
  finds exactly the span of the body behind the length bytes, in each of the four forms of the length.
\<close>

theorem package_round_trip:
  assumes "holds code at (package_header (length body) @ body)" "length body + 4 < 2 ^ 28"
  shows "case cur_package code at of
      (None, _) \<Rightarrow> False
    | (Some sp, p) \<Rightarrow> span_of sp code = Some body \<and> p = sp_start sp \<and>
        sp_end sp = at + length (package_header (length body)) + length body"
proof -
  let ?h = "package_header (length body)"
  have "get_range code (at + length ?h) (at + length ?h + length body) = Some body"
    using assms(1) by (simp only: holds_append, simp add: holds_def)
  then show ?thesis using cur_package_holds [OF assms] by (simp add: span_of_def add.assoc)
qed

lemma package_round_trip_witness:
  "\<exists>sp. cur_package ([0x46, 0x06] @ replicate 100 7) 0 = (Some sp, 2) \<and>
     span_of sp ([0x46, 0x06] @ replicate 100 7) = Some (replicate 100 7)"
proof -
  let ?body = "replicate 100 (7 :: u8)"
  have "package_header (length ?body) = [0x46, 0x06]" by code_simp
  then have e: "[0x46, 0x06] @ ?body = package_header (length ?body) @ ?body" "length (package_header (length ?body)) = 2"
    by simp_all
  have h: "holds (package_header (length ?body) @ ?body) 0 (package_header (length ?body) @ ?body)"
    using holds_slice [of "[]" "package_header (length ?body) @ ?body" "[]"] by simp
  from package_round_trip [OF h] cur_package_holds [OF h] show ?thesis
    unfolding e(1) using e(2) by auto
qed

text \<open>
  C1. A method runs as its source was written: whatever a method made of assignments, arithmetic,
  \<open>If\<close>/\<open>Else\<close>, \<open>While\<close>, \<open>Break\<close> and \<open>Return\<close> returns by the reference semantics, calling it with as many
  arguments as it declares returns, as long as the run fits the interpreter's budget.
\<close>

theorem method_returns_meaning:
  assumes "exec_stmts code ss (with_args args interp_new) (Return v) st' n" "n \<le> BUDGET"
    and "wf_stmts ss" "span_of body code = Some (stmts_bytes ss)" "sp_start body \<le> sp_end body"
  shows "evaluate_member_with code (MemberMethod body (length args)) args = Some v"
proof -
  have h: "holds code (sp_start body) (stmts_bytes ss)" "sp_end body = sp_start body + length (stmts_bytes ss)"
    using assms(4,5) by (auto simp: span_of_def holds_def get_range_Some_iff)
  have "budgeted (with_args args interp_new) BUDGET = with_args args interp_new"
    by (simp add: with_args_def interp_new_def)
  moreover have "BUDGET = (BUDGET - n) + n" using assms(2) by simp
  ultimately have st: "with_args args interp_new = budgeted (with_args args interp_new) ((BUDGET - n) + n)" by simp
  show ?thesis
    using interpreter_realises_semantics(2) [OF assms(1,3) h(1), of "BUDGET - n"]
    by (simp add: evaluate_member_with_def h(2) st [symmetric])
qed

text \<open>A method that counts its first local up to its argument.\<close>

definition count_up :: "astmt list" where
  "count_up = [SExpr (TStore (TConst 0) (ToLocal 0)),
     SWhile (TCompare op_LLESS (TLocal 0) (TArg 0)) [SExpr (TStep True (ToLocal 0))],
     SReturn (TLocal 0)]"

lemma count_up_runs:
  "\<exists>st'. exec_stmts code count_up (with_args [Integer 2] interp_new) (Return (Integer 2)) st' 24"
proof -
  let ?args = "[Integer 2, Uninitialised, Uninitialised, Uninitialised, Uninitialised, Uninitialised, Uninitialised]"
  let ?rest = "replicate 7 Uninitialised"
  define st where "st n = \<lparr>in_args = ?args, in_locals = Integer n # ?rest, in_budget = BUDGET\<rparr>" for n
  have start: "meaning code (TStore (TConst 0) (ToLocal 0)) (with_args [Integer 2] interp_new) = Some (Integer 0, st 0)"
    by (simp add: with_args_def interp_new_def st_def numeral_eq_Suc)
  have test: "meaning code (TCompare op_LLESS (TLocal 0) (TArg 0)) (st n) = Some (boolean (n < 2), st n)" for n
    by (simp add: compare_values_def value_integer_def st_def)
  have step: "exec_stmts code [SExpr (TStep True (ToLocal 0))] (st n) Continue (st (n + 1)) 3" for n
  proof -
    have "meaning code (TStep True (ToLocal 0)) (st n) = Some (Integer (n + 1), st (n + 1))"
      by (simp add: st_def value_integer_def Let_def)
    from exec_next [OF exec_expr [OF this] exec_nil] show ?thesis by (simp add: numeral_3_eq_3)
  qed
  have round: "exec_loop code (TCompare op_LLESS (TLocal 0) (TArg 0)) [SExpr (TStep True (ToLocal 0))] (st n) Continue s (7 + k)"
    if "n < 2" "exec_loop code (TCompare op_LLESS (TLocal 0) (TArg 0)) [SExpr (TStep True (ToLocal 0))] (st (n + 1)) Continue s k" for n s k
    using exec_again [OF test _ step that(2)] that(1) by (simp add: truthy_def boolean_def)
  have last: "exec_loop code (TCompare op_LLESS (TLocal 0) (TArg 0)) [SExpr (TStep True (ToLocal 0))] (st 2) Continue (st 2) 4"
    using exec_done [OF test [of 2]] by (simp add: truthy_def boolean_def eval_nat_numeral)
  have loop: "exec_loop code (TCompare op_LLESS (TLocal 0) (TArg 0)) [SExpr (TStep True (ToLocal 0))] (st 0) Continue (st 2) 18"
    using round [of 0 "st 2" 11] round [of 1 "st 2" 4] last by simp
  have ret: "exec_stmts code [SReturn (TLocal 0)] (st 2) (Return (Integer 2)) (st 2) 2"
    using exec_leave [OF exec_return, of code "TLocal 0" "st 2" "Integer 2" "st 2" "[]"] by (simp add: st_def numeral_2_eq_2)
  show ?thesis
    using exec_next [OF exec_expr [OF start] exec_next [OF exec_while [OF loop] ret]]
    unfolding count_up_def by auto
qed

lemma method_returns_meaning_witness:
  "evaluate_member_with ([0xFF] @ stmts_bytes count_up @ [0xA3]) (MemberMethod (span_new 1 13) 1) [Integer 2] = Some (Integer 2)"
proof -
  let ?code = "[0xFF] @ stmts_bytes count_up @ [0xA3]"
  have w: "wf_stmts count_up" by (simp add: count_up_def const_bytes_def)
  have s: "span_of (span_new 1 13) ?code = Some (stmts_bytes count_up)" "sp_start (span_new 1 13) \<le> sp_end (span_new 1 13)"
    by code_simp+
  obtain st' where "exec_stmts ?code count_up (with_args [Integer 2] interp_new) (Return (Integer 2)) st' 24"
    using count_up_runs by blast
  from method_returns_meaning [OF this _ w s] show ?thesis by (simp add: BUDGET_def)
qed

end
