(* ===== verification/Hid_Report.thy ===== *)
theory Hid_Report
  imports NC_Prelude "HOL-Library.Monad_Syntax"
begin

text \<open>
  \<open>crates/nanochrono-core/src/hid_report.rs\<close>: finding the pointer and the keyboard in a HID report
  descriptor, and decoding their reports.

  A descriptor chooses the sizes and counts of its fields freely, so the offsets formed from them
  are kept as 64-bit words, which is what \<open>usize\<close> is on the targets of the crate, with the wrap of
  the release profile.  A decoded value is a 32-bit word, read as a signed number by \<open>sint\<close>.
\<close>

definition PAGE_GENERIC_DESKTOP :: u16 where "PAGE_GENERIC_DESKTOP = 0x01"
definition PAGE_KEYBOARD :: u16 where "PAGE_KEYBOARD = 0x07"
definition PAGE_BUTTON :: u16 where "PAGE_BUTTON = 0x09"
definition PAGE_DIGITIZER :: u16 where "PAGE_DIGITIZER = 0x0D"
definition MODIFIER_FIRST :: u32 where "MODIFIER_FIRST = 0xE0"
definition MODIFIER_LAST :: u32 where "MODIFIER_LAST = 0xE7"
definition USAGE_X :: u32 where "USAGE_X = 0x0030"
definition USAGE_Y :: u32 where "USAGE_Y = 0x0031"
definition USAGE_WHEEL :: u32 where "USAGE_WHEEL = 0x0038"

lemmas hid_constants =
  PAGE_GENERIC_DESKTOP_def PAGE_KEYBOARD_def PAGE_BUTTON_def PAGE_DIGITIZER_def MODIFIER_FIRST_def
  MODIFIER_LAST_def USAGE_X_def USAGE_Y_def USAGE_WHEEL_def

section \<open>Fields\<close>

record hid_field =
  bit_offset :: u64
  bit_size :: u64
  field_count :: u64
  is_signed :: bool
  is_relative :: bool

fun value_loop :: "u8 list \<Rightarrow> u64 \<Rightarrow> nat \<Rightarrow> nat \<Rightarrow> u32 \<Rightarrow> u32 option" where
  "value_loop body start b 0 raw = Some raw"
| "value_loop body start b (Suc left) raw =
     (let at = start + of_nat b
      in case get_at body (unat (at div 8)) of
           None \<Rightarrow> None
         | Some byte \<Rightarrow>
             value_loop body start (Suc b) left
               (if drop_bit (unat (at mod 8)) byte AND 1 \<noteq> 0 then raw OR shl1 b else raw))"

definition field_value :: "hid_field \<Rightarrow> u8 list \<Rightarrow> u64 \<Rightarrow> u32" where
  "field_value f body index =
     (if index \<ge> field_count f \<or> bit_size f = 0 \<or> bit_size f > 32 then 0
      else (let width = unat (bit_size f);
                start = bit_offset f + index * bit_size f
            in case value_loop body start 0 width 0 of
                 None \<Rightarrow> 0
               | Some raw \<Rightarrow>
                   if is_signed f \<and> width < 32 \<and> drop_bit (width - 1) raw AND 1 \<noteq> 0
                   then raw OR push_bit width (NOT 0)
                   else raw))"

definition field_bit :: "hid_field \<Rightarrow> u8 list \<Rightarrow> u64 \<Rightarrow> bool" where
  "field_bit f body index \<longleftrightarrow> field_value f body index \<noteq> 0"

section \<open>Layouts\<close>

record pointer_layout =
  ptr_report_id :: "u8 option"
  ptr_body_bytes :: u64
  ptr_x :: hid_field
  ptr_y :: hid_field
  ptr_buttons :: "hid_field option"
  ptr_wheel :: "hid_field option"

record movement =
  mv_dx :: u32
  mv_dy :: u32
  mv_wheel :: u32
  mv_left :: bool
  mv_right :: bool
  mv_middle :: bool

record keyboard_layout =
  kbd_report_id :: "u8 option"
  kbd_body_bytes :: u64
  kbd_modifiers :: "hid_field option"
  kbd_keys :: hid_field

text \<open>The body of a report: without the ID byte, which has to be the layout's.\<close>

definition report_body :: "u8 option \<Rightarrow> u8 list \<Rightarrow> u8 list option" where
  "report_body report_id report =
     (case report_id of
        Some i \<Rightarrow>
          (case get_at report 0 of
             None \<Rightarrow> None
           | Some b \<Rightarrow> if b \<noteq> i then None else get_from report 1)
      | None \<Rightarrow> Some report)"

definition pointer_button :: "pointer_layout \<Rightarrow> u8 list \<Rightarrow> u64 \<Rightarrow> bool" where
  "pointer_button l body index =
     (case ptr_buttons l of None \<Rightarrow> False | Some f \<Rightarrow> index < field_count f \<and> field_bit f body index)"

definition pointer_decode :: "pointer_layout \<Rightarrow> u8 list \<Rightarrow> movement option" where
  "pointer_decode l report =
     do {
       body \<leftarrow> report_body (ptr_report_id l) report;
       Some \<lparr>mv_dx = field_value (ptr_x l) body 0, mv_dy = field_value (ptr_y l) body 0,
         mv_wheel = (case ptr_wheel l of None \<Rightarrow> 0 | Some f \<Rightarrow> field_value f body 0),
         mv_left = pointer_button l body 0, mv_right = pointer_button l body 1,
         mv_middle = pointer_button l body 2\<rparr>
     }"

definition modifier_bits :: "hid_field \<Rightarrow> u8 list \<Rightarrow> u8" where
  "modifier_bits f body =
     fold (\<lambda>index bits. if field_bit f body (of_nat index) then bits OR shl1 index else bits)
       [0..<min (unat (field_count f)) 8] 0"

definition usage_byte :: "u32 \<Rightarrow> u8" where
  "usage_byte v = (if 0 \<le> sint v \<and> sint v \<le> 255 then ucast v else 0)"

definition keyboard_decode :: "keyboard_layout \<Rightarrow> u8 list \<Rightarrow> u8 list option" where
  "keyboard_decode l report =
     do {
       body \<leftarrow> report_body (kbd_report_id l) report;
       let out = (case kbd_modifiers l of
           None \<Rightarrow> replicate 8 0
         | Some f \<Rightarrow> (replicate 8 0)[0 := modifier_bits f body]);
       Some (fold (\<lambda>slot out. out[2 + slot := usage_byte (field_value (kbd_keys l) body (of_nat slot))])
         [0..<min (unat (field_count (kbd_keys l))) 6] out)
     }"

section \<open>Parser state\<close>

record globals =
  usage_page :: u16
  logical_minimum :: u32
  report_size :: u64
  report_count :: u64
  report_id :: "u8 option"

definition globals_default :: globals where
  "globals_default = \<lparr>usage_page = 0, logical_minimum = 0, report_size = 0, report_count = 0, report_id = None\<rparr>"

definition MAX_USAGES :: nat where "MAX_USAGES = 16"

record usages =
  usage_list :: "u32 list"
  usage_count :: nat
  usage_min :: "u32 option"
  usage_max :: "u32 option"

definition locals_default :: usages where
  "locals_default = \<lparr>usage_list = replicate MAX_USAGES 0, usage_count = 0, usage_min = None, usage_max = None\<rparr>"

definition usages_push :: "u32 \<Rightarrow> usages \<Rightarrow> usages" where
  "usages_push u l =
     (if usage_count l < MAX_USAGES
      then l\<lparr>usage_list := (usage_list l)[usage_count l := u], usage_count := usage_count l + 1\<rparr>
      else l)"

record report_candidate =
  cand_report_id :: "u8 option"
  cand_bits :: u64
  cand_x :: "hid_field option"
  cand_y :: "hid_field option"
  cand_buttons :: "hid_field option"
  cand_wheel :: "hid_field option"
  cand_modifiers :: "hid_field option"
  cand_keys :: "hid_field option"
  cand_digitizer :: bool

definition candidate_new :: "u8 option \<Rightarrow> report_candidate" where
  "candidate_new i = \<lparr>cand_report_id = i, cand_bits = 0, cand_x = None, cand_y = None,
     cand_buttons = None, cand_wheel = None, cand_modifiers = None, cand_keys = None,
     cand_digitizer = False\<rparr>"

definition complete :: "report_candidate \<Rightarrow> bool" where
  "complete c \<longleftrightarrow> cand_x c \<noteq> None \<and> cand_y c \<noteq> None \<and> \<not> cand_digitizer c"

definition is_keyboard :: "report_candidate \<Rightarrow> bool" where
  "is_keyboard c \<longleftrightarrow> cand_keys c \<noteq> None"

definition MAX_REPORTS :: nat where "MAX_REPORTS = 16"

type_synonym slots = "report_candidate option list"

definition slot_for :: "slots \<Rightarrow> nat \<Rightarrow> u8 option \<Rightarrow> (nat \<times> slots \<times> nat) option" where
  "slot_for candidates used i =
     (case iter_position (\<lambda>slot. case slot of None \<Rightarrow> False | Some c \<Rightarrow> cand_report_id c = i) candidates of
        Some index \<Rightarrow> Some (index, candidates, used)
      | None \<Rightarrow>
          if used = MAX_REPORTS then None
          else Some (used, candidates[used := Some (candidate_new i)], used + 1))"

section \<open>Recording a field\<close>

definition whole_item :: "report_candidate \<Rightarrow> globals \<Rightarrow> bool \<Rightarrow> u64 \<Rightarrow> hid_field" where
  "whole_item c g relative n =
     \<lparr>bit_offset = cand_bits c, bit_size = report_size g, field_count = n, is_signed = False, is_relative = relative\<rparr>"

definition nth_item :: "report_candidate \<Rightarrow> globals \<Rightarrow> bool \<Rightarrow> nat \<Rightarrow> hid_field" where
  "nth_item c g relative index =
     \<lparr>bit_offset = cand_bits c + of_nat index * report_size g, bit_size = report_size g, field_count = 1,
      is_signed = (sint (logical_minimum g) < 0), is_relative = relative\<rparr>"

definition record_usage :: "globals \<Rightarrow> usages \<Rightarrow> bool \<Rightarrow> nat \<Rightarrow> report_candidate \<Rightarrow> report_candidate" where
  "record_usage g l relative index c =
     (let u = usage_list l ! index
      in if u = USAGE_X \<and> cand_x c = None then c\<lparr>cand_x := Some (nth_item c g relative index)\<rparr>
         else if u = USAGE_Y \<and> cand_y c = None then c\<lparr>cand_y := Some (nth_item c g relative index)\<rparr>
         else if u = USAGE_WHEEL \<and> cand_wheel c = None then c\<lparr>cand_wheel := Some (nth_item c g relative index)\<rparr>
         else c)"

definition button_count :: "usages \<Rightarrow> u64" where
  "button_count l =
     (case (usage_min l, usage_max l) of
        (Some low, Some high) \<Rightarrow> if high \<ge> low then ucast (high - low + 1) else of_nat (usage_count l)
      | _ \<Rightarrow> of_nat (usage_count l))"

definition record_item ::
  "globals \<Rightarrow> usages \<Rightarrow> bool \<Rightarrow> bool \<Rightarrow> report_candidate \<Rightarrow> report_candidate" where
  "record_item g l relative variable c =
     (if usage_page g = PAGE_KEYBOARD then
        (if variable then
           (let is_modifier = (usage_min l = Some MODIFIER_FIRST \<and> usage_max l = Some MODIFIER_LAST)
            in if is_modifier \<and> cand_modifiers c = None
               then c\<lparr>cand_modifiers := Some (whole_item c g relative (report_count g))\<rparr> else c)
         else if cand_keys c = None then c\<lparr>cand_keys := Some (whole_item c g relative (report_count g))\<rparr>
         else c)
      else if usage_page g = PAGE_BUTTON \<and> variable then
        (let n = button_count l
         in if n = 0 then c
            else if cand_buttons c = None
            then c\<lparr>cand_buttons := Some (whole_item c g relative (min n (report_count g)))\<rparr>
            else c)
      else if usage_page g = PAGE_GENERIC_DESKTOP \<and> variable then
        fold (record_usage g l relative) [0..<usage_count l] c
      else c)"

section \<open>The parser\<close>

record hid_state =
  st_globals :: globals
  st_locals :: usages
  st_candidates :: slots
  st_used :: nat
  st_digitizer_depth :: nat
  st_depth :: nat

definition hid_init :: hid_state where
  "hid_init = \<lparr>st_globals = globals_default, st_locals = locals_default,
     st_candidates = replicate MAX_REPORTS None, st_used = 0, st_digitizer_depth = 0, st_depth = 0\<rparr>"

definition signed_reading :: "nat \<Rightarrow> u32 \<Rightarrow> u32" where
  "signed_reading width u =
     (if width > 0 \<and> width < 4 \<and> drop_bit (8 * width - 1) u AND 1 \<noteq> 0 then u OR push_bit (8 * width) (NOT 0) else u)"

text \<open>What an \<open>Input\<close> item does to the candidate of its report, and to the state.\<close>

definition input_candidate :: "u32 \<Rightarrow> hid_state \<Rightarrow> report_candidate \<Rightarrow> report_candidate" where
  "input_candidate flags st c =
     (let constant = (flags AND 0x01 \<noteq> 0);
          variable = (flags AND 0x02 \<noteq> 0);
          relative = (flags AND 0x04 \<noteq> 0);
          g = st_globals st;
          c = (if st_digitizer_depth st > 0 then c\<lparr>cand_digitizer := True\<rparr> else c);
          c = (if \<not> constant then record_item g (st_locals st) relative variable c else c)
      in c\<lparr>cand_bits := cand_bits c + report_size g * report_count g\<rparr>)"

definition input_item :: "u32 \<Rightarrow> hid_state \<Rightarrow> hid_state option" where
  "input_item flags st =
     do {
       (slot, candidates, used) \<leftarrow> slot_for (st_candidates st) (st_used st) (report_id (st_globals st));
       c \<leftarrow> candidates ! slot;
       Some (st\<lparr>st_candidates := candidates[slot := Some (input_candidate flags st c)], st_used := used,
         st_locals := locals_default\<rparr>)
     }"

definition main_item :: "u8 \<Rightarrow> u32 \<Rightarrow> hid_state \<Rightarrow> hid_state option" where
  "main_item tag data st =
     (if tag = 0x8 then input_item data st
      else if tag = 0xA then
        Some (st\<lparr>st_digitizer_depth :=
             (if usage_page (st_globals st) = PAGE_DIGITIZER \<or> st_digitizer_depth st > 0
              then st_digitizer_depth st + 1 else st_digitizer_depth st),
           st_depth := st_depth st + 1, st_locals := locals_default\<rparr>)
      else if tag = 0xC then
        Some (st\<lparr>st_depth := st_depth st - 1, st_digitizer_depth := st_digitizer_depth st - 1,
           st_locals := locals_default\<rparr>)
      else Some (st\<lparr>st_locals := locals_default\<rparr>))"

definition global_item :: "u8 \<Rightarrow> nat \<Rightarrow> u32 \<Rightarrow> hid_state \<Rightarrow> hid_state option" where
  "global_item tag width data st =
     (let g = st_globals st
      in if tag = 0x0 then Some (st\<lparr>st_globals := g\<lparr>usage_page := ucast data\<rparr>\<rparr>)
         else if tag = 0x1 then Some (st\<lparr>st_globals := g\<lparr>logical_minimum := signed_reading width data\<rparr>\<rparr>)
         else if tag = 0x7 then Some (st\<lparr>st_globals := g\<lparr>report_size := ucast data\<rparr>\<rparr>)
         else if tag = 0x8 then Some (st\<lparr>st_globals := g\<lparr>report_id := Some (ucast data)\<rparr>\<rparr>)
         else if tag = 0x9 then Some (st\<lparr>st_globals := g\<lparr>report_count := ucast data\<rparr>\<rparr>)
         else if tag = 0xA \<or> tag = 0xB then None
         else Some st)"

definition local_item :: "u8 \<Rightarrow> nat \<Rightarrow> u32 \<Rightarrow> hid_state \<Rightarrow> hid_state" where
  "local_item tag width data st =
     (if tag = 0x0 then
        (if width = 4
         then st\<lparr>st_globals := (st_globals st)\<lparr>usage_page := ucast (drop_bit 16 data)\<rparr>,
                 st_locals := usages_push (data AND 0xFFFF) (st_locals st)\<rparr>
         else st\<lparr>st_locals := usages_push data (st_locals st)\<rparr>)
      else if tag = 0x1 then st\<lparr>st_locals := (st_locals st)\<lparr>usage_min := Some data\<rparr>\<rparr>
      else if tag = 0x2 then st\<lparr>st_locals := (st_locals st)\<lparr>usage_max := Some data\<rparr>\<rparr>
      else st)"

definition hid_item :: "u8 \<Rightarrow> u8 list \<Rightarrow> hid_state \<Rightarrow> hid_state option" where
  "hid_item prefix data st =
     (let width = length data;
          kind = drop_bit 2 prefix AND 0x03;
          tag = drop_bit 4 prefix;
          value = le_word data
      in if kind = 0 then main_item tag value st
         else if kind = 1 then global_item tag width value st
         else if kind = 2 then Some (local_item tag width value st)
         else Some st)"

definition item_size :: "u8 \<Rightarrow> nat" where
  "item_size prefix = (let n = unat (prefix AND 0x03) in if n = 3 then 4 else n)"

function hid_loop :: "u8 list \<Rightarrow> nat \<Rightarrow> hid_state \<Rightarrow> hid_state option" where
  "hid_loop descriptor at st =
     (if at < length descriptor then
        (let prefix = descriptor ! at;
             at = at + 1
         in if prefix = 0xFE then
              (case get_at descriptor at of
                 None \<Rightarrow> None
               | Some len \<Rightarrow> hid_loop descriptor (at + 2 + unat len) st)
            else
              (case get_range descriptor at (at + item_size prefix) of
                 None \<Rightarrow> None
               | Some data \<Rightarrow>
                   (case hid_item prefix data st of
                      None \<Rightarrow> None
                    | Some st' \<Rightarrow> hid_loop descriptor (at + item_size prefix) st')))
      else Some st)"
  by pat_completeness auto

termination hid_loop
  by (relation "measure (\<lambda>(descriptor, at, st). length descriptor - at)") auto

declare hid_loop.simps [simp del]

definition hid_parse :: "u8 list \<Rightarrow> slots option" where
  "hid_parse descriptor = map_option st_candidates (hid_loop descriptor 0 hid_init)"

definition div_ceil_8 :: "u64 \<Rightarrow> u64" where
  "div_ceil_8 n = (if n mod 8 > 0 then n div 8 + 1 else n div 8)"

definition find_pointer :: "u8 list \<Rightarrow> pointer_layout option" where
  "find_pointer descriptor =
     do {
       candidates \<leftarrow> hid_parse descriptor;
       found \<leftarrow> List.find complete (List.map_filter id candidates);
       x \<leftarrow> cand_x found;
       y \<leftarrow> cand_y found;
       Some \<lparr>ptr_report_id = cand_report_id found, ptr_body_bytes = div_ceil_8 (cand_bits found),
         ptr_x = x, ptr_y = y, ptr_buttons = cand_buttons found, ptr_wheel = cand_wheel found\<rparr>
     }"

definition find_keyboard :: "u8 list \<Rightarrow> keyboard_layout option" where
  "find_keyboard descriptor =
     do {
       candidates \<leftarrow> hid_parse descriptor;
       found \<leftarrow> List.find is_keyboard (List.map_filter id candidates);
       keys \<leftarrow> cand_keys found;
       Some \<lparr>kbd_report_id = cand_report_id found, kbd_body_bytes = div_ceil_8 (cand_bits found),
         kbd_modifiers = cand_modifiers found, kbd_keys = keys\<rparr>
     }"

section \<open>What a field reads\<close>

text \<open>The bit of a report body at a bit position, and whether the position is inside it.\<close>

definition body_bit :: "u8 list \<Rightarrow> u64 \<Rightarrow> bool" where
  "body_bit body at \<longleftrightarrow> bit (body ! unat (at div 8)) (unat (at mod 8))"

definition in_body :: "u8 list \<Rightarrow> u64 \<Rightarrow> bool" where
  "in_body body at \<longleftrightarrow> unat (at div 8) < length body"

lemma value_loop_Some:
  "value_loop body start b left raw = Some r \<Longrightarrow> b + left \<le> 32 \<Longrightarrow>
     bit r j \<longleftrightarrow> bit raw j \<or> (b \<le> j \<and> j < b + left \<and> body_bit body (start + of_nat j))"
proof (induction left arbitrary: b raw)
  case 0
  then show ?case by auto
next
  case (Suc left)
  let ?at = "start + of_nat b"
  let ?raw = "if body_bit body ?at then raw OR shl1 b else raw"
  from Suc.prems have v: "value_loop body start (Suc b) left ?raw = Some r"
    by (auto simp: Let_def body_bit_def drop_bit_and_1 drop_bit_and_1_eq get_at_def split: option.splits if_splits)
  have "bit ?raw j \<longleftrightarrow> bit raw j \<or> (j = b \<and> body_bit body ?at)"
    using Suc.prems(2) by (auto simp: bit_or_iff bit_shl1_iff)
  with Suc.IH [OF v] Suc.prems(2) show ?case by (auto simp: Suc_le_eq le_less)
qed

lemma value_loop_defined:
  "(\<forall>j<left. in_body body (start + of_nat (b + j))) \<Longrightarrow> value_loop body start b left raw \<noteq> None"
proof (induction left arbitrary: b raw)
  case 0
  then show ?case by simp
next
  case (Suc left)
  from Suc.prems have "in_body body (start + of_nat b)" by (metis add_0_right zero_less_Suc)
  moreover have "\<forall>j<left. in_body body (start + of_nat (Suc b + j))"
  proof (intro allI impI)
    fix j assume "j < left"
    with Suc.prems have "in_body body (start + of_nat (b + Suc j))" by blast
    then show "in_body body (start + of_nat (Suc b + j))" by simp
  qed
  then have "value_loop body start (Suc b) left raw' \<noteq> None" for raw'
    by (rule Suc.IH)
  ultimately show ?case
    by (simp add: Let_def in_body_def get_at_def)
qed

lemma value_loop_short:
  "value_loop body start b left raw = Some r \<Longrightarrow> j < left \<Longrightarrow> in_body body (start + of_nat (b + j))"
proof (induction left arbitrary: b raw j)
  case 0
  then show ?case by simp
next
  case (Suc left)
  from Suc.prems(1) obtain raw' where r: "in_body body (start + of_nat b)" "value_loop body start (Suc b) left raw' = Some r"
    by (auto simp: Let_def in_body_def get_at_def split: option.splits if_splits)
  show ?case
  proof (cases j)
    case 0
    with r show ?thesis by simp
  next
    case (Suc k)
    with Suc.IH [OF r(2), of k] Suc.prems(2) show ?thesis by simp
  qed
qed

lemma field_value_bits:
  assumes f: "index < field_count f" "bit_size f \<noteq> 0" "bit_size f \<le> 32"
    and body: "\<And>j. j < unat (bit_size f) \<Longrightarrow> in_body body (bit_offset f + index * bit_size f + of_nat j)"
  shows "bit (field_value f body index) j \<longleftrightarrow> j < 32 \<and>
    (if j < unat (bit_size f) then body_bit body (bit_offset f + index * bit_size f + of_nat j)
     else is_signed f \<and> body_bit body (bit_offset f + index * bit_size f + of_nat (unat (bit_size f) - 1)))"
proof -
  define n where "n = unat (bit_size f)"
  define s where "s = bit_offset f + index * bit_size f"
  have n: "0 < n" "n \<le> 32"
    using f by (simp_all add: n_def unat_gt_0 word_le_nat_alt)
  obtain raw where raw: "value_loop body s 0 n 0 = Some raw"
    using value_loop_defined [of n body s 0 0] body by (auto simp: n_def s_def)
  have bits: "bit raw k \<longleftrightarrow> k < n \<and> body_bit body (s + of_nat k)" for k
    using value_loop_Some [OF raw, of k] n by simp
  have v: "field_value f body index =
      (if is_signed f \<and> n < 32 \<and> bit raw (n - 1) then raw OR push_bit n (NOT 0) else raw)"
  proof -
    have c: "\<not> (index \<ge> field_count f \<or> bit_size f = 0 \<or> bit_size f > 32)" using f by auto
    show ?thesis
      unfolding field_value_def if_not_P [OF c] Let_def n_def [symmetric] s_def [symmetric] raw option.case
        drop_bit_and_1 by (rule refl)
  qed
  have top: "bit (push_bit n (NOT 0) :: u32) j \<longleftrightarrow> n \<le> j \<and> j < 32"
    by (auto simp: bit_simps)
  have sb: "bit raw (n - 1) \<longleftrightarrow> body_bit body (s + of_nat (n - 1))"
    using bits [of "n - 1"] n by simp
  have jb: "bit raw j \<longleftrightarrow> j < n \<and> body_bit body (s + of_nat j)" by (rule bits)
  show ?thesis
    unfolding v n_def [symmetric] s_def [symmetric] if_distrib [of "\<lambda>w. bit w j"] bit_or_iff top sb jb
    using n by (cases "j < n"; cases "j < 32") simp_all
qed

lemma field_value_outside:
  assumes "j < unat (bit_size f)" "\<not> in_body body (bit_offset f + index * bit_size f + of_nat j)"
  shows "field_value f body index = 0"
  using assms value_loop_short [of body "bit_offset f + index * bit_size f" 0 "unat (bit_size f)" 0 _ j]
  by (auto simp: field_value_def Let_def split: option.split)

section \<open>One candidate per report ID\<close>

definition slots_ok :: "slots \<Rightarrow> nat \<Rightarrow> bool" where
  "slots_ok cs used \<longleftrightarrow> length cs = MAX_REPORTS \<and> used \<le> MAX_REPORTS \<and>
     (\<forall>k<MAX_REPORTS. cs ! k \<noteq> None \<longleftrightarrow> k < used) \<and>
     (\<forall>k<used. \<forall>l<used. k \<noteq> l \<longrightarrow> cand_report_id (the (cs ! k)) \<noteq> cand_report_id (the (cs ! l)))"

lemma slot_for_ok:
  assumes ok: "slots_ok cs used" and s: "slot_for cs used i = Some (slot, cs', used')"
  shows "slots_ok cs' used' \<and> slot < used' \<and> (\<exists>c. cs' ! slot = Some c \<and> cand_report_id c = i)"
proof (cases "iter_position (\<lambda>slot. case slot of None \<Rightarrow> False | Some c \<Rightarrow> cand_report_id c = i) cs")
  case (Some k)
  with s have e: "slot = k" "cs' = cs" "used' = used" by (simp_all add: slot_for_def)
  from iter_position_Some [OF Some] obtain c where c: "k < length cs" "cs ! k = Some c" "cand_report_id c = i"
    by (auto split: option.splits)
  with ok have "k < used" by (auto simp: slots_ok_def)
  with ok c e show ?thesis by blast
next
  case None
  with s have u: "used \<noteq> MAX_REPORTS" and e: "slot = used" "cs' = cs[used := Some (candidate_new i)]" "used' = used + 1"
    by (auto simp: slot_for_def split: if_splits)
  from ok have len: "length cs = MAX_REPORTS" and un: "used < MAX_REPORTS"
    using u by (auto simp: slots_ok_def)
  have fresh: "cand_report_id (the (cs ! k)) \<noteq> i" if "k < used" for k
  proof -
    have "k < MAX_REPORTS" using that un by simp
    with ok that obtain c where "cs ! k = Some c" unfolding slots_ok_def by blast
    moreover have "cs ! k \<in> set cs" using that un len by simp
    ultimately show ?thesis using None unfolding iter_position_None by fastforce
  qed
  have other: "cs' ! k = cs ! k" if "k \<noteq> used" for k using that by (simp add: e)
  have new: "cs' ! used = Some (candidate_new i)" using len un by (simp add: e)
  have "slots_ok cs' used'"
    unfolding slots_ok_def
  proof (intro conjI allI impI)
    show "length cs' = MAX_REPORTS" using len by (simp add: e)
    show "used' \<le> MAX_REPORTS" using un by (simp add: e)
    show "(cs' ! k \<noteq> None) = (k < used')" if "k < MAX_REPORTS" for k
      using ok that new other [of k] by (cases "k = used") (auto simp: slots_ok_def e(3))
    show "cand_report_id (the (cs' ! k)) \<noteq> cand_report_id (the (cs' ! l))"
      if "k < used'" "l < used'" "k \<noteq> l" for k l
      using ok that new other [of k] other [of l] fresh [of k] fresh [of l]
      by (cases "k = used"; cases "l = used") (auto simp: slots_ok_def e(3) candidate_new_def)
  qed
  with new e show ?thesis by (simp add: candidate_new_def)
qed

lemma record_item_id [simp]: "cand_report_id (record_item g l relative variable c) = cand_report_id c"
proof -
  have u: "cand_report_id (record_usage g l relative index c) = cand_report_id c" for index c
    by (simp add: record_usage_def Let_def)
  have "cand_report_id (fold (record_usage g l relative) is c) = cand_report_id c" for "is" c
    by (induction "is" arbitrary: c) (simp_all add: u)
  then show ?thesis by (simp add: record_item_def Let_def)
qed

lemma input_candidate_id [simp]: "cand_report_id (input_candidate flags st c) = cand_report_id c"
  by (simp add: input_candidate_def Let_def)

lemma slots_ok_update:
  assumes "slots_ok cs used" "slot < used" "cs ! slot = Some c" "cand_report_id c' = cand_report_id c"
  shows "slots_ok (cs[slot := Some c']) used"
proof -
  have slot: "slot < length cs" using assms(1,2) by (auto simp: slots_ok_def)
  have some: "(cs[slot := Some c'] ! k \<noteq> None) = (cs ! k \<noteq> None)" for k
    using slot assms(3) by (cases "k = slot") simp_all
  have id: "cand_report_id (the (cs[slot := Some c'] ! k)) = cand_report_id (the (cs ! k))" for k
    using slot assms(3,4) by (cases "k = slot") simp_all
  show ?thesis
    using assms(1) unfolding slots_ok_def id some by simp
qed

lemma input_item_ok:
  assumes "slots_ok (st_candidates st) (st_used st)" "input_item flags st = Some st'"
  shows "slots_ok (st_candidates st') (st_used st')"
proof -
  from assms(2) obtain slot cs used c where s: "slot_for (st_candidates st) (st_used st) (report_id (st_globals st)) = Some (slot, cs, used)"
    and c: "cs ! slot = Some c"
    and st': "st_candidates st' = cs[slot := Some (input_candidate flags st c)]" "st_used st' = used"
    by (auto simp: input_item_def bind_eq_Some_conv)
  from slot_for_ok [OF assms(1) s] slots_ok_update [OF _ _ c] show ?thesis by (simp add: st')
qed

lemma hid_item_ok:
  assumes "slots_ok (st_candidates st) (st_used st)" "hid_item prefix data st = Some st'"
  shows "slots_ok (st_candidates st') (st_used st')"
  using assms input_item_ok [OF assms(1)]
  by (auto simp: hid_item_def Let_def main_item_def global_item_def local_item_def split: if_splits)

lemma hid_loop_ok:
  "hid_loop descriptor at st = Some st' \<Longrightarrow> slots_ok (st_candidates st) (st_used st) \<Longrightarrow>
     slots_ok (st_candidates st') (st_used st')"
proof (induction descriptor at st rule: hid_loop.induct)
  case (1 descriptor at st)
  show ?case
    using "1.prems"(1) 1
    by (subst (asm) (3) hid_loop.simps)
      (auto simp: Let_def split: if_splits option.splits dest: hid_item_ok)
qed

lemma slots_ok_init: "slots_ok (st_candidates hid_init) (st_used hid_init)"
  by (simp add: slots_ok_def hid_init_def)

text \<open>A body that holds the number \<open>v\<close> in the \<open>n\<close> bits from a bit position on, least significant bit first.\<close>

definition holds_value :: "u8 list \<Rightarrow> u64 \<Rightarrow> nat \<Rightarrow> int \<Rightarrow> bool" where
  "holds_value body at n v \<longleftrightarrow>
     (\<forall>j<n. in_body body (at + of_nat j) \<and> body_bit body (at + of_nat j) = bit v j)"

lemma holds_value_field:
  assumes f: "index < field_count f" "bit_size f \<noteq> 0" "bit_size f \<le> 32"
    and v: "holds_value body (bit_offset f + index * bit_size f) (unat (bit_size f)) v"
    and above: "\<And>j. unat (bit_size f) \<le> j \<Longrightarrow> bit v j = (is_signed f \<and> bit v (unat (bit_size f) - 1))"
  shows "field_value f body index = word_of_int v"
proof (rule bit_word_eqI)
  fix j assume j: "j < LENGTH(32)"
  let ?n = "unat (bit_size f)" and ?at = "bit_offset f + index * bit_size f"
  have n: "?n - 1 < ?n" using f(2) by (simp add: unat_gt_0)
  have b: "bit (field_value f body index) j \<longleftrightarrow> j < 32 \<and>
      (if j < ?n then body_bit body (?at + of_nat j) else is_signed f \<and> body_bit body (?at + of_nat (?n - 1)))"
    using v by (intro field_value_bits f) (auto simp: holds_value_def)
  have at: "body_bit body (?at + of_nat k) = bit v k" if "k < ?n" for k
    using v that by (simp add: holds_value_def)
  show "bit (field_value f body index) j \<longleftrightarrow> bit (word_of_int v :: u32) j"
    using j above [of j] at [of j] at [OF n] by (cases "j < ?n") (simp_all add: b bit_simps)
qed

lemma signed_bits_above:
  assumes "- (2 ^ (n - 1)) \<le> v" "v < 2 ^ (n - 1)" "n \<le> j"
  shows "bit (v :: int) j = bit v (n - 1)"
proof -
  have "signed_take_bit (n - 1) v = v" using assms by (simp add: signed_take_bit_int_eq_self_iff)
  then show ?thesis using assms(3) bit_signed_take_bit_iff [of "n - 1" v j] by (simp add: min_def split: if_splits)
qed

lemma unsigned_bits_above:
  assumes "0 \<le> v" "v < 2 ^ n" "n \<le> j"
  shows "\<not> bit (v :: int) j"
proof -
  have "take_bit n v = v" using assms by (simp add: take_bit_int_eq_self_iff)
  then show ?thesis using assms(3) bit_take_bit_iff [of n v j] by simp
qed

lemma signed_field_value:
  assumes "index < field_count f" "bit_size f \<noteq> 0" "bit_size f \<le> 32"
    and "holds_value body (bit_offset f + index * bit_size f) (unat (bit_size f)) v"
    and "is_signed f" "- (2 ^ (unat (bit_size f) - 1)) \<le> v" "v < 2 ^ (unat (bit_size f) - 1)"
  shows "sint (field_value f body index) = v"
proof -
  let ?n = "unat (bit_size f)"
  have n: "?n - 1 \<le> 31" using assms(3) by (simp add: word_le_nat_alt)
  have p: "(2 :: int) ^ (?n - 1) \<le> 2 ^ 31" using n by (rule power_increasing) simp
  have "field_value f body index = word_of_int v"
    using signed_bits_above [OF assms(6,7)] assms by (intro holds_value_field) auto
  moreover have "signed_take_bit 31 v = v"
    using assms(6,7) p by (simp add: signed_take_bit_int_eq_self_iff)
  ultimately show ?thesis by (simp add: sint_sbintrunc')
qed

lemma unsigned_field_value:
  assumes "index < field_count f" "bit_size f \<noteq> 0" "bit_size f \<le> 32"
    and "holds_value body (bit_offset f + index * bit_size f) (unat (bit_size f)) v"
    and "\<not> is_signed f" "0 \<le> v" "v < 2 ^ unat (bit_size f)"
  shows "uint (field_value f body index) = v"
proof -
  let ?n = "unat (bit_size f)"
  have n: "?n \<le> 32" using assms(3) by (simp add: word_le_nat_alt)
  have p: "(2 :: int) ^ ?n \<le> 2 ^ 32" using n by (rule power_increasing) simp
  have "field_value f body index = word_of_int v"
    using unsigned_bits_above [OF assms(6,7)] assms by (intro holds_value_field) auto
  moreover have "v mod 4294967296 = v"
    using assms(6,7) p by (intro mod_pos_pos_trivial) simp_all
  ultimately show ?thesis by (simp add: uint_word_of_int)
qed

section \<open>The descriptor as a sequence of items\<close>

text \<open>
  The items of a descriptor by the grammar of the specification: a prefix and as many data bytes as
  the prefix says, long items left out.  The loop over offsets is the fold of the item handler over them.
\<close>

type_synonym item = "u8 \<times> u8 list"

function hid_items :: "u8 list \<Rightarrow> item list option" where
  "hid_items [] = Some []"
| "hid_items (prefix # rest) =
     (if prefix = 0xFE then (case rest of [] \<Rightarrow> None | len # others \<Rightarrow> hid_items (drop (1 + unat len) others))
      else if item_size prefix \<le> length rest
      then map_option ((#) (prefix, take (item_size prefix) rest)) (hid_items (drop (item_size prefix) rest))
      else None)"
  by pat_completeness auto

termination hid_items
  by (relation "measure length") auto

declare hid_items.simps(2) [simp del]

fun hid_fold :: "item list \<Rightarrow> hid_state \<Rightarrow> hid_state option" where
  "hid_fold [] st = Some st"
| "hid_fold ((prefix, data) # items) st =
     (case hid_item prefix data st of None \<Rightarrow> None | Some st' \<Rightarrow> hid_fold items st')"

lemma drop_Cons: "at < length d \<Longrightarrow> drop at d = d ! at # drop (Suc at) d"
  by (rule Cons_nth_drop_Suc [symmetric])

lemma hid_fold_append:
  "hid_fold (items @ later) st = Option.bind (hid_fold items st) (hid_fold later)"
  by (induction items st rule: hid_fold.induct) (auto split: option.split)

lemma hid_loop_items:
  "hid_loop descriptor at st =
     (case hid_items (drop at descriptor) of None \<Rightarrow> None | Some items \<Rightarrow> hid_fold items st)"
proof (induction descriptor at st rule: hid_loop.induct)
  case (1 d at st)
  show ?case
  proof (cases "at < length d")
    case False
    then show ?thesis by (simp add: hid_loop.simps)
  next
    case at: True
    then have d: "drop at d = d ! at # drop (Suc at) d" by (rule drop_Cons)
    show ?thesis
    proof (cases "d ! at = 0xFE")
      case long: True
      show ?thesis
      proof (cases "Suc at < length d")
        case True
        have "drop (Suc at) d = d ! Suc at # drop (Suc (Suc at)) d" using True by (rule drop_Cons)
        moreover have "hid_loop d at st = hid_loop d (Suc (Suc (Suc (at + unat (d ! Suc at))))) st"
          using at long True by (subst hid_loop.simps) (simp add: Let_def get_at_def add.commute)
        ultimately show ?thesis
          using "1.IH"(1) [OF at refl refl long, of "d ! Suc at"] long True
          by (simp add: d hid_items.simps(2) get_at_def add.commute add.left_commute)
      next
        case False
        then show ?thesis using at long by (subst hid_loop.simps) (simp add: d hid_items.simps(2) Let_def get_at_def)
      qed
    next
      case short: False
      let ?n = "item_size (d ! at)"
      show ?thesis
      proof (cases "Suc at + ?n \<le> length d")
        case True
        then have r: "get_range d (Suc at) (Suc at + ?n) = Some (take ?n (drop (Suc at) d))"
          by (simp add: get_range_def)
        have fits: "?n \<le> length (drop (Suc at) d)" using True by simp
        show ?thesis
        proof (cases "hid_item (d ! at) (take ?n (drop (Suc at) d)) st")
          case None
          then show ?thesis using at short r fits
            by (subst hid_loop.simps) (auto simp: d hid_items.simps(2) Let_def split: option.splits)
        next
          case (Some st')
          have l: "hid_loop d at st = hid_loop d (Suc at + ?n) st'"
            using at short r Some by (subst hid_loop.simps) (simp add: Let_def)
          show ?thesis
            using "1.IH"(2) [OF at refl refl short, of "take ?n (drop (Suc at) d)" st'] r Some short fits
            by (simp add: l d hid_items.simps(2) add.commute split: option.splits)
        qed
      next
        case False
        then show ?thesis using at short
          by (subst hid_loop.simps) (auto simp: d hid_items.simps(2) Let_def get_range_def)
      qed
    qed
  qed
qed

lemma hid_fold_ok:
  "hid_fold items st = Some st' \<Longrightarrow> slots_ok (st_candidates st) (st_used st) \<Longrightarrow>
     slots_ok (st_candidates st') (st_used st')"
  by (induction items st rule: hid_fold.induct) (auto split: option.splits dest: hid_item_ok)

subsection \<open>The length of a report\<close>

text \<open>
  The size, the count and the report ID in force, which only a global item changes, and from them the
  length in bits of the report with an ID: the sum over the input items under that ID.
\<close>

type_synonym sizing = "u64 \<times> u64 \<times> u8 option"

fun sizing_after :: "item \<Rightarrow> sizing \<Rightarrow> sizing" where
  "sizing_after (prefix, data) (s, n, i) =
     (if drop_bit 2 prefix AND 0x03 = 1 then
        (if drop_bit 4 prefix = 7 then (ucast (le_word data :: u32), n, i)
         else if drop_bit 4 prefix = 9 then (s, ucast (le_word data :: u32), i)
         else if drop_bit 4 prefix = 8 then (s, n, Some (ucast (le_word data :: u32)))
         else (s, n, i))
      else (s, n, i))"

definition is_input_item :: "u8 \<Rightarrow> bool" where
  "is_input_item prefix \<longleftrightarrow> drop_bit 2 prefix AND 0x03 = 0 \<and> drop_bit 4 prefix = 8"

fun input_bits :: "item list \<Rightarrow> sizing \<Rightarrow> u8 option \<Rightarrow> u64" where
  "input_bits [] z i = 0"
| "input_bits ((prefix, data) # items) (s, n, j) i =
     (if is_input_item prefix \<and> j = i then s * n else 0) + input_bits items (sizing_after (prefix, data) (s, n, j)) i"

definition st_sizing :: "hid_state \<Rightarrow> sizing" where
  "st_sizing st = (report_size (st_globals st), report_count (st_globals st), report_id (st_globals st))"

definition slot_bits :: "u8 option \<Rightarrow> report_candidate option \<Rightarrow> u64" where
  "slot_bits i slot = (case slot of None \<Rightarrow> 0 | Some c \<Rightarrow> if cand_report_id c = i then cand_bits c else 0)"

definition bits_under :: "slots \<Rightarrow> u8 option \<Rightarrow> u64" where
  "bits_under cs i = (\<Sum>k<length cs. slot_bits i (cs ! k))"

lemma bits_under_update:
  assumes "k < length cs"
  shows "bits_under (cs[k := new]) i = bits_under cs i - slot_bits i (cs ! k) + slot_bits i new"
proof -
  let ?rest = "\<lambda>cs. \<Sum>j\<in>{..<length cs} - {k}. slot_bits i (cs ! j)"
  have split: "bits_under xs i = slot_bits i (xs ! k) + ?rest xs" if "k < length xs" for xs
    unfolding bits_under_def using that by (intro sum.remove) auto
  have "?rest (cs[k := new]) = ?rest cs" by (intro sum.cong) auto
  then show ?thesis using assms by (simp add: split)
qed

lemma slot_for_bits:
  assumes "slots_ok cs used" "slot_for cs used i = Some (slot, cs', used')"
  shows "bits_under cs' = bits_under cs"
proof -
  have "bits_under (cs[used := Some (candidate_new i)]) j = bits_under cs j" if "used \<noteq> MAX_REPORTS" for j
  proof -
    have used: "used < MAX_REPORTS" "length cs = MAX_REPORTS" using assms(1) that by (auto simp: slots_ok_def)
    moreover have "(cs ! used \<noteq> None) = (used < used)" using assms(1) used unfolding slots_ok_def by blast
    ultimately have "used < length cs" "cs ! used = None" by simp_all
    then show ?thesis by (simp add: bits_under_update slot_bits_def candidate_new_def)
  qed
  then show ?thesis using assms(2) by (auto simp: slot_for_def split: option.splits if_splits)
qed

lemma record_item_bits [simp]: "cand_bits (record_item g l relative variable c) = cand_bits c"
proof -
  have u: "cand_bits (record_usage g l relative index c) = cand_bits c" for index c
    by (simp add: record_usage_def Let_def)
  have "cand_bits (fold (record_usage g l relative) is c) = cand_bits c" for "is" c
    by (induction "is" arbitrary: c) (simp_all add: u)
  then show ?thesis by (simp add: record_item_def Let_def)
qed

lemma input_candidate_bits:
  "cand_bits (input_candidate flags st c) = cand_bits c + report_size (st_globals st) * report_count (st_globals st)"
  by (simp add: input_candidate_def Let_def)

lemma input_item_bits:
  assumes ok: "slots_ok (st_candidates st) (st_used st)" and r: "input_item flags st = Some st'"
  shows "bits_under (st_candidates st') i = bits_under (st_candidates st) i +
    (if report_id (st_globals st) = i then report_size (st_globals st) * report_count (st_globals st) else 0)"
    and "st_sizing st' = st_sizing st"
proof -
  from r obtain slot cs used c where s: "slot_for (st_candidates st) (st_used st) (report_id (st_globals st)) = Some (slot, cs, used)"
    and c: "cs ! slot = Some c"
    and st': "st_candidates st' = cs[slot := Some (input_candidate flags st c)]" "st_globals st' = st_globals st"
    by (auto simp: input_item_def bind_eq_Some_conv)
  from slot_for_ok [OF ok s] c have w: "slot < length cs" "cand_report_id c = report_id (st_globals st)"
    by (auto simp: slots_ok_def)
  show "bits_under (st_candidates st') i = bits_under (st_candidates st) i +
      (if report_id (st_globals st) = i then report_size (st_globals st) * report_count (st_globals st) else 0)"
    using w c by (simp add: st' bits_under_update slot_bits_def input_candidate_bits slot_for_bits [OF ok s])
  show "st_sizing st' = st_sizing st" by (simp add: st_sizing_def st')
qed

lemma main_item_bits:
  assumes "slots_ok (st_candidates st) (st_used st)" "main_item tag data st = Some st'"
  shows "bits_under (st_candidates st') i = bits_under (st_candidates st) i +
    (if tag = 8 \<and> report_id (st_globals st) = i then report_size (st_globals st) * report_count (st_globals st) else 0)"
    and "st_sizing st' = st_sizing st"
proof -
  have "bits_under (st_candidates st') i = bits_under (st_candidates st) i +
    (if tag = 8 \<and> report_id (st_globals st) = i then report_size (st_globals st) * report_count (st_globals st) else 0)
    \<and> st_sizing st' = st_sizing st"
  proof (cases "tag = 8")
    case True
    with assms(2) have r: "input_item data st = Some st'" by (simp add: main_item_def)
    show ?thesis using input_item_bits [OF assms(1) r] True by simp
  next
    case False
    have "st_candidates st' = st_candidates st" "st_globals st' = st_globals st"
      using assms(2) False unfolding main_item_def by (simp_all split: if_splits, auto)
    then show ?thesis using False by (simp add: st_sizing_def)
  qed
  then show "bits_under (st_candidates st') i = bits_under (st_candidates st) i +
    (if tag = 8 \<and> report_id (st_globals st) = i then report_size (st_globals st) * report_count (st_globals st) else 0)"
    and "st_sizing st' = st_sizing st" by blast+
qed

lemma global_item_bits:
  assumes "global_item tag width data st = Some st'"
  shows "st_candidates st' = st_candidates st"
    and "st_sizing st' = (if tag = 7 then (ucast data, report_count (st_globals st), report_id (st_globals st))
      else if tag = 9 then (report_size (st_globals st), ucast data, report_id (st_globals st))
      else if tag = 8 then (report_size (st_globals st), report_count (st_globals st), Some (ucast data))
      else st_sizing st)"
proof -
  consider "tag = 0" | "tag = 1" | "tag = 7" | "tag = 8" | "tag = 9"
    | "tag \<noteq> 0" "tag \<noteq> 1" "tag \<noteq> 7" "tag \<noteq> 8" "tag \<noteq> 9" "tag \<noteq> 0xA" "tag \<noteq> 0xB"
    using assms by (auto simp: global_item_def Let_def split: if_splits)
  note tags = this
  show "st_candidates st' = st_candidates st"
    using tags assms by cases (auto simp: global_item_def Let_def)
  show "st_sizing st' = (if tag = 7 then (ucast data, report_count (st_globals st), report_id (st_globals st))
      else if tag = 9 then (report_size (st_globals st), ucast data, report_id (st_globals st))
      else if tag = 8 then (report_size (st_globals st), report_count (st_globals st), Some (ucast data))
      else st_sizing st)"
    using tags assms by cases (auto simp: global_item_def Let_def st_sizing_def)
qed

lemma local_item_bits:
  "st_candidates (local_item tag width data st) = st_candidates st"
  "st_sizing (local_item tag width data st) = st_sizing st"
  by (simp_all add: local_item_def st_sizing_def)

lemma hid_item_bits:
  assumes ok: "slots_ok (st_candidates st) (st_used st)" and r: "hid_item prefix data st = Some st'"
  shows "bits_under (st_candidates st') i = bits_under (st_candidates st) i +
    (if is_input_item prefix \<and> report_id (st_globals st) = i then report_size (st_globals st) * report_count (st_globals st) else 0)"
      (is ?bits)
    and "st_sizing st' = sizing_after (prefix, data) (st_sizing st)" (is ?sizing)
proof -
  let ?kind = "drop_bit 2 prefix AND 0x03" and ?tag = "drop_bit 4 prefix" and ?v = "le_word data :: u32"
  consider (main) "?kind = 0" | (global) "?kind = 1" | (local) "?kind = 2" | (other) "?kind \<noteq> 0" "?kind \<noteq> 1" "?kind \<noteq> 2"
    by blast
  then have "?bits \<and> ?sizing"
  proof cases
    case main
    with r have "main_item ?tag ?v st = Some st'" by (simp add: hid_item_def Let_def)
    from main_item_bits [OF ok this] main show ?thesis by (simp add: is_input_item_def st_sizing_def)
  next
    case global
    with r have "global_item ?tag (length data) ?v st = Some st'" by (simp add: hid_item_def Let_def)
    from global_item_bits [OF this] global show ?thesis by (simp add: is_input_item_def st_sizing_def)
  next
    case local
    with r have "st' = local_item ?tag (length data) ?v st" by (simp add: hid_item_def Let_def)
    with local_item_bits [of ?tag "length data" ?v st] local show ?thesis by (simp add: is_input_item_def st_sizing_def)
  next
    case other
    with r show ?thesis by (simp add: hid_item_def Let_def is_input_item_def st_sizing_def)
  qed
  then show ?bits ?sizing by blast+
qed

lemma hid_fold_bits:
  "hid_fold items st = Some st' \<Longrightarrow> slots_ok (st_candidates st) (st_used st) \<Longrightarrow>
     bits_under (st_candidates st') i = bits_under (st_candidates st) i + input_bits items (st_sizing st) i"
proof (induction items st rule: hid_fold.induct)
  case (2 prefix data items st)
  then obtain st1 where st1: "hid_item prefix data st = Some st1" "hid_fold items st1 = Some st'"
    by (auto split: option.splits)
  have "bits_under (st_candidates st') i = bits_under (st_candidates st1) i + input_bits items (st_sizing st1) i"
    using 2 st1 hid_item_ok by blast
  then show ?case
    unfolding hid_item_bits [OF "2.prems"(2) st1(1)] by (simp add: st_sizing_def)
qed simp

subsection \<open>Descriptors written out as items\<close>

definition item_bytes :: "item \<Rightarrow> u8 list" where
  "item_bytes i = fst i # snd i"

definition short_item :: "item \<Rightarrow> bool" where
  "short_item i \<longleftrightarrow> fst i \<noteq> 0xFE \<and> length (snd i) = item_size (fst i)"

lemma hid_items_bytes:
  "list_all short_item items \<Longrightarrow> hid_items (concat (map item_bytes items)) = Some items"
proof (induction items)
  case (Cons i items)
  then show ?case
    by (cases i) (simp add: item_bytes_def short_item_def hid_items.simps(2))
qed simp

lemma hid_parse_items:
  "hid_parse descriptor = Option.bind (hid_items descriptor) (\<lambda>items. map_option st_candidates (hid_fold items hid_init))"
  by (simp add: hid_parse_def hid_loop_items split: option.split)

lemma hid_parse_slots:
  assumes "hid_parse descriptor = Some cs"
  obtains items st where "hid_items descriptor = Some items" "hid_fold items hid_init = Some st"
    "cs = st_candidates st" "slots_ok cs (st_used st)"
    "\<forall>i. bits_under cs i = input_bits items (0, 0, None) i"
proof -
  from assms obtain items st where i: "hid_items descriptor = Some items" "hid_fold items hid_init = Some st" "cs = st_candidates st"
    by (auto simp: hid_parse_items bind_eq_Some_conv)
  have "bits_under cs j = input_bits items (0, 0, None) j" for j
    using hid_fold_bits [OF i(2) slots_ok_init, of j] i(3)
    by (simp add: hid_init_def bits_under_def slot_bits_def st_sizing_def globals_default_def)
  then have "\<forall>j. bits_under cs j = input_bits items (0, 0, None) j" by blast
  moreover have "slots_ok cs (st_used st)" using hid_fold_ok [OF i(2) slots_ok_init] i(3) by simp
  ultimately show ?thesis using i that by blast
qed

lemma slots_ok_distinct:
  assumes "slots_ok cs used" "k < length cs" "l < length cs" "k \<noteq> l" "cs ! k = Some c" "cs ! l = Some c'"
  shows "cand_report_id c \<noteq> cand_report_id c'"
proof -
  have "k < used" "l < used" using assms unfolding slots_ok_def by auto
  with assms have "cand_report_id (the (cs ! k)) \<noteq> cand_report_id (the (cs ! l))" unfolding slots_ok_def by blast
  with assms show ?thesis by simp
qed

lemma bits_under_candidate:
  assumes ok: "slots_ok cs used" and c: "Some c \<in> set cs"
  shows "bits_under cs (cand_report_id c) = cand_bits c"
proof -
  from c obtain k where k: "k < length cs" "cs ! k = Some c" by (auto simp: in_set_conv_nth)
  have "slot_bits (cand_report_id c) (cs ! l) = 0" if "l \<in> {..<length cs} - {k}" for l
    using slots_ok_distinct [OF ok _ k(1) _ _ k(2), of l] that by (auto simp: slot_bits_def split: option.split)
  then have "(\<Sum>l\<in>{..<length cs} - {k}. slot_bits (cand_report_id c) (cs ! l)) = 0"
    by (intro sum.neutral) blast
  then show ?thesis
    using k sum.remove [of "{..<length cs}" k "\<lambda>l. slot_bits (cand_report_id c) (cs ! l)"]
    by (simp add: bits_under_def slot_bits_def)
qed

lemma find_in_slots:
  assumes "List.find P (List.map_filter id cs) = Some c"
  shows "Some c \<in> set cs \<and> P c"
proof -
  from assms obtain i where "i < length (List.map_filter id cs)" "c = List.map_filter id cs ! i" "P c"
    by (auto simp: find_Some_iff)
  then have "c \<in> set (List.map_filter id cs)" "P c" by simp_all
  then show ?thesis by (auto simp: List.map_filter_def)
qed

lemma find_pointer_Some:
  assumes "find_pointer descriptor = Some p"
  obtains cs c where "hid_parse descriptor = Some cs" "Some c \<in> set cs" "complete c"
    "ptr_report_id p = cand_report_id c" "ptr_body_bytes p = div_ceil_8 (cand_bits c)"
    "cand_x c = Some (ptr_x p)" "cand_y c = Some (ptr_y p)" "ptr_buttons p = cand_buttons c" "ptr_wheel p = cand_wheel c"
  using assms by (auto simp: find_pointer_def bind_eq_Some_conv dest!: find_in_slots)

lemma find_keyboard_Some:
  assumes "find_keyboard descriptor = Some k"
  obtains cs c where "hid_parse descriptor = Some cs" "Some c \<in> set cs"
    "kbd_report_id k = cand_report_id c" "kbd_body_bytes k = div_ceil_8 (cand_bits c)"
    "cand_keys c = Some (kbd_keys k)" "kbd_modifiers k = cand_modifiers c"
  using assms by (auto simp: find_keyboard_def bind_eq_Some_conv dest!: find_in_slots)

section \<open>Properties\<close>

text \<open>The three-button mouse of the unit tests, and a pointer that reports positions.\<close>

definition plain_mouse :: "u8 list" where
  "plain_mouse =
     [0x05, 0x01, 0x09, 0x02, 0xA1, 0x01, 0x09, 0x01, 0xA1, 0x00, 0x05, 0x09, 0x19, 0x01, 0x29, 0x03,
      0x15, 0x00, 0x25, 0x01, 0x95, 0x03, 0x75, 0x01, 0x81, 0x02, 0x95, 0x01, 0x75, 0x05, 0x81, 0x01,
      0x05, 0x01, 0x09, 0x30, 0x09, 0x31, 0x15, 0x81, 0x25, 0x7F, 0x75, 0x08, 0x95, 0x02, 0x81, 0x06,
      0xC0, 0xC0]"

definition absolute_pointer :: "u8 list" where
  "absolute_pointer = plain_mouse[47 := 0x02]"

definition mouse_x :: hid_field where
  "mouse_x = \<lparr>bit_offset = 8, bit_size = 8, field_count = 1, is_signed = True, is_relative = True\<rparr>"

lemma mouse_layout:
  "find_pointer plain_mouse = Some \<lparr>ptr_report_id = None, ptr_body_bytes = 3, ptr_x = mouse_x,
     ptr_y = mouse_x\<lparr>bit_offset := 16\<rparr>,
     ptr_buttons = Some \<lparr>bit_offset = 0, bit_size = 1, field_count = 3, is_signed = False, is_relative = False\<rparr>,
     ptr_wheel = None\<rparr>"
  by code_simp

text \<open>
  A field that lies inside the report reads as the number its bits hold: a signed field as the
  two's complement number of its width, an unsigned one as the natural number, at any bit offset.
\<close>

theorem field_value_reads_number:
  assumes "index < field_count f" "bit_size f \<noteq> 0" "bit_size f \<le> 32"
    and "holds_value body (bit_offset f + index * bit_size f) (unat (bit_size f)) v"
    and "if is_signed f then - (2 ^ (unat (bit_size f) - 1)) \<le> v \<and> v < 2 ^ (unat (bit_size f) - 1)
      else 0 \<le> v \<and> v < 2 ^ unat (bit_size f)"
  shows "(if is_signed f then sint (field_value f body index) else uint (field_value f body index)) = v"
  using assms signed_field_value [of index f body v] unsigned_field_value [of index f body v]
  by (simp split: if_splits)

lemma holds_value_list:
  "holds_value body at n v \<longleftrightarrow>
     list_all (\<lambda>j. in_body body (at + of_nat j) \<and> body_bit body (at + of_nat j) = bit v j) [0..<n]"
  by (auto simp: holds_value_def list_all_iff)

lemma field_value_reads_number_witness:
  "sint (field_value mouse_x [0x01, 0xFD, 0x03] 0) = - 3"
proof -
  have "holds_value [0x01, 0xFD, 0x03] 8 8 (- 3)"
    unfolding holds_value_list by code_simp
  then show ?thesis
    using field_value_reads_number [of 0 mouse_x "[0x01, 0xFD, 0x03]" "- 3"]
    by (simp add: mouse_x_def)
qed



text \<open>
  Every report of a descriptor has exactly one candidate: the parse always gives the sixteen slots,
  and no two of them are for the same report ID, so a report is never split over two layouts.
\<close>

theorem one_candidate_per_report:
  assumes "hid_parse descriptor = Some cs"
  shows "length cs = MAX_REPORTS \<and>
    (\<forall>k<length cs. \<forall>l<length cs. \<forall>c d. k \<noteq> l \<longrightarrow> cs ! k = Some c \<longrightarrow> cs ! l = Some d \<longrightarrow>
       cand_report_id c \<noteq> cand_report_id d)"
proof -
  from assms obtain used where ok: "slots_ok cs used" by (rule hid_parse_slots)
  then have "length cs = MAX_REPORTS" by (simp add: slots_ok_def)
  moreover have "\<forall>k<length cs. \<forall>l<length cs. \<forall>c d. k \<noteq> l \<longrightarrow> cs ! k = Some c \<longrightarrow> cs ! l = Some d \<longrightarrow>
      cand_report_id c \<noteq> cand_report_id d"
    using slots_ok_distinct [OF ok] by blast
  ultimately show ?thesis by blast
qed

lemma one_candidate_per_report_witness:
  "\<exists>cs. hid_parse plain_mouse = Some cs \<and> length cs = 16"
proof -
  obtain cs where cs: "hid_parse plain_mouse = Some cs"
    using mouse_layout by (auto elim!: find_pointer_Some)
  with one_candidate_per_report [OF cs] show ?thesis by (simp add: MAX_REPORTS_def)
qed

text \<open>
  The length of a report is the sum over the input items of its ID, whatever lies between them:
  the body length of the layouts found is that sum in bits, rounded up to bytes.
\<close>

theorem report_length:
  assumes "find_pointer descriptor = Some p" "find_keyboard descriptor = Some k"
  shows "\<exists>items. hid_items descriptor = Some items \<and>
    ptr_body_bytes p = div_ceil_8 (input_bits items (0, 0, None) (ptr_report_id p)) \<and>
    kbd_body_bytes k = div_ceil_8 (input_bits items (0, 0, None) (kbd_report_id k))"
proof -
  from assms obtain cs c d where c: "hid_parse descriptor = Some cs" "Some c \<in> set cs" "Some d \<in> set cs"
    "ptr_report_id p = cand_report_id c" "ptr_body_bytes p = div_ceil_8 (cand_bits c)"
    "kbd_report_id k = cand_report_id d" "kbd_body_bytes k = div_ceil_8 (cand_bits d)"
    by (auto elim!: find_pointer_Some find_keyboard_Some)
  from c(1) obtain items used where i: "hid_items descriptor = Some items" "slots_ok cs used"
    "\<forall>i. bits_under cs i = input_bits items (0, 0, None) i" by (elim hid_parse_slots) blast
  have len: "input_bits items (0, 0, None) (cand_report_id e) = cand_bits e" if "Some e \<in> set cs" for e
    using bits_under_candidate [OF i(2) that] i(3) by simp
  show ?thesis using i(1) c(4-7) len [OF c(2)] len [OF c(3)] by simp
qed

text \<open>A descriptor with a keyboard under report 2 and the mouse under report 1.\<close>

definition combined_device :: "u8 list" where
  "combined_device = [0x85, 1] @ plain_mouse @
     [0x85, 2, 0x05, 0x07, 0x19, 0xE0, 0x29, 0xE7, 0x75, 1, 0x95, 8, 0x81, 0x02,
      0x95, 1, 0x75, 8, 0x81, 0x01, 0x95, 6, 0x75, 8, 0x81, 0x00]"

lemma report_length_witness:
  "\<exists>p k. find_pointer combined_device = Some p \<and> find_keyboard combined_device = Some k \<and>
     ptr_body_bytes p = 3 \<and> kbd_body_bytes k = 8 \<and> (\<exists>items. hid_items combined_device = Some items \<and>
     kbd_body_bytes k = div_ceil_8 (input_bits items (0, 0, None) (kbd_report_id k)))"
proof -
  have "map_option ptr_body_bytes (find_pointer combined_device) = Some 3" by code_simp
  moreover have "map_option kbd_body_bytes (find_keyboard combined_device) = Some 8" by code_simp
  ultimately obtain p k where l: "find_pointer combined_device = Some p" "find_keyboard combined_device = Some k"
    "ptr_body_bytes p = 3" "kbd_body_bytes k = 8" by auto
  with report_length [OF l(1,2)] show ?thesis by auto
qed

text \<open>The two loops that build a boot report, and the body behind the ID.\<close>

lemma bit_modifier_bits:
  assumes "b < 8"
  shows "bit (modifier_bits f body) b \<longleftrightarrow> b < unat (field_count f) \<and> field_bit f body (of_nat b)"
proof -
  have "bit (fold (\<lambda>index bits. if field_bit f body (of_nat index) then bits OR shl1 index else bits) [0..<n] (0 :: u8)) b
      \<longleftrightarrow> b < n \<and> field_bit f body (of_nat b)" for n
    using assms by (induction n) (auto simp: bit_or_iff bit_shl1_iff less_Suc_eq)
  then show ?thesis using assms by (auto simp: modifier_bits_def)
qed

definition key_slots :: "(nat \<Rightarrow> u8) \<Rightarrow> nat \<Rightarrow> u8 list \<Rightarrow> u8 list" where
  "key_slots key n out = fold (\<lambda>slot out. out[2 + slot := key slot]) [0..<n] out"

lemma length_key_slots [simp]: "length (key_slots key n out) = length out"
  by (induction n) (simp_all add: key_slots_def)

lemma nth_key_slots:
  assumes "2 + n \<le> length out" "j < length out"
  shows "key_slots key n out ! j = (if 2 \<le> j \<and> j < 2 + n then key (j - 2) else out ! j)"
  using assms(1)
proof (induction n)
  case 0
  then show ?case by (auto simp: key_slots_def)
next
  case (Suc n)
  have "key_slots key (Suc n) out = (key_slots key n out)[2 + n := key n]" by (simp add: key_slots_def)
  then show ?case using Suc assms(2) by (cases "j = 2 + n") simp_all
qed

lemma report_body_eq:
  "report_body i report =
     (case i of None \<Rightarrow> Some report
      | Some b \<Rightarrow> if report = [] \<or> hd report \<noteq> b then None else Some (tl report))"
  by (cases report) (auto simp: report_body_def get_at_def get_from_def split: option.split)

lemma keyboard_decode_eq:
  "keyboard_decode k report =
     map_option (\<lambda>body. key_slots (\<lambda>s. usage_byte (field_value (kbd_keys k) body (of_nat s)))
         (min (unat (field_count (kbd_keys k))) 6)
         ((replicate 8 0)[0 := (case kbd_modifiers k of None \<Rightarrow> 0 | Some f \<Rightarrow> modifier_bits f body)]))
       (report_body (kbd_report_id k) report)"
  by (cases "report_body (kbd_report_id k) report")
    (auto simp: keyboard_decode_def key_slots_def numeral_eq_Suc split: option.split)

text \<open>
  A layout decodes exactly the reports that carry its ID, and the keyboard report it gives is in boot
  form: the modifier bits in the first byte, a zero, and up to six held keys, each field read from the
  body behind the ID byte.
\<close>

theorem keyboard_boot_report:
  "(keyboard_decode k report = None \<longleftrightarrow>
     (\<exists>i. kbd_report_id k = Some i \<and> (report = [] \<or> hd report \<noteq> i))) \<and>
   (\<forall>out. keyboard_decode k report = Some out \<longrightarrow>
     (let body = (if kbd_report_id k = None then report else tl report)
      in length out = 8 \<and> out ! 1 = 0 \<and>
         (\<forall>b<8. bit (out ! 0) b \<longleftrightarrow>
            (\<exists>f. kbd_modifiers k = Some f \<and> b < unat (field_count f) \<and> field_bit f body (of_nat b))) \<and>
         (\<forall>s<6. out ! (2 + s) =
            (if s < unat (field_count (kbd_keys k)) then usage_byte (field_value (kbd_keys k) body (of_nat s)) else 0))))"
proof (intro conjI allI impI)
  show "(keyboard_decode k report = None) = (\<exists>i. kbd_report_id k = Some i \<and> (report = [] \<or> hd report \<noteq> i))"
    by (simp add: keyboard_decode_eq report_body_eq split: option.split)
next
  fix out assume out: "keyboard_decode k report = Some out"
  let ?body = "if kbd_report_id k = None then report else tl report"
  let ?first = "case kbd_modifiers k of None \<Rightarrow> 0 | Some f \<Rightarrow> modifier_bits f ?body"
  let ?n = "min (unat (field_count (kbd_keys k))) 6"
  have out: "out = key_slots (\<lambda>s. usage_byte (field_value (kbd_keys k) ?body (of_nat s))) ?n ((replicate 8 0)[0 := ?first])"
    using out by (auto simp: keyboard_decode_eq report_body_eq split: option.splits if_splits)
  have bits: "\<forall>b<8. bit ?first b \<longleftrightarrow>
      (\<exists>f. kbd_modifiers k = Some f \<and> b < unat (field_count f) \<and> field_bit f ?body (of_nat b))"
    using bit_modifier_bits by (auto split: option.split)
  have "length out = 8" "out ! 1 = 0" "out ! 0 = ?first" by (simp_all add: out nth_key_slots)
  moreover have "\<forall>s<6. out ! (2 + s) =
      (if s < unat (field_count (kbd_keys k)) then usage_byte (field_value (kbd_keys k) ?body (of_nat s)) else 0)"
    by (auto simp: out nth_key_slots nth_list_update)
  ultimately show "let body = ?body
      in length out = 8 \<and> out ! 1 = 0 \<and>
         (\<forall>b<8. bit (out ! 0) b \<longleftrightarrow>
            (\<exists>f. kbd_modifiers k = Some f \<and> b < unat (field_count f) \<and> field_bit f body (of_nat b))) \<and>
         (\<forall>s<6. out ! (2 + s) =
            (if s < unat (field_count (kbd_keys k)) then usage_byte (field_value (kbd_keys k) body (of_nat s)) else 0))"
    using bits unfolding Let_def by simp
qed

lemma keyboard_boot_report_witness:
  "\<exists>k. find_keyboard combined_device = Some k \<and>
     keyboard_decode k [2, 0x22, 0, 4, 5, 0, 0, 0, 0] = Some [0x22, 0, 4, 5, 0, 0, 0, 0] \<and>
     bit ([0x22, 0, 4, 5, 0, 0, 0, 0] ! 0 :: u8) 5 =
       (\<exists>f. kbd_modifiers k = Some f \<and> 5 < unat (field_count f) \<and> field_bit f [0x22, 0, 4, 5, 0, 0, 0, 0] 5)"
proof -
  have "Option.bind (find_keyboard combined_device) (\<lambda>k. keyboard_decode k [2, 0x22, 0, 4, 5, 0, 0, 0, 0]) =
      Some [0x22, 0, 4, 5, 0, 0, 0, 0]" "map_option kbd_report_id (find_keyboard combined_device) = Some (Some 2)"
    by code_simp+
  then obtain k where k: "find_keyboard combined_device = Some k" "kbd_report_id k = Some 2"
    "keyboard_decode k [2, 0x22, 0, 4, 5, 0, 0, 0, 0] = Some [0x22, 0, 4, 5, 0, 0, 0, 0]"
    by (auto simp: bind_eq_Some_conv)
  have "\<forall>b<8. bit ([0x22, 0, 4, 5, 0, 0, 0, 0] ! 0 :: u8) b =
      (\<exists>f. kbd_modifiers k = Some f \<and> b < unat (field_count f) \<and> field_bit f [0x22, 0, 4, 5, 0, 0, 0, 0] (of_nat b))"
    using keyboard_boot_report [of k "[2, 0x22, 0, 4, 5, 0, 0, 0, 0]"] k by (simp add: Let_def)
  from this [rule_format, of 5] k show ?thesis by auto
qed

text \<open>
  A report ID beyond the sixteenth refuses the descriptor: when sixteen IDs have a candidate and the
  ID in force is none of them, the next input item ends the parse with nothing found, whatever follows.
\<close>

theorem seventeenth_report_refused:
  assumes "hid_fold items hid_init = Some st" "st_used st = MAX_REPORTS"
    and "\<And>c. Some c \<in> set (st_candidates st) \<Longrightarrow> cand_report_id c \<noteq> report_id (st_globals st)"
    and "is_input_item prefix" "list_all short_item (items @ (prefix, data) # later)"
  shows "hid_parse (concat (map item_bytes (items @ (prefix, data) # later))) = None \<and>
    find_pointer (concat (map item_bytes (items @ (prefix, data) # later))) = None"
proof -
  have "iter_position (\<lambda>slot. case slot of None \<Rightarrow> False | Some c \<Rightarrow> cand_report_id c = report_id (st_globals st))
      (st_candidates st) = None"
    using assms(3) by (auto simp: iter_position_None split: option.split)
  then have "hid_item prefix data st = None"
    using assms(2,4)
    by (simp add: hid_item_def Let_def main_item_def input_item_def slot_for_def is_input_item_def)
  then have "hid_fold (items @ (prefix, data) # later) hid_init = None"
    using assms(1) by (simp add: hid_fold_append)
  then have "hid_parse (concat (map item_bytes (items @ (prefix, data) # later))) = None"
    by (simp only: hid_parse_items hid_items_bytes [OF assms(5)] bind.bind_lunit option.map)
  then show ?thesis by (simp add: find_pointer_def)
qed

definition numbered_inputs :: "nat \<Rightarrow> item list" where
  "numbered_inputs n = concat (map (\<lambda>i. [(0x85, [of_nat i]), (0x81, [0x02])]) [0..<n])"

lemma seventeenth_report_refused_witness:
  "hid_parse (concat (map item_bytes (numbered_inputs 16))) \<noteq> None \<and>
   hid_parse (concat (map item_bytes ((numbered_inputs 16 @ [(0x85, [16])]) @ (0x81, [0x02]) # []))) = None"
proof -
  have "hid_parse (concat (map item_bytes (numbered_inputs 16))) \<noteq> None" by code_simp
  have "map_option (\<lambda>st. (st_used st, report_id (st_globals st),
        list_all (\<lambda>s. map_option cand_report_id s \<noteq> Some (Some 16)) (st_candidates st)))
      (hid_fold (numbered_inputs 16 @ [(0x85, [16])]) hid_init) = Some (16, Some 16, True)"
    by code_simp
  then obtain st where st: "hid_fold (numbered_inputs 16 @ [(0x85, [16])]) hid_init = Some st" "st_used st = MAX_REPORTS"
    "report_id (st_globals st) = Some 16" "\<And>c. Some c \<in> set (st_candidates st) \<Longrightarrow> cand_report_id c \<noteq> Some 16"
    by (auto simp: list_all_iff MAX_REPORTS_def)
  have w: "is_input_item 0x81" "list_all short_item ((numbered_inputs 16 @ [(0x85, [16])]) @ (0x81, [0x02]) # [])"
    by code_simp+
  from seventeenth_report_refused [OF st(1,2) _ w] st(3,4) \<open>_ \<noteq> None\<close> show ?thesis by simp
qed

text \<open>A pointer that reports positions is taken for one that reports movements.\<close>

lemma absolute_pointer_accepted:
  "\<exists>p. find_pointer absolute_pointer = Some p \<and> \<not> is_relative (ptr_x p)"
proof -
  have "map_option (\<lambda>p. is_relative (ptr_x p)) (find_pointer absolute_pointer) = Some False" by code_simp
  then show ?thesis by auto
qed

text \<open>A four-byte usage changes the usage page of the items after the next main item as well.\<close>

lemma extended_usage_leaks_page:
  "map_option (\<lambda>st. usage_page (st_globals st))
     (hid_fold [(0x05, [0x01]), (0x0B, [0x30, 0x00, 0x0D, 0x00]), (0x81, [0x02])] hid_init) = Some PAGE_DIGITIZER"
  by code_simp

end
