(* ===== verification/Gpio_Pads.thy ===== *)
theory Gpio_Pads
  imports Aml_Devices
begin

text \<open>
  \<open>crates/nanochrono-baremetal/src/gpio.rs\<close>: the Intel GPIO controller read as a readiness signal.

  A read of a register is a function from its address to the word it holds at that moment, an
  argument of every operation that reads hardware; nothing here writes.  Addresses are words, as
  \<open>usize\<close> is on the targets; offsets inside a window are natural numbers below \<open>2 ^ 32\<close>.  The
  arrays that the source fills up to a count are lists of that length.

  The lemmas show that the packed pad keeps both of its fields, that a pin resolves through a
  pad-group table one-to-one, and that the calibration answers exactly with the one pad whose level
  told reports from quiet polls in every sample.
\<close>

section \<open>Registers and tables\<close>

definition PADBAR :: u64 where "PADBAR = 0x00C"
definition PAD_STRIDE :: nat where "PAD_STRIDE = 16"
definition PADCFG0_RXSTATE :: u32 where "PADCFG0_RXSTATE = 0x2"
definition PADCFG0_TXDIS :: u32 where "PADCFG0_TXDIS = 0x100"
definition PADCFG0_RXDIS :: u32 where "PADCFG0_RXDIS = 0x200"
definition PADCFG0_PMODE :: u32 where "PADCFG0_PMODE = 0x1C00"
definition PAD_ABSENT :: u32 where "PAD_ABSENT = - 1"
definition MAX_COMMUNITIES :: nat where "MAX_COMMUNITIES = 8"
definition MAX_CANDIDATES :: nat where "MAX_CANDIDATES = 32"

record pad_group =
  first_pad :: nat
  group_pads :: nat
  gpio_base :: int

definition NOMAP :: int where "NOMAP = -1"

record platform =
  hids :: "string list"
  layouts :: "pad_group list list"
  platform_name :: string

definition group :: "nat \<Rightarrow> nat \<Rightarrow> int \<Rightarrow> pad_group" where
  "group first n base = \<lparr>first_pad = first, group_pads = n, gpio_base = base\<rparr>"

definition ADL_COM0 :: "pad_group list" where
  "ADL_COM0 = [group 0 26 0, group 26 16 32, group 42 25 64]"
definition ADL_COM1 :: "pad_group list" where
  "ADL_COM1 = [group 67 8 96, group 75 20 128, group 95 24 160, group 119 21 192, group 140 29 224]"
definition ADL_COM4 :: "pad_group list" where
  "ADL_COM4 = [group 169 24 256, group 193 25 288, group 218 6 NOMAP, group 224 25 320]"
definition ADL_COM5 :: "pad_group list" where
  "ADL_COM5 = [group 249 8 352]"

definition TGLH_COM0 :: "pad_group list" where
  "TGLH_COM0 = [group 0 25 0, group 25 20 32, group 45 26 64, group 71 8 96]"
definition TGLH_COM1 :: "pad_group list" where
  "TGLH_COM1 = [group 79 26 128, group 105 24 160, group 129 8 192, group 137 17 224, group 154 27 256]"
definition TGLH_COM3 :: "pad_group list" where
  "TGLH_COM3 = [group 181 13 288, group 194 24 320]"
definition TGLH_COM4 :: "pad_group list" where
  "TGLH_COM4 = [group 218 24 352, group 242 10 384, group 252 15 416]"
definition TGLH_COM5 :: "pad_group list" where
  "TGLH_COM5 = [group 267 15 448, group 282 9 NOMAP]"

definition PLATFORMS :: "platform list" where
  "PLATFORMS =
     [\<lparr>hids = [''INTC1056'', ''INTC1057'', ''INTC1085''],
       layouts = [ADL_COM0, ADL_COM1, ADL_COM4, ADL_COM5], platform_name = ''alder lake''\<rparr>,
      \<lparr>hids = [''INT34C6''],
       layouts = [TGLH_COM0, TGLH_COM1, TGLH_COM3, TGLH_COM4, TGLH_COM5], platform_name = ''tiger lake h''\<rparr>]"

lemmas pad_tables =
  ADL_COM0_def ADL_COM1_def ADL_COM4_def ADL_COM5_def
  TGLH_COM0_def TGLH_COM1_def TGLH_COM3_def TGLH_COM4_def TGLH_COM5_def

section \<open>Pads\<close>

record community =
  com_base :: u64
  pads_at :: nat
  capacity :: nat

text \<open>A pad is one packed word: the community above bit 28, the offset below.\<close>

type_synonym pad = u32

definition PAD_OFFSET_BITS :: nat where "PAD_OFFSET_BITS = 28"

definition pad_new :: "nat \<Rightarrow> nat \<Rightarrow> pad option" where
  "pad_new c offset =
     (if c \<ge> MAX_COMMUNITIES \<or> offset \<ge> 2 ^ PAD_OFFSET_BITS then None
      else Some (push_bit PAD_OFFSET_BITS (of_nat c) OR of_nat offset))"

definition pad_community :: "pad \<Rightarrow> nat" where
  "pad_community p = unat (drop_bit PAD_OFFSET_BITS p)"

definition pad_offset :: "pad \<Rightarrow> nat" where
  "pad_offset p = unat (p AND mask PAD_OFFSET_BITS)"

datatype mapping = Tabled string | Calibrated

section \<open>The controller\<close>

record controller =
  communities :: "community list"
  ctl_platform :: "platform option"

type_synonym registers = "u64 \<Rightarrow> u32"

definition open_region :: "registers \<Rightarrow> memory_region \<Rightarrow> community option" where
  "open_region rd region =
     (let padbar = unat (rd (mem_base region + PADBAR));
          len = unat (mem_length region)
      in if padbar = 0 \<or> padbar \<ge> len then None
         else Some \<lparr>com_base = mem_base region, pads_at = padbar, capacity = (len - padbar) div PAD_STRIDE\<rparr>)"

definition known_as :: "u8 list \<Rightarrow> string \<Rightarrow> bool" where
  "known_as hid known \<longleftrightarrow> map ascii_lower (map of_char known) = map ascii_lower hid"

definition platform_for :: "u8 list \<Rightarrow> platform option" where
  "platform_for hid = find (\<lambda>p. list_ex (known_as hid) (hids p)) PLATFORMS"

definition controller_open :: "registers \<Rightarrow> u8 list \<Rightarrow> path \<Rightarrow> u8 list option \<Rightarrow> controller option" where
  "controller_open rd code name hid =
     (case gpio_communities code name
          (replicate MAX_COMMUNITIES \<lparr>mem_base = 0, mem_length = 0, mem_writable = False\<rparr>) of
        (regions, found) \<Rightarrow>
          if found = 0 then None
          else (let coms = List.map_filter (open_region rd) (take found regions)
            in if coms = [] then None
               else Some \<lparr>communities = coms, ctl_platform = Option.bind hid platform_for\<rparr>))"

text \<open>
  A pin is resolved by walking the groups.  \<open>None\<close> of the inner loop means that the walk goes on
  with the next group; \<open>Some r\<close> is a return of the function.
\<close>

definition group_has :: "pad_group \<Rightarrow> int \<Rightarrow> bool" where
  "group_has g pin \<longleftrightarrow> gpio_base g \<noteq> NOMAP \<and> gpio_base g \<le> pin \<and> pin < gpio_base g + int (group_pads g)"

fun resolve_groups :: "community \<Rightarrow> nat \<Rightarrow> nat \<Rightarrow> int \<Rightarrow> pad_group list \<Rightarrow> pad option option" where
  "resolve_groups c index first pin [] = None"
| "resolve_groups c index first pin (g # gs) =
     (if \<not> group_has g pin then resolve_groups c index first pin gs
      else (let linear = first_pad g + nat (pin - gpio_base g)
        in if linear < first then Some None
           else if linear - first \<ge> capacity c then Some None
           else Some (pad_new index (pads_at c + (linear - first) * PAD_STRIDE))))"

fun resolve_layouts :: "community list \<Rightarrow> nat \<Rightarrow> int \<Rightarrow> pad_group list list \<Rightarrow> pad option" where
  "resolve_layouts coms index pin [] = None"
| "resolve_layouts coms index pin (gs # rest) =
     (case get_at coms index of
        None \<Rightarrow> None
      | Some c \<Rightarrow>
          (case gs of
             [] \<Rightarrow> None
           | g # _ \<Rightarrow>
               (case resolve_groups c index (first_pad g) pin gs of
                  Some r \<Rightarrow> r
                | None \<Rightarrow> resolve_layouts coms (index + 1) pin rest)))"

definition resolve :: "controller \<Rightarrow> u16 \<Rightarrow> pad option" where
  "resolve ctl pin =
     (case ctl_platform ctl of
        None \<Rightarrow> None
      | Some p \<Rightarrow> resolve_layouts (communities ctl) 0 (uint pin) (layouts p))"

definition config :: "registers \<Rightarrow> controller \<Rightarrow> pad \<Rightarrow> u32" where
  "config rd ctl p = rd (com_base (communities ctl ! pad_community p) + of_nat (pad_offset p))"

definition level :: "registers \<Rightarrow> controller \<Rightarrow> pad \<Rightarrow> bool" where
  "level rd ctl p \<longleftrightarrow> config rd ctl p AND PADCFG0_RXSTATE \<noteq> 0"

definition is_input :: "registers \<Rightarrow> controller \<Rightarrow> pad \<Rightarrow> bool" where
  "is_input rd ctl p \<longleftrightarrow>
     (let c = config rd ctl p
      in c \<noteq> PAD_ABSENT \<and> c AND PADCFG0_PMODE = 0 \<and> c AND PADCFG0_RXDIS = 0 \<and> c AND PADCFG0_TXDIS \<noteq> 0)"

definition verify_pad :: "registers \<Rightarrow> controller \<Rightarrow> pad \<Rightarrow> bool" where
  "verify_pad rd ctl p = is_input rd ctl p"

section \<open>Calibration\<close>

record calibration =
  cal_pads :: "pad list"
  cal_seen :: "u8 list"
  cal_reports :: u32
  cal_quiet :: u32

definition SEEN_BUSY_HIGH :: u8 where "SEEN_BUSY_HIGH = 1"
definition SEEN_BUSY_LOW :: u8 where "SEEN_BUSY_LOW = 2"
definition SEEN_IDLE_HIGH :: u8 where "SEEN_IDLE_HIGH = 4"
definition SEEN_IDLE_LOW :: u8 where "SEEN_IDLE_LOW = 8"
definition NEEDED :: u32 where "NEEDED = 4"

lemmas seen_bits = SEEN_BUSY_HIGH_def SEEN_BUSY_LOW_def SEEN_IDLE_HIGH_def SEEN_IDLE_LOW_def

definition consider_pad :: "registers \<Rightarrow> controller \<Rightarrow> nat \<Rightarrow> nat \<Rightarrow> pad list \<Rightarrow> pad list" where
  "consider_pad rd ctl index local pads =
     (if length pads = MAX_CANDIDATES then pads
      else (case pad_new index (pads_at (communities ctl ! index) + local * PAD_STRIDE) of
          None \<Rightarrow> pads
        | Some p \<Rightarrow> if is_input rd ctl p then pads @ [p] else pads))"

definition begin_calibration :: "registers \<Rightarrow> controller \<Rightarrow> calibration" where
  "begin_calibration rd ctl =
     (let pads = fold (\<lambda>index pads. fold (consider_pad rd ctl index) [0..<capacity (communities ctl ! index)] pads)
             [0..<length (communities ctl)] []
      in \<lparr>cal_pads = pads, cal_seen = replicate (length pads) 0, cal_reports = 0, cal_quiet = 0\<rparr>)"

record sample =
  levels :: u32
  sample_count :: nat

definition watching :: "calibration \<Rightarrow> nat" where
  "watching cal = length (cal_pads cal)"

definition progress :: "calibration \<Rightarrow> u32 \<times> u32" where
  "progress cal = (cal_reports cal, cal_quiet cal)"

definition take_sample :: "registers \<Rightarrow> controller \<Rightarrow> calibration \<Rightarrow> sample" where
  "take_sample rd ctl cal =
     \<lparr>levels = fold (\<lambda>(index, p) w. if level rd ctl p then w OR shl1 index else w)
         (List.enumerate 0 (cal_pads cal)) 0,
      sample_count = watching cal\<rparr>"

definition seen_as :: "bool \<Rightarrow> bool \<Rightarrow> u8" where
  "seen_as had_report high =
     (if had_report then if high then SEEN_BUSY_HIGH else SEEN_BUSY_LOW
      else if high then SEEN_IDLE_HIGH else SEEN_IDLE_LOW)"

definition observe :: "sample \<Rightarrow> bool \<Rightarrow> calibration \<Rightarrow> calibration" where
  "observe s had_report cal =
     (if sample_count s \<noteq> watching cal then cal
      else cal\<lparr>
        cal_reports := (if had_report then saturating_add (cal_reports cal) 1 else cal_reports cal),
        cal_quiet := (if had_report then cal_quiet cal else saturating_add (cal_quiet cal) 1),
        cal_seen := map (\<lambda>(index, b). b OR seen_as had_report (levels s AND shl1 index \<noteq> 0))
            (List.enumerate 0 (cal_seen cal))\<rparr>)"

fun settle_loop :: "(pad \<times> u8) list \<Rightarrow> (pad \<times> bool) option \<Rightarrow> (pad \<times> bool) option" where
  "settle_loop [] answer = answer"
| "settle_loop ((p, seen) # rest) answer =
     (let asserted_high = (seen = SEEN_BUSY_HIGH OR SEEN_IDLE_LOW);
          asserted_low = (seen = SEEN_BUSY_LOW OR SEEN_IDLE_HIGH)
      in if \<not> asserted_high \<and> \<not> asserted_low then settle_loop rest answer
         else if answer \<noteq> None then None
         else settle_loop rest (Some (p, asserted_high)))"

definition settled :: "calibration \<Rightarrow> (pad \<times> bool) option" where
  "settled cal =
     (if cal_reports cal < NEEDED \<or> cal_quiet cal < NEEDED then None
      else settle_loop (zip (cal_pads cal) (cal_seen cal)) None)"


section \<open>Packing\<close>

lemma pad_new_eq:
  assumes "c < MAX_COMMUNITIES" "offset < 2 ^ PAD_OFFSET_BITS"
  shows "unat (push_bit PAD_OFFSET_BITS (of_nat c :: u32) OR of_nat offset) = c * 2 ^ 28 + offset"
proof -
  have b: "c < 8" "offset < 2 ^ 28" using assms by (simp_all add: MAX_COMMUNITIES_def PAD_OFFSET_BITS_def)
  have w: "unat (of_nat c :: u32) = c" "unat (of_nat offset :: u32) = offset"
    using b by (simp_all add: unsigned_of_nat take_bit_nat_eq_self)
  have s: "unat (push_bit 28 (of_nat c :: u32)) = push_bit 28 c"
    unfolding unsigned_push_bit_eq w using b by (simp add: take_bit_nat_eq_self push_bit_eq_mult)
  have "push_bit 28 c AND offset = 0"
  proof (rule bit_eqI)
    fix n
    have "\<not> bit offset n" if "28 \<le> n"
      using b(2) that by (metis bit_take_bit_iff linorder_not_less take_bit_nat_eq_self)
    then show "bit (push_bit 28 c AND offset) n = bit 0 n" by (auto simp: bit_and_iff bit_push_bit_iff)
  qed
  then have "push_bit 28 c OR offset = push_bit 28 c + offset" by (rule disjunctive_add_eq_or [symmetric])
  then show ?thesis unfolding PAD_OFFSET_BITS_def unsigned_or_eq s w by (simp add: push_bit_eq_mult)
qed

lemma pad_new_fields:
  assumes "pad_new c offset = Some p"
  shows "pad_community p = c" "pad_offset p = offset"
proof -
  have r: "c < MAX_COMMUNITIES" "offset < 2 ^ PAD_OFFSET_BITS" "p = push_bit PAD_OFFSET_BITS (of_nat c) OR of_nat offset"
    using assms by (auto simp: pad_new_def split: if_splits)
  have u: "unat p = c * 2 ^ 28 + offset" using pad_new_eq [OF r(1,2)] r(3) by simp
  have o: "offset < 2 ^ 28" using r(2) by (simp add: PAD_OFFSET_BITS_def)
  show "pad_community p = c"
    unfolding pad_community_def PAD_OFFSET_BITS_def unat_drop_bit_eq u using o by (simp add: drop_bit_eq_div)
  show "pad_offset p = offset"
    unfolding pad_offset_def PAD_OFFSET_BITS_def take_bit_eq_mask [symmetric] unsigned_take_bit_eq u
    using o by (simp add: take_bit_eq_mod)
qed

lemma pad_new_inject: "pad_new c a = Some p \<Longrightarrow> pad_new d b = Some p \<Longrightarrow> c = d \<and> a = b"
  using pad_new_fields by metis


section \<open>Resolving a pin\<close>

text \<open>
  What a resolved pad was computed from: a group of the layout, of a community that exists, and a
  local index below its capacity.
\<close>

definition local_index :: "pad_group list \<Rightarrow> pad_group \<Rightarrow> int \<Rightarrow> nat" where
  "local_index gs g pin = first_pad g + nat (pin - gpio_base g) - first_pad (hd gs)"

lemma resolve_groups_Some:
  assumes "resolve_groups c index first pin gs = Some (Some p)"
  shows "\<exists>g\<in>set gs. group_has g pin \<and> first \<le> first_pad g + nat (pin - gpio_base g) \<and>
    first_pad g + nat (pin - gpio_base g) - first < capacity c \<and>
    pad_new index (pads_at c + (first_pad g + nat (pin - gpio_base g) - first) * PAD_STRIDE) = Some p"
  using assms by (induction gs) (auto simp: Let_def split: if_splits)

lemma resolve_layouts_Some:
  assumes "resolve_layouts coms index pin lays = Some p"
  shows "\<exists>i g. i < length lays \<and> index + i < length coms \<and> g \<in> set (lays ! i) \<and> group_has g pin \<and>
    first_pad (hd (lays ! i)) \<le> first_pad g + nat (pin - gpio_base g) \<and>
    local_index (lays ! i) g pin < capacity (coms ! (index + i)) \<and>
    pad_new (index + i) (pads_at (coms ! (index + i)) + local_index (lays ! i) g pin * PAD_STRIDE) = Some p"
  using assms
proof (induction lays arbitrary: index)
  case (Cons gs rest)
  then obtain g0 gs' where gs: "gs = g0 # gs'" and i: "index < length coms" by (auto split: option.splits list.splits)
  show ?case
  proof (cases "resolve_groups (coms ! index) index (first_pad g0) pin gs")
    case None
    with Cons.prems gs i have "resolve_layouts coms (index + 1) pin rest = Some p" by (simp add: get_at_def)
    from Cons.IH [OF this] obtain j g where "j < length rest" "index + 1 + j < length coms" "g \<in> set (rest ! j)"
      "group_has g pin" "first_pad (hd (rest ! j)) \<le> first_pad g + nat (pin - gpio_base g)"
      "local_index (rest ! j) g pin < capacity (coms ! (index + 1 + j))"
      "pad_new (index + 1 + j) (pads_at (coms ! (index + 1 + j)) + local_index (rest ! j) g pin * PAD_STRIDE) = Some p"
      by blast
    then show ?thesis by (intro exI [of _ "Suc j"] exI [of _ g]) simp
  next
    case (Some r)
    with Cons.prems gs i have "resolve_groups (coms ! index) index (first_pad g0) pin gs = Some (Some p)"
      by (simp add: get_at_def)
    from resolve_groups_Some [OF this] obtain g where "g \<in> set gs" "group_has g pin"
      "first_pad g0 \<le> first_pad g + nat (pin - gpio_base g)"
      "first_pad g + nat (pin - gpio_base g) - first_pad g0 < capacity (coms ! index)"
      "pad_new index (pads_at (coms ! index) + (first_pad g + nat (pin - gpio_base g) - first_pad g0) * PAD_STRIDE) = Some p"
      by blast
    then show ?thesis using gs i by (intro exI [of _ 0] exI [of _ g]) (simp add: local_index_def)
  qed
qed simp

text \<open>The groups of a community follow each other in the linear numbering without overlap.\<close>

definition consecutive :: "pad_group list \<Rightarrow> bool" where
  "consecutive gs \<longleftrightarrow> sorted_wrt (\<lambda>g h. first_pad g + group_pads g \<le> first_pad h) gs"

lemma consecutive_tables: "p \<in> set PLATFORMS \<Longrightarrow> gs \<in> set (layouts p) \<Longrightarrow> consecutive gs"
  by (auto simp: PLATFORMS_def pad_tables consecutive_def group_def)

lemma consecutive_disjoint:
  assumes "consecutive gs" "g \<in> set gs" "h \<in> set gs" "group_has g a" "group_has h b"
    and "first_pad g + nat (a - gpio_base g) = first_pad h + nat (b - gpio_base h)"
  shows "a = b"
proof -
  obtain i j where ij: "i < length gs" "g = gs ! i" "j < length gs" "h = gs ! j"
    using assms(2,3) by (metis in_set_conv_nth)
  have in_g: "nat (a - gpio_base g) < group_pads g" "gpio_base g \<le> a"
    and in_h: "nat (b - gpio_base h) < group_pads h" "gpio_base h \<le> b"
    using assms(4,5) by (auto simp: group_has_def)
  have "i = j"
  proof (rule ccontr)
    assume "i \<noteq> j"
    then have "first_pad g + group_pads g \<le> first_pad h \<or> first_pad h + group_pads h \<le> first_pad g"
      using assms(1) ij by (auto simp: consecutive_def sorted_wrt_iff_nth_less neq_iff)
    with in_g in_h assms(6) show False by linarith
  qed
  with ij assms(6) in_g in_h show ?thesis by simp
qed


section \<open>Windows\<close>

text \<open>Every pad of an opened controller lies inside the window of its community.\<close>

definition inside_window :: "controller \<Rightarrow> pad \<Rightarrow> bool" where
  "inside_window ctl p \<longleftrightarrow>
     pad_community p < length (communities ctl) \<and>
     (let c = communities ctl ! pad_community p
      in \<exists>local < capacity c. pad_offset p = pads_at c + local * PAD_STRIDE)"

lemma inside_windowI:
  "pad_new index (pads_at (communities ctl ! index) + local * PAD_STRIDE) = Some p \<Longrightarrow>
    index < length (communities ctl) \<Longrightarrow> local < capacity (communities ctl ! index) \<Longrightarrow> inside_window ctl p"
  by (auto simp: inside_window_def Let_def pad_new_fields)

lemma resolve_inside: "resolve ctl pin = Some p \<Longrightarrow> inside_window ctl p"
  by (auto simp: resolve_def split: option.splits dest!: resolve_layouts_Some intro!: inside_windowI)

lemma fold_keeps: "(\<And>x s. x \<in> set xs \<Longrightarrow> P s \<Longrightarrow> P (f x s)) \<Longrightarrow> P s \<Longrightarrow> P (fold f xs s)"
  by (induction xs arbitrary: s) simp_all

lemma candidates_inside: "p \<in> set (cal_pads (begin_calibration rd ctl)) \<Longrightarrow> inside_window ctl p \<and> is_input rd ctl p"
proof -
  let ?P = "\<lambda>pads. \<forall>p\<in>set pads. inside_window ctl p \<and> is_input rd ctl p"
  have step: "?P pads \<Longrightarrow> ?P (consider_pad rd ctl index local pads)"
    if "index < length (communities ctl)" "local < capacity (communities ctl ! index)" for index local pads
    using that by (auto simp: consider_pad_def intro: inside_windowI split: option.splits)
  have "?P (fold (\<lambda>index pads. fold (consider_pad rd ctl index) [0..<capacity (communities ctl ! index)] pads)
      [0..<length (communities ctl)] [])"
    by (intro fold_keeps [where P = ?P] step) auto
  then show "p \<in> set (cal_pads (begin_calibration rd ctl)) \<Longrightarrow> inside_window ctl p \<and> is_input rd ctl p"
    by (simp add: begin_calibration_def Let_def)
qed

lemma open_region_window:
  assumes "open_region rd region = Some c"
  shows "com_base c = mem_base region" "local < capacity c \<Longrightarrow> pads_at c + local * PAD_STRIDE + PAD_STRIDE \<le> unat (mem_length region)"
proof -
  from assms show "com_base c = mem_base region" by (auto simp: open_region_def Let_def split: if_splits)
  assume l: "local < capacity c"
  have c: "pads_at c < unat (mem_length region)" "capacity c = (unat (mem_length region) - pads_at c) div PAD_STRIDE"
    using assms by (auto simp: open_region_def Let_def split: if_splits)
  have "(local + 1) * PAD_STRIDE \<le> unat (mem_length region) - pads_at c"
    using l c(2) by (simp add: PAD_STRIDE_def)
  with c(1) show "pads_at c + local * PAD_STRIDE + PAD_STRIDE \<le> unat (mem_length region)" by simp
qed


section \<open>What a calibration has seen\<close>

text \<open>The four bits of a candidate, and the samples in which its level told the outcome.\<close>

definition level_of :: "sample \<Rightarrow> nat \<Rightarrow> bool" where
  "level_of s i \<longleftrightarrow> bit (levels s) i"

definition seen_bits_of :: "(sample \<times> bool) list \<Rightarrow> nat \<Rightarrow> u8" where
  "seen_bits_of h i = fold (\<lambda>(s, r) w. w OR seen_as r (level_of s i)) h 0"

definition tells :: "bool \<Rightarrow> (sample \<times> bool) list \<Rightarrow> nat \<Rightarrow> bool" where
  "tells asserted h i \<longleftrightarrow> (\<forall>(s, r)\<in>set h. level_of s i = (r = asserted))"

definition observe_all :: "(sample \<times> bool) list \<Rightarrow> calibration \<Rightarrow> calibration" where
  "observe_all h cal = fold (\<lambda>(s, r). observe s r) h cal"

lemma and_shl1: "w AND shl1 i \<noteq> 0 \<longleftrightarrow> bit w i" for w :: u32
proof -
  have "w AND shl1 i = (if bit w i then shl1 i else 0)"
    by (rule bit_eqI) (auto simp: bit_simps)
  moreover have "shl1 i \<noteq> (0 :: u32)" if "bit w i"
    using bit_imp_le_length [OF that] by (metis bit_0_eq bit_shl1_iff bot_apply bot_bool_def)
  ultimately show ?thesis by auto
qed

lemma observe_step:
  assumes "sample_count s = watching cal"
  shows "cal_pads (observe s r cal) = cal_pads cal"
    "cal_reports (observe s r cal) = (if r then saturating_add (cal_reports cal) 1 else cal_reports cal)"
    "cal_quiet (observe s r cal) = (if r then cal_quiet cal else saturating_add (cal_quiet cal) 1)"
    "cal_seen (observe s r cal) = map (\<lambda>i. cal_seen cal ! i OR seen_as r (level_of s i)) [0..<length (cal_seen cal)]"
  using assms
  by (simp_all add: observe_def)
    (rule nth_equalityI, simp_all add: nth_enumerate_eq and_shl1 level_of_def)

lemma observe_all_result:
  assumes "\<forall>(s, r)\<in>set h. sample_count s = watching cal" "unat (cal_reports cal) + length h < 2 ^ 32" "unat (cal_quiet cal) + length h < 2 ^ 32"
  shows "cal_pads (observe_all h cal) = cal_pads cal"
    "unat (cal_reports (observe_all h cal)) = unat (cal_reports cal) + length (filter snd h)"
    "unat (cal_quiet (observe_all h cal)) = unat (cal_quiet cal) + length (filter (\<lambda>x. \<not> snd x) h)"
    "cal_seen (observe_all h cal) =
       map (\<lambda>i. fold (\<lambda>(s, r) w. w OR seen_as r (level_of s i)) h (cal_seen cal ! i)) [0..<length (cal_seen cal)]"
  using assms unfolding atomize_conj
proof (induction h arbitrary: cal)
  case Nil
  then show ?case by (simp add: observe_all_def map_nth)
next
  case (Cons x h)
  obtain s r where x: "x = (s, r)" by fastforce
  let ?c = "observe s r cal"
  have s: "sample_count s = watching cal" using Cons.prems x by simp
  note step = observe_step [OF s, of r]
  have w: "watching ?c = watching cal" by (simp add: watching_def step)
  have u: "unat (cal_reports ?c) = unat (cal_reports cal) + (if r then 1 else 0)"
    "unat (cal_quiet ?c) = unat (cal_quiet cal) + (if r then 0 else 1)"
    using Cons.prems by (simp_all add: step unat_saturating_add)
  have "observe_all (x # h) cal = observe_all h ?c" by (simp add: observe_all_def x)
  moreover have "\<forall>(s, r)\<in>set h. sample_count s = watching ?c" using Cons.prems w by auto
  moreover have "unat (cal_reports ?c) + length h < 2 ^ 32" "unat (cal_quiet ?c) + length h < 2 ^ 32"
    using Cons.prems u by (auto split: if_splits)
  ultimately show ?case using Cons.IH [of ?c] u x by (simp add: step cong: map_cong)
qed


text \<open>What the four bits come to, by which of the four cases occurred.\<close>

definition four_bits :: "bool \<Rightarrow> bool \<Rightarrow> bool \<Rightarrow> bool \<Rightarrow> u8" where
  "four_bits bh bl ih il =
     (if bh then SEEN_BUSY_HIGH else 0) OR (if bl then SEEN_BUSY_LOW else 0) OR
     (if ih then SEEN_IDLE_HIGH else 0) OR (if il then SEEN_IDLE_LOW else 0)"

lemma four_bits_step:
  "four_bits bh bl ih il OR seen_as r l =
     four_bits (bh \<or> r \<and> l) (bl \<or> r \<and> \<not> l) (ih \<or> \<not> r \<and> l) (il \<or> \<not> r \<and> \<not> l)"
  by (cases bh; cases bl; cases ih; cases il; cases r; cases l) (simp_all add: four_bits_def seen_as_def seen_bits)

lemma seen_fold:
  "fold (\<lambda>(s, r) w. w OR seen_as r (level_of s i)) h (four_bits bh bl ih il) =
     four_bits (bh \<or> (\<exists>(s, r)\<in>set h. r \<and> level_of s i)) (bl \<or> (\<exists>(s, r)\<in>set h. r \<and> \<not> level_of s i))
       (ih \<or> (\<exists>(s, r)\<in>set h. \<not> r \<and> level_of s i)) (il \<or> (\<exists>(s, r)\<in>set h. \<not> r \<and> \<not> level_of s i))"
proof (induction h arbitrary: bh bl ih il)
  case (Cons x h)
  obtain s r where x: "x = (s, r)" by fastforce
  show ?case unfolding x fold_simps prod.case comp_apply four_bits_step Cons.IH
    by (rule arg_cong4 [where f = four_bits]) (auto)
qed simp

lemma four_bits_tell:
  "four_bits bh bl ih il = SEEN_BUSY_HIGH OR SEEN_IDLE_LOW \<longleftrightarrow> bh \<and> \<not> bl \<and> \<not> ih \<and> il"
  "four_bits bh bl ih il = SEEN_BUSY_LOW OR SEEN_IDLE_HIGH \<longleftrightarrow> \<not> bh \<and> bl \<and> ih \<and> \<not> il"
  by (cases bh; cases bl; cases ih; cases il; simp add: four_bits_def seen_bits)+

lemma tells_iff_bits:
  assumes "\<exists>(s, r)\<in>set h. r" "\<exists>(s, r)\<in>set h. \<not> r"
  shows "fold (\<lambda>(s, r) w. w OR seen_as r (level_of s i)) h 0 = SEEN_BUSY_HIGH OR SEEN_IDLE_LOW \<longleftrightarrow> tells True h i"
    "fold (\<lambda>(s, r) w. w OR seen_as r (level_of s i)) h 0 = SEEN_BUSY_LOW OR SEEN_IDLE_HIGH \<longleftrightarrow> tells False h i"
proof -
  have z: "0 = four_bits False False False False" by (simp add: four_bits_def)
  show "fold (\<lambda>(s, r) w. w OR seen_as r (level_of s i)) h 0 = SEEN_BUSY_HIGH OR SEEN_IDLE_LOW \<longleftrightarrow> tells True h i"
    unfolding z seen_fold four_bits_tell tells_def using assms unfolding case_prod_unfold simp_thms by blast
  show "fold (\<lambda>(s, r) w. w OR seen_as r (level_of s i)) h 0 = SEEN_BUSY_LOW OR SEEN_IDLE_HIGH \<longleftrightarrow> tells False h i"
    unfolding z seen_fold four_bits_tell tells_def using assms unfolding case_prod_unfold simp_thms by blast
qed

text \<open>The search for the surviving candidate.\<close>

definition survivor :: "pad \<times> u8 \<Rightarrow> bool" where
  "survivor x \<longleftrightarrow> snd x = SEEN_BUSY_HIGH OR SEEN_IDLE_LOW \<or> snd x = SEEN_BUSY_LOW OR SEEN_IDLE_HIGH"

lemma settle_loop_Cons:
  "settle_loop ((p, b) # xs) answer =
     (if \<not> survivor (p, b) then settle_loop xs answer
      else if answer \<noteq> None then None
      else settle_loop xs (Some (p, b = SEEN_BUSY_HIGH OR SEEN_IDLE_LOW)))"
  by (simp add: survivor_def Let_def)

lemma settle_loop_Some: "settle_loop xs (Some a) = (if filter survivor xs = [] then Some a else None)"
proof (induction xs)
  case (Cons x xs)
  then show ?case by (cases x) (simp add: settle_loop_Cons del: settle_loop.simps)
qed simp

lemma settle_loop_None:
  "settle_loop xs None = (case filter survivor xs of
     [(p, b)] \<Rightarrow> Some (p, b = SEEN_BUSY_HIGH OR SEEN_IDLE_LOW) | _ \<Rightarrow> None)"
proof (induction xs)
  case (Cons x xs)
  then show ?case
    by (cases x; cases "survivor x") (simp_all add: settle_loop_Cons settle_loop_Some del: settle_loop.simps split: list.split)
qed simp


section \<open>A run of labelled polls\<close>

text \<open>Each poll samples the registers as they are before it and is labelled by what it found.\<close>

definition learn :: "controller \<Rightarrow> (registers \<times> bool) list \<Rightarrow> calibration \<Rightarrow> calibration" where
  "learn ctl polls cal = fold (\<lambda>(rd, had_report) cal. observe (take_sample rd ctl cal) had_report cal) polls cal"

definition told_by :: "controller \<Rightarrow> (registers \<times> bool) list \<Rightarrow> bool \<Rightarrow> pad \<Rightarrow> bool" where
  "told_by ctl polls asserted p \<longleftrightarrow> (\<forall>(rd, had_report)\<in>set polls. level rd ctl p = (had_report = asserted))"

lemma sample_bits:
  "bit (fold (\<lambda>(index, p) w. if P p then w OR shl1 index else w) (List.enumerate k ps) w) i \<longleftrightarrow>
     bit w i \<or> (\<exists>j<length ps. i = k + j \<and> P (ps ! j) \<and> i < LENGTH('a))" for w :: "'a::len word"
proof (induction ps arbitrary: k w)
  case (Cons p ps)
  have "(\<exists>j<length (p # ps). i = k + j \<and> P ((p # ps) ! j) \<and> i < LENGTH('a)) \<longleftrightarrow>
      i = k \<and> P p \<and> i < LENGTH('a) \<or> (\<exists>j<length ps. i = Suc k + j \<and> P (ps ! j) \<and> i < LENGTH('a))"
    by (auto simp: less_Suc_eq_0_disj)
  with Cons [of "Suc k" "if P p then w OR shl1 k else w"] show ?case by (auto simp: bit_or_iff bit_shl1_iff)
qed simp

lemma take_sample_level:
  assumes "i < watching cal" "watching cal \<le> MAX_CANDIDATES"
  shows "level_of (take_sample rd ctl cal) i = level rd ctl (cal_pads cal ! i)"
proof -
  have "i < length (cal_pads cal)" "i < LENGTH(32)" using assms by (simp_all add: watching_def MAX_CANDIDATES_def)
  then show ?thesis by (simp add: level_of_def take_sample_def sample_bits)
qed

lemma learn_observes:
  "learn ctl polls cal = observe_all (map (\<lambda>(rd, r). (take_sample rd ctl cal, r)) polls) cal"
proof (induction polls arbitrary: cal)
  case (Cons x polls)
  obtain rd r where x: "x = (rd, r)" by fastforce
  let ?c = "observe (take_sample rd ctl cal) r cal"
  have "cal_pads ?c = cal_pads cal" by (rule observe_step) (simp add: take_sample_def)
  then have "take_sample rd' ctl ?c = take_sample rd' ctl cal" for rd'
    by (simp add: take_sample_def watching_def)
  with Cons [of ?c] show ?case by (simp add: learn_def observe_all_def x)
qed (simp add: learn_def observe_all_def)

lemma candidates_bounded: "watching (begin_calibration rd ctl) \<le> MAX_CANDIDATES"
proof -
  have "length (fold (\<lambda>index pads. fold (consider_pad rd ctl index) [0..<capacity (communities ctl ! index)] pads)
      [0..<length (communities ctl)] []) \<le> MAX_CANDIDATES"
    by (intro fold_keeps [where P = "\<lambda>pads. length pads \<le> MAX_CANDIDATES"])
      (auto simp: consider_pad_def split: option.splits)
  then show ?thesis by (simp add: watching_def begin_calibration_def Let_def)
qed

lemma filter_zip_map:
  "length xs = n \<Longrightarrow> filter P (zip xs (map f [0..<n])) = map (\<lambda>i. (xs ! i, f i)) (filter (\<lambda>i. P (xs ! i, f i)) [0..<n])"
proof -
  assume n: "length xs = n"
  then have "zip xs (map f [0..<n]) = map (\<lambda>i. (xs ! i, f i)) [0..<n]"
    by (intro nth_equalityI) simp_all
  then show ?thesis by (simp add: filter_map comp_def)
qed

lemma settled_observations:
  assumes "\<forall>(s, r)\<in>set h. sample_count s = watching cal" "length h < 2 ^ 32"
    and "cal_reports cal = 0" "cal_quiet cal = 0" "cal_seen cal = replicate (watching cal) 0"
  shows "settled (observe_all h cal) =
    (if length (filter snd h) < 4 \<or> length (filter (\<lambda>x. \<not> snd x) h) < 4 then None
     else (case filter (\<lambda>i. tells True h i \<or> tells False h i) [0..<watching cal] of
         [i] \<Rightarrow> Some (cal_pads cal ! i, tells True h i) | _ \<Rightarrow> None))"
proof -
  let ?f = "\<lambda>i. fold (\<lambda>(s, r) w. w OR seen_as r (level_of s i)) h 0"
  have z: "unat (cal_reports cal) + length h < 2 ^ 32" "unat (cal_quiet cal) + length h < 2 ^ 32"
    using assms(2-4) by simp_all
  note o = observe_all_result [OF assms(1) z, unfolded assms(3-5) unsigned_0 add_0 length_replicate]
  have r: "cal_pads (observe_all h cal) = cal_pads cal"
    "unat (cal_reports (observe_all h cal)) = length (filter snd h)"
    "unat (cal_quiet (observe_all h cal)) = length (filter (\<lambda>x. \<not> snd x) h)"
    by (fact o)+
  have s: "cal_seen (observe_all h cal) = map ?f [0..<watching cal]"
    unfolding o(4) by (rule map_cong [OF refl]) simp
  have n: "cal_reports (observe_all h cal) < NEEDED \<longleftrightarrow> length (filter snd h) < 4"
    "cal_quiet (observe_all h cal) < NEEDED \<longleftrightarrow> length (filter (\<lambda>x. \<not> snd x) h) < 4"
    by (simp_all add: word_less_nat_alt r NEEDED_def)
  show ?thesis
  proof (cases "length (filter snd h) < 4 \<or> length (filter (\<lambda>x. \<not> snd x) h) < 4")
    case True
    then show ?thesis unfolding settled_def n by (simp only: if_True simp_thms)
  next
    case False
    then have "filter snd h \<noteq> []" "filter (\<lambda>x. \<not> snd x) h \<noteq> []" by fastforce+
    then have "\<exists>(s, r)\<in>set h. r" "\<exists>(s, r)\<in>set h. \<not> r" unfolding filter_empty_conv case_prod_unfold by blast+
    note t = tells_iff_bits [OF this]
    have "settled (observe_all h cal) = settle_loop (zip (cal_pads cal) (map ?f [0..<watching cal])) None"
      unfolding settled_def n r(1) s using False by (simp only: if_False simp_thms)
    also have "\<dots> = (case filter (\<lambda>i. tells True h i \<or> tells False h i) [0..<watching cal] of
         [i] \<Rightarrow> Some (cal_pads cal ! i, tells True h i) | _ \<Rightarrow> None)"
      unfolding settle_loop_None filter_zip_map [OF watching_def [symmetric]] survivor_def snd_conv t
      by (cases "filter (\<lambda>i. tells True h i \<or> tells False h i) [0..<watching cal]" rule: remdups_adj.cases) (simp_all add: t)
    finally show ?thesis using False by (simp only: if_False simp_thms)
  qed
qed


section \<open>Properties\<close>

lemma calibration_result:
  assumes "length polls < 2 ^ 32"
  shows "let cal = begin_calibration rd ctl;
      telling = filter (\<lambda>p. told_by ctl polls True p \<or> told_by ctl polls False p) (cal_pads cal)
    in settled (learn ctl polls cal) =
      (if length (filter snd polls) < 4 \<or> length (filter (\<lambda>x. \<not> snd x) polls) < 4 then None
       else (case telling of [p] \<Rightarrow> Some (p, told_by ctl polls True p) | _ \<Rightarrow> None))"
proof -
  let ?cal = "begin_calibration rd ctl"
  let ?h = "map (\<lambda>(rd, r). (take_sample rd ctl ?cal, r)) polls"
  have c: "cal_reports ?cal = 0" "cal_quiet ?cal = 0" "cal_seen ?cal = replicate (watching ?cal) 0"
    by (simp_all add: begin_calibration_def Let_def watching_def)
  have w: "\<forall>(s, r)\<in>set ?h. sample_count s = watching ?cal" by (auto simp: take_sample_def)
  have t: "tells a ?h i = told_by ctl polls a (cal_pads ?cal ! i)" if "i < watching ?cal" for a i
    using take_sample_level [OF that candidates_bounded] by (simp add: tells_def told_by_def case_prod_unfold)
  have f: "length (filter snd ?h) = length (filter snd polls)"
    "length (filter (\<lambda>x. \<not> snd x) ?h) = length (filter (\<lambda>x. \<not> snd x) polls)"
    by (simp_all add: filter_map comp_def case_prod_unfold)
  let ?T = "\<lambda>p. told_by ctl polls True p \<or> told_by ctl polls False p"
  let ?is = "filter (\<lambda>i. ?T (cal_pads ?cal ! i)) [0..<watching ?cal]"
  have "filter ?T (cal_pads ?cal) = map ((!) (cal_pads ?cal)) ?is"
    using filter_map [of ?T "(!) (cal_pads ?cal)" "[0..<watching ?cal]"] by (simp add: watching_def map_nth comp_def)
  moreover have "filter (\<lambda>i. tells True ?h i \<or> tells False ?h i) [0..<watching ?cal] = ?is"
    by (rule filter_cong) (simp_all add: t)
  moreover have "i \<in> set ?is \<Longrightarrow> tells True ?h i = told_by ctl polls True (cal_pads ?cal ! i)" for i by (simp add: t)
  ultimately have "(case filter (\<lambda>i. tells True ?h i \<or> tells False ?h i) [0..<watching ?cal] of
         [i] \<Rightarrow> Some (cal_pads ?cal ! i, tells True ?h i) | _ \<Rightarrow> None) =
      (case filter ?T (cal_pads ?cal) of [p] \<Rightarrow> Some (p, told_by ctl polls True p) | _ \<Rightarrow> None)"
    by (cases ?is rule: remdups_adj.cases) simp_all
  moreover have "length ?h < 2 ^ 32" using assms by simp
  ultimately show ?thesis
    unfolding Let_def learn_observes settled_observations [OF w _ c] f by (simp only: settled_observations [OF w _ c] f)
qed

text \<open>
  The calibration finds the interrupt line and nothing else: after any run of polls, it answers exactly
  when there were four of each outcome and exactly one watched pad stood at one level before every report
  and at the other before every quiet poll, and then with that pad and its asserted level.
\<close>

theorem calibration_finds_the_telling_pad:
  assumes "length polls < 2 ^ 32"
  shows "let cal = begin_calibration rd ctl;
      telling = filter (\<lambda>p. told_by ctl polls True p \<or> told_by ctl polls False p) (cal_pads cal)
    in settled (learn ctl polls cal) =
      (if length (filter snd polls) < 4 \<or> length (filter (\<lambda>x. \<not> snd x) polls) < 4 then None
       else (case telling of [p] \<Rightarrow> Some (p, told_by ctl polls True p) | _ \<Rightarrow> None))"
  using assms by (rule calibration_result)


text \<open>
  A window of three pads at 0xFD000000: a native function, the line of the device, pulled low for a
  report, and an input that never moves.
\<close>

definition lined_registers :: "bool \<Rightarrow> registers" where
  "lined_registers waiting a =
     (if a = 0xFD00000C then 0x700
      else if a = 0xFD000700 then 0x502
      else if a = 0xFD000710 then (if waiting then 0x100 else 0x102)
      else if a = 0xFD000720 then 0x100
      else - 1)"

definition lined_controller :: controller where
  "lined_controller =
     \<lparr>communities = [\<lparr>com_base = 0xFD000000, pads_at = 0x700, capacity = 3\<rparr>], ctl_platform = None\<rparr>"

definition lined_polls :: "(registers \<times> bool) list" where
  "lined_polls = replicate 4 (lined_registers True, True) @ replicate 4 (lined_registers False, False)"

lemma lined_candidates: "cal_pads (begin_calibration (lined_registers False) lined_controller) = [0x710, 0x720]"
proof -
  have f: "length (communities lined_controller) = 1" "capacity (communities lined_controller ! 0) = 3"
    by (simp_all add: lined_controller_def)
  have u: "[0..<3::nat] = [0, 1, 2]" by (simp add: upt_rec)
  have n: "pad_new 0 (pads_at (communities lined_controller ! 0)) = Some 0x700"
    "pad_new 0 (pads_at (communities lined_controller ! 0) + PAD_STRIDE) = Some 0x710"
    "pad_new 0 (pads_at (communities lined_controller ! 0) + 2 * PAD_STRIDE) = Some 0x720"
    by (simp_all add: pad_new_def MAX_COMMUNITIES_def PAD_OFFSET_BITS_def PAD_STRIDE_def lined_controller_def)
  have i: "\<not> is_input (lined_registers False) lined_controller 0x700" "is_input (lined_registers False) lined_controller 0x710"
    "is_input (lined_registers False) lined_controller 0x720"
    by code_simp+
  show ?thesis
    by (simp add: begin_calibration_def Let_def f u consider_pad_def n i MAX_CANDIDATES_def)
qed

lemma lined_told:
  "told_by lined_controller lined_polls True 0x710 = False" "told_by lined_controller lined_polls False 0x710 = True"
  "told_by lined_controller lined_polls True 0x720 = False" "told_by lined_controller lined_polls False 0x720 = False"
proof -
  have "level (lined_registers True) lined_controller 0x710 = False" "level (lined_registers False) lined_controller 0x710 = True"
    "level (lined_registers True) lined_controller 0x720 = False" "level (lined_registers False) lined_controller 0x720 = False"
    by code_simp+
  then show "told_by lined_controller lined_polls True 0x710 = False" "told_by lined_controller lined_polls False 0x710 = True"
    "told_by lined_controller lined_polls True 0x720 = False" "told_by lined_controller lined_polls False 0x720 = False"
    by (simp_all add: told_by_def lined_polls_def)
qed

lemma calibration_finds_the_telling_pad_witness:
  "settled (learn lined_controller lined_polls (begin_calibration (lined_registers False) lined_controller)) = Some (0x710, False)"
proof -
  have "length lined_polls < 2 ^ 32" by (simp add: lined_polls_def)
  from calibration_finds_the_telling_pad [OF this, of "lined_registers False" lined_controller]
  show ?thesis by (simp add: Let_def lined_candidates lined_told) (simp add: lined_polls_def)
qed

text \<open>
  Every register the driver reads for a pad is inside a window the firmware declared: a pad that a pin
  resolves to, or that a calibration watches, lies at an offset of a declared region with the whole of its
  sixteen bytes inside the region's length.
\<close>

theorem pads_inside_windows:
  assumes "controller_open rd code name hid = Some ctl"
    and "resolve ctl pin = Some p \<or> p \<in> set (cal_pads (begin_calibration rd' ctl))"
  shows "\<exists>region \<in> set (fst (gpio_communities code name (replicate MAX_COMMUNITIES \<lparr>mem_base = 0, mem_length = 0, mem_writable = False\<rparr>))).
    pad_offset p + PAD_STRIDE \<le> unat (mem_length region) \<and>
    (\<forall>now. config now ctl p = now (mem_base region + of_nat (pad_offset p)))"
proof -
  have i: "inside_window ctl p" using assms(2) resolve_inside candidates_inside by blast
  obtain regions found where g: "gpio_communities code name
      (replicate MAX_COMMUNITIES \<lparr>mem_base = 0, mem_length = 0, mem_writable = False\<rparr>) = (regions, found)" by fastforce
  have coms: "communities ctl = List.map_filter (open_region rd) (take found regions)"
    using assms(1) by (auto simp: controller_open_def g Let_def split: if_splits)
  define c where "c = communities ctl ! pad_community p"
  have "c \<in> set (communities ctl)" using i by (simp add: inside_window_def c_def)
  then obtain region where r: "region \<in> set (take found regions)" "open_region rd region = Some c"
    unfolding coms by (auto simp: List.map_filter_def)
  from i obtain local where "local < capacity c" "pad_offset p = pads_at c + local * PAD_STRIDE"
    by (auto simp: inside_window_def Let_def c_def)
  then have "pad_offset p + PAD_STRIDE \<le> unat (mem_length region)" using open_region_window(2) [OF r(2)] by simp
  moreover have "config now ctl p = now (mem_base region + of_nat (pad_offset p))" for now
    using open_region_window(1) [OF r(2)] by (simp add: config_def flip: c_def)
  ultimately show ?thesis unfolding g fst_conv using r(1) by (meson in_set_takeD)
qed

text \<open>A table that declares one controller, \<open>GPI0\<close>, with a window of 0x10000 bytes in its \<open>_CRS\<close>.\<close>

definition gpio_table :: "u8 list" where
  "gpio_table = replicate 36 0 @ [0x5B, 0x82, 0x1C, 0x47, 0x50, 0x49, 0x30,
     0x08, 0x5F, 0x43, 0x52, 0x53, 0x11, 0x11, 0x0A, 0x0E,
     0x86, 0x09, 0x00, 0x01, 0x00, 0x00, 0x00, 0xFD, 0x00, 0x00, 0x01, 0x00, 0x79, 0x00]"

definition gpio_path :: path where
  "gpio_path = snd (path_push [0x47, 0x50, 0x49, 0x30] path_root)"

lemma pads_inside_windows_witness:
  "\<exists>ctl p (region :: memory_region). controller_open (lined_registers False) gpio_table gpio_path (Some (map of_char ''intc1085'')) = Some ctl \<and>
    resolve ctl 33 = Some p \<and> pad_offset p = 2224 \<and> pad_offset p + PAD_STRIDE \<le> unat (mem_length region)"
proof -
  let ?region = "\<lparr>mem_base = 0xFD000000, mem_length = 0x10000, mem_writable = True\<rparr>"
  let ?ctl = "\<lparr>communities = [\<lparr>com_base = 0xFD000000, pads_at = 0x700, capacity = 3984\<rparr>], ctl_platform = platform_for (map of_char ''intc1085'')\<rparr>"
  have g: "snd (gpio_communities gpio_table gpio_path (replicate MAX_COMMUNITIES \<lparr>mem_base = 0, mem_length = 0, mem_writable = False\<rparr>)) = 1"
    "hd (fst (gpio_communities gpio_table gpio_path (replicate MAX_COMMUNITIES \<lparr>mem_base = 0, mem_length = 0, mem_writable = False\<rparr>))) = ?region"
    "fst (gpio_communities gpio_table gpio_path (replicate MAX_COMMUNITIES \<lparr>mem_base = 0, mem_length = 0, mem_writable = False\<rparr>)) \<noteq> []"
    by code_simp+
  then have "take 1 (fst (gpio_communities gpio_table gpio_path
      (replicate MAX_COMMUNITIES \<lparr>mem_base = 0, mem_length = 0, mem_writable = False\<rparr>))) = [?region]"
    by (simp add: take_Suc)
  moreover have "open_region (lined_registers False) ?region = Some (hd (communities ?ctl))"
    by (simp add: open_region_def lined_registers_def PADBAR_def PAD_STRIDE_def Let_def)
  ultimately have ctl: "controller_open (lined_registers False) gpio_table gpio_path (Some (map of_char ''intc1085'')) = Some ?ctl"
    using g(1) by (simp add: controller_open_def case_prod_unfold Let_def List.map_filter_def)
  have "map_option layouts (platform_for (map of_char ''intc1085'')) = Some [ADL_COM0, ADL_COM1, ADL_COM4, ADL_COM5]" by code_simp
  then obtain part where part: "platform_for (map of_char ''intc1085'') = Some part"
    "layouts part = [ADL_COM0, ADL_COM1, ADL_COM4, ADL_COM5]" by auto
  have p: "resolve ?ctl 33 = Some 2224"
    unfolding resolve_def controller.select_convs part option.case
    by (simp add: get_at_def ADL_COM0_def group_def group_has_def NOMAP_def PAD_STRIDE_def
        pad_new_def MAX_COMMUNITIES_def PAD_OFFSET_BITS_def)
  have "pad_offset 2224 = 2224" by code_simp
  moreover obtain region :: memory_region where "pad_offset 2224 + PAD_STRIDE \<le> unat (mem_length region)"
    using pads_inside_windows [OF ctl disjI1 [OF p]] by (elim bexE conjE)
  ultimately show ?thesis using ctl p by (intro exI [of _ ?ctl] exI [of _ "2224 :: pad"] exI [of _ region] conjI)
qed

text \<open>
  Pins and pads correspond one to one: on a controller of a known part, no two pins resolve to the
  same pad, whatever the windows hold.
\<close>

theorem pins_resolve_apart:
  assumes "ctl_platform ctl = Option.bind hid platform_for" "resolve ctl a = Some p" "resolve ctl b = Some p"
  shows "a = b"
proof -
  obtain part where pl: "ctl_platform ctl = Some part" using assms(2) by (auto simp: resolve_def split: option.splits)
  then have known: "part \<in> set PLATFORMS"
    using assms(1) by (auto simp: bind_eq_Some_conv platform_for_def find_Some_iff)
  obtain i g where a: "i < length (layouts part)" "g \<in> set (layouts part ! i)" "group_has g (uint a)"
    "first_pad (hd (layouts part ! i)) \<le> first_pad g + nat (uint a - gpio_base g)"
    "pad_new i (pads_at (communities ctl ! i) + local_index (layouts part ! i) g (uint a) * PAD_STRIDE) = Some p"
    using assms(2) pl by (auto simp: resolve_def dest!: resolve_layouts_Some)
  obtain j h where b: "j < length (layouts part)" "h \<in> set (layouts part ! j)" "group_has h (uint b)"
    "first_pad (hd (layouts part ! j)) \<le> first_pad h + nat (uint b - gpio_base h)"
    "pad_new j (pads_at (communities ctl ! j) + local_index (layouts part ! j) h (uint b) * PAD_STRIDE) = Some p"
    using assms(3) pl by (auto simp: resolve_def dest!: resolve_layouts_Some)
  from pad_new_inject [OF a(5) b(5)] have ij: "i = j"
    and "local_index (layouts part ! i) g (uint a) = local_index (layouts part ! i) h (uint b)"
    by (auto simp: PAD_STRIDE_def)
  with a(4) b(4) have "first_pad g + nat (uint a - gpio_base g) = first_pad h + nat (uint b - gpio_base h)"
    by (simp add: local_index_def)
  with consecutive_disjoint [OF consecutive_tables [OF known nth_mem [OF a(1)]]] a(2,3) b(2,3) ij
  have "uint a = uint b" by blast
  then show ?thesis using word_uint_eq_iff by blast
qed

lemma pins_resolve_apart_witness:
  "\<exists>ctl p. ctl_platform ctl = platform_for (map of_char ''INT34C6'') \<and> resolve ctl 40 = Some p \<and>
    (\<forall>b. resolve ctl b = Some p \<longrightarrow> b = 40)"
proof -
  define ctl where "ctl = \<lparr>communities = [\<lparr>com_base = 0xFD000000, pads_at = 0x700, capacity = 79\<rparr>],
    ctl_platform = platform_for (map of_char ''INT34C6'')\<rparr>"
  have "ctl_platform ctl = Option.bind (Some (map of_char ''INT34C6'')) platform_for" by (simp add: ctl_def)
  moreover have "map_option layouts (platform_for (map of_char ''INT34C6'')) = Some [TGLH_COM0, TGLH_COM1, TGLH_COM3, TGLH_COM4, TGLH_COM5]"
    by code_simp
  then obtain part where part: "platform_for (map of_char ''INT34C6'') = Some part"
    "layouts part = [TGLH_COM0, TGLH_COM1, TGLH_COM3, TGLH_COM4, TGLH_COM5]" by auto
  have r: "resolve ctl 40 = Some 2320"
    unfolding resolve_def ctl_def controller.select_convs part option.case
    by (simp add: get_at_def TGLH_COM0_def group_def group_has_def NOMAP_def PAD_STRIDE_def
        pad_new_def MAX_COMMUNITIES_def PAD_OFFSET_BITS_def)
  ultimately have "\<forall>b. resolve ctl b = Some 2320 \<longrightarrow> b = 40" using pins_resolve_apart r by blast
  moreover have "ctl_platform ctl = platform_for (map of_char ''INT34C6'')" unfolding ctl_def by (rule controller.select_convs)
  ultimately show ?thesis using r by (intro exI [of _ ctl] exI [of _ "2320 :: pad"] conjI)
qed

text \<open>
  The index of a community in the table and its index among the windows that answered are taken to be the
  same: when the first window does not answer, the pins of the first community resolve into the second.
\<close>

lemma silent_window_shifts_the_table:
  "List.map_filter (open_region (\<lambda>a. if a = 0xFD01000C then 0x700 else 0))
     [\<lparr>mem_base = 0xFD000000, mem_length = 0x10000, mem_writable = True\<rparr>,
      \<lparr>mem_base = 0xFD010000, mem_length = 0x10000, mem_writable = True\<rparr>] =
   [\<lparr>com_base = 0xFD010000, pads_at = 0x700, capacity = 3984\<rparr>]"
  by (simp add: List.map_filter_def open_region_def PADBAR_def PAD_STRIDE_def Let_def)

end
