(* ===== verification/Pci_Bus.thy ===== *)
theory Pci_Bus
  imports Visiting "HOL-Library.Monad_Syntax"
begin

text \<open>
  \<open>crates/nanochrono-baremetal/src/pci.rs\<close>: configuration mechanism one, the decoding of a function's
  header, and the walk over the buses that starts at bus 0 and descends through bridges.

  The hardware is the function that gives the word the data port returns for the address selected;
  the reads of a scan do not change it.  The recursion over buses has fuel, and a scan gives \<open>None\<close>
  only when that runs out; the lemmas show that the 257 levels of \<open>scan\<close> never do, because every level
  marks a bus that was not marked before.  So the walk ends on every topology, a cycle of bridges
  included, it reports no function twice, and a search is the first match of the enumeration.
\<close>

section \<open>Configuration space\<close>

type_synonym pci_space = "u32 \<Rightarrow> u32"

definition config_address :: "u8 \<Rightarrow> u8 \<Rightarrow> u8 \<Rightarrow> u8 \<Rightarrow> u32" where
  "config_address bus slot function offset =
     shl1 31 OR push_bit 16 (ucast bus) OR push_bit 11 (ucast slot AND 0x1F) OR
     push_bit 8 (ucast function AND 0x7) OR (ucast offset AND 0xFC)"

definition pci_read32 :: "pci_space \<Rightarrow> u8 \<Rightarrow> u8 \<Rightarrow> u8 \<Rightarrow> u8 \<Rightarrow> u32" where
  "pci_read32 space bus slot function offset = space (config_address bus slot function offset)"

datatype usb_kind = Uhci | Ohci | Ehci | Xhci

definition from_prog_if :: "u8 \<Rightarrow> usb_kind option" where
  "from_prog_if prog_if =
     (if prog_if = 0x00 then Some Uhci
      else if prog_if = 0x10 then Some Ohci
      else if prog_if = 0x20 then Some Ehci
      else if prog_if = 0x30 then Some Xhci
      else None)"

fun usb_name :: "usb_kind \<Rightarrow> string" where
  "usb_name Uhci = ''UHCI (USB 1.1)''"
| "usb_name Ohci = ''OHCI (USB 1.1)''"
| "usb_name Ehci = ''EHCI (USB 2.0)''"
| "usb_name Xhci = ''xHCI (USB 3.0+)''"

record pci_device =
  pci_bus :: u8
  pci_slot :: u8
  pci_function :: u8
  pci_vendor :: u16
  pci_device_id :: u16
  pci_class :: u8
  pci_subclass :: u8
  pci_prog_if :: u8
  header_type :: u8
  bar0 :: u64

definition CLASS_SERIAL_BUS :: u8 where "CLASS_SERIAL_BUS = 0x0C"
definition SUBCLASS_USB :: u8 where "SUBCLASS_USB = 0x03"
definition HEADER_TYPE_BRIDGE :: u8 where "HEADER_TYPE_BRIDGE = 1"

definition usb_kind_of :: "pci_device \<Rightarrow> usb_kind option" where
  "usb_kind_of d =
     (if pci_class d \<noteq> CLASS_SERIAL_BUS \<or> pci_subclass d \<noteq> SUBCLASS_USB then None
      else from_prog_if (pci_prog_if d))"

definition enabled_command :: "u32 \<Rightarrow> u32" where
  "enabled_command command = command OR (shl1 1 OR shl1 2)"

text \<open>The port writes of \<open>enable\<close>: the address of the command register, and the word put there.\<close>

definition enable :: "pci_space \<Rightarrow> pci_device \<Rightarrow> u32 \<times> u32" where
  "enable space d =
     (config_address (pci_bus d) (pci_slot d) (pci_function d) 0x04,
      enabled_command (pci_read32 space (pci_bus d) (pci_slot d) (pci_function d) 0x04))"

definition first_bar :: "pci_space \<Rightarrow> u8 \<Rightarrow> u8 \<Rightarrow> u8 \<Rightarrow> u64" where
  "first_bar space bus slot function =
     (let bar_lo = pci_read32 space bus slot function 0x10
      in if bar_lo AND 1 = 0 then
           (let base = ucast (bar_lo AND 0xFFFFFFF0)
            in if drop_bit 1 bar_lo AND 0x3 = 0x2
               then base OR push_bit 32 (ucast (pci_read32 space bus slot function 0x14))
               else base)
         else 0)"

definition pci_probe :: "pci_space \<Rightarrow> u8 \<Rightarrow> u8 \<Rightarrow> u8 \<Rightarrow> pci_device option" where
  "pci_probe space bus slot function =
     (let id = pci_read32 space bus slot function 0x00
      in if id = 0xFFFFFFFF then None
         else (let classes = pci_read32 space bus slot function 0x08
           in Some \<lparr>pci_bus = bus, pci_slot = slot, pci_function = function,
                pci_vendor = ucast (id AND 0xFFFF), pci_device_id = ucast (drop_bit 16 id),
                pci_class = ucast (drop_bit 24 classes), pci_subclass = ucast (drop_bit 16 classes),
                pci_prog_if = ucast (drop_bit 8 classes),
                header_type = ucast (drop_bit 16 (pci_read32 space bus slot function 0x0C) AND 0x7F),
                bar0 = first_bar space bus slot function\<rparr>))"

section \<open>The walk\<close>

text \<open>The buses already walked, as eight words of 32 bits.\<close>

type_synonym visited = "u32 list"

definition is_visited :: "visited \<Rightarrow> u8 \<Rightarrow> bool" where
  "is_visited v bus \<longleftrightarrow> (v ! unat (bus div 32)) AND shl1 (unat (bus mod 32)) \<noteq> 0"

definition mark :: "visited \<Rightarrow> u8 \<Rightarrow> visited" where
  "mark v bus = v[unat (bus div 32) := (v ! unat (bus div 32)) OR shl1 (unat (bus mod 32))]"

definition secondary_bus :: "pci_space \<Rightarrow> u8 \<Rightarrow> u8 \<Rightarrow> u8 \<Rightarrow> u8" where
  "secondary_bus space bus slot function = ucast (drop_bit 8 (pci_read32 space bus slot function 0x18))"

definition slot_functions :: "pci_space \<Rightarrow> u8 \<Rightarrow> u8 \<Rightarrow> u8 list" where
  "slot_functions space bus slot =
     (if drop_bit 16 (pci_read32 space bus slot 0 0x0C) AND 0x80 \<noteq> 0 then map of_nat [0..<8] else [0])"

text \<open>One bus, given the walk of the buses below it: \<open>(continue, visited, state)\<close>, or no fuel.\<close>

type_synonym 's bus_walk = "u8 \<Rightarrow> visited \<Rightarrow> 's \<Rightarrow> (bool \<times> visited \<times> 's) option"

fun scan_functions ::
  "'s bus_walk \<Rightarrow> pci_space \<Rightarrow> (pci_device \<Rightarrow> 's \<Rightarrow> bool \<times> 's) \<Rightarrow> u8 \<Rightarrow> u8 \<Rightarrow> u8 list \<Rightarrow> visited \<Rightarrow> 's
     \<Rightarrow> (bool \<times> visited \<times> 's) option" where
  "scan_functions below space found bus slot [] v s = Some (True, v, s)"
| "scan_functions below space found bus slot (f # fs) v s =
     (case pci_probe space bus slot f of
        None \<Rightarrow> scan_functions below space found bus slot fs v s
      | Some d \<Rightarrow>
          (case found d s of (go, s) \<Rightarrow>
            if \<not> go then Some (False, v, s)
            else if header_type d = HEADER_TYPE_BRIDGE \<and> secondary_bus space bus slot f \<noteq> 0 \<and>
                secondary_bus space bus slot f \<noteq> bus then
              (case below (secondary_bus space bus slot f) v s of
                 None \<Rightarrow> None
               | Some (go, v, s) \<Rightarrow>
                   if go then scan_functions below space found bus slot fs v s else Some (False, v, s))
            else scan_functions below space found bus slot fs v s))"

fun scan_slots ::
  "'s bus_walk \<Rightarrow> pci_space \<Rightarrow> (pci_device \<Rightarrow> 's \<Rightarrow> bool \<times> 's) \<Rightarrow> u8 \<Rightarrow> u8 list \<Rightarrow> visited \<Rightarrow> 's
     \<Rightarrow> (bool \<times> visited \<times> 's) option" where
  "scan_slots below space found bus [] v s = Some (True, v, s)"
| "scan_slots below space found bus (slot # slots) v s =
     (if pci_read32 space bus slot 0 0x00 = 0xFFFFFFFF then scan_slots below space found bus slots v s
      else (case scan_functions below space found bus slot (slot_functions space bus slot) v s of
          None \<Rightarrow> None
        | Some (go, v, s) \<Rightarrow>
            if go then scan_slots below space found bus slots v s else Some (False, v, s)))"

primrec scan_bus :: "nat \<Rightarrow> pci_space \<Rightarrow> (pci_device \<Rightarrow> 's \<Rightarrow> bool \<times> 's) \<Rightarrow> 's bus_walk" where
  "scan_bus 0 space found = (\<lambda>bus v s. None)"
| "scan_bus (Suc n) space found = (\<lambda>bus v s.
     if is_visited v bus then Some (True, v, s)
     else scan_slots (scan_bus n space found) space found bus (map of_nat [0..<32]) (mark v bus) s)"

definition pci_scan :: "pci_space \<Rightarrow> (pci_device \<Rightarrow> 's \<Rightarrow> bool \<times> 's) \<Rightarrow> 's \<Rightarrow> 's option" where
  "pci_scan space found s =
     map_option (\<lambda>(go, v, s). s) (scan_bus 257 space found 0 (replicate 8 0) s)"

definition pci_find :: "pci_space \<Rightarrow> (pci_device \<Rightarrow> bool) \<Rightarrow> pci_device option option" where
  "pci_find space wanted = pci_scan space (\<lambda>d hit. if wanted d then (False, Some d) else (True, hit)) None"

section \<open>The set of walked buses\<close>

lemma shl1_overlap: "w AND shl1 i \<noteq> 0 \<longleftrightarrow> i < LENGTH('a) \<and> bit w i" for w :: "'a::len word"
proof -
  have "w AND shl1 i = (if i < LENGTH('a) \<and> bit w i then shl1 i else 0)"
    by (rule bit_eqI) (auto simp: bit_simps)
  moreover have "shl1 i \<noteq> (0 :: 'a word)" if "i < LENGTH('a)"
    using that by (metis bit_0_eq bit_shl1_iff bot_apply bot_bool_def)
  ultimately show ?thesis by auto
qed

lemma bus_word: "unat (bus div 32) < 8" "unat (bus mod 32) < 32" for bus :: u8
proof -
  have b: "unat bus < 256" using unsigned_less [of bus] by simp
  have d: "unat (bus div 32) = unat bus div 32" by (simp add: unat_div)
  show "unat (bus div 32) < 8" unfolding d using b by (simp add: less_mult_imp_div_less)
  show "unat (bus mod 32) < 32" by (simp add: unat_mod)
qed

lemma bus_of_word:
  "unat (a div 32) = unat (b div 32) \<Longrightarrow> unat (a mod 32) = unat (b mod 32) \<Longrightarrow> a = b" for a b :: u8
proof -
  assume "unat (a div 32) = unat (b div 32)" "unat (a mod 32) = unat (b mod 32)"
  then have "unat a div 32 = unat b div 32" "unat a mod 32 = unat b mod 32" by (simp_all add: unat_div unat_mod)
  then have "unat a = unat b" by (metis div_mult_mod_eq)
  then show "a = b" by (rule word_unat_eq_iff [THEN iffD2])
qed

lemma mark_visited:
  assumes "length v = 8"
  shows "is_visited (mark v b) c \<longleftrightarrow> c = b \<or> is_visited v c" "length (mark v b) = 8"
proof -
  show "length (mark v b) = 8" using assms by (simp add: mark_def)
  define wb jb wc jc where d: "wb = unat (b div 32)" "jb = unat (b mod 32)" "wc = unat (c div 32)" "jc = unat (c mod 32)"
  have r: "wb < 8" "jb < 32" "wc < 8" "jc < 32" unfolding d by (rule bus_word)+
  have e: "c = b \<longleftrightarrow> wc = wb \<and> jc = jb" unfolding d using bus_of_word by blast
  show "is_visited (mark v b) c \<longleftrightarrow> c = b \<or> is_visited v c"
    unfolding is_visited_def mark_def e d [symmetric] shl1_overlap
    using r assms by (cases "wc = wb") (simp_all add: bit_or_iff bit_shl1_iff, blast)
qed

definition walked :: "visited \<Rightarrow> u8 set" where
  "walked v = {b. is_visited v b}"

lemma walked_mark: "length v = 8 \<Longrightarrow> walked (mark v b) = insert b (walked v)"
  by (auto simp: walked_def mark_visited)

lemma walked_none: "walked (replicate 8 0) = {}"
  using bus_word by (auto simp: walked_def is_visited_def)


section \<open>The enumeration\<close>

text \<open>The functions a walk reports when nothing stops it, and the buses it has then entered.\<close>

type_synonym listing = "(pci_device list \<times> visited) option"

definition then_list :: "listing \<Rightarrow> (visited \<Rightarrow> listing) \<Rightarrow> listing" where
  "then_list l k = do { (ds, v) \<leftarrow> l; (es, v) \<leftarrow> k v; Some (ds @ es, v) }"

fun list_functions :: "(u8 \<Rightarrow> visited \<Rightarrow> listing) \<Rightarrow> pci_space \<Rightarrow> u8 \<Rightarrow> u8 \<Rightarrow> u8 list \<Rightarrow> visited \<Rightarrow> listing" where
  "list_functions below space bus slot [] v = Some ([], v)"
| "list_functions below space bus slot (f # fs) v =
     (case pci_probe space bus slot f of
        None \<Rightarrow> list_functions below space bus slot fs v
      | Some d \<Rightarrow>
          then_list (Some ([d], v)) (\<lambda>v.
            then_list
              (if header_type d = HEADER_TYPE_BRIDGE \<and> secondary_bus space bus slot f \<noteq> 0 \<and>
                 secondary_bus space bus slot f \<noteq> bus then below (secondary_bus space bus slot f) v else Some ([], v))
              (list_functions below space bus slot fs)))"

fun list_slots :: "(u8 \<Rightarrow> visited \<Rightarrow> listing) \<Rightarrow> pci_space \<Rightarrow> u8 \<Rightarrow> u8 list \<Rightarrow> visited \<Rightarrow> listing" where
  "list_slots below space bus [] v = Some ([], v)"
| "list_slots below space bus (slot # slots) v =
     (if pci_read32 space bus slot 0 0x00 = 0xFFFFFFFF then list_slots below space bus slots v
      else then_list (list_functions below space bus slot (slot_functions space bus slot) v)
             (list_slots below space bus slots))"

primrec list_bus :: "nat \<Rightarrow> pci_space \<Rightarrow> u8 \<Rightarrow> visited \<Rightarrow> listing" where
  "list_bus 0 space = (\<lambda>bus v. None)"
| "list_bus (Suc n) space = (\<lambda>bus v.
     if is_visited v bus then Some ([], v)
     else list_slots (list_bus n space) space bus (map of_nat [0..<32]) (mark v bus))"

definition pci_devices :: "pci_space \<Rightarrow> pci_device list" where
  "pci_devices space = (case list_bus 257 space 0 (replicate 8 0) of Some (ds, v) \<Rightarrow> ds | None \<Rightarrow> [])"

lemma then_list_Some:
  "then_list l k = Some (ds, v) \<longleftrightarrow> (\<exists>as w bs. l = Some (as, w) \<and> k w = Some (bs, v) \<and> ds = as @ bs)"
  by (auto simp: then_list_def bind_eq_Some_conv)

text \<open>The walk with a visitor follows the list.\<close>

definition follows :: "(pci_device \<Rightarrow> 's \<Rightarrow> bool \<times> 's) \<Rightarrow> 's \<Rightarrow> (bool \<times> visited \<times> 's) option \<Rightarrow> pci_device list \<Rightarrow> visited \<Rightarrow> bool" where
  "follows found s r ds v \<longleftrightarrow>
     (\<exists>w. r = Some (fst (visit_list found ds s), w, snd (visit_list found ds s)) \<and> (fst (visit_list found ds s) \<longrightarrow> w = v))"

lemma follows_Nil: "follows found s (Some (True, v, s)) [] v"
  by (simp add: follows_def)

lemma follows_append:
  assumes "follows found s r as w" "\<And>s'. follows found s' (k w s') bs v"
  shows "follows found s (case r of None \<Rightarrow> None | Some (go, v, s) \<Rightarrow> if go then k v s else Some (False, v, s)) (as @ bs) v"
  using assms(1) assms(2) [of "snd (visit_list found as s)"]
  by (auto simp: follows_def visit_list_append split: prod.splits)

lemma functions_follow:
  assumes "\<And>bus v ds v' s. lower bus v = Some (ds, v') \<Longrightarrow> follows found s (below bus v s) ds v'"
  shows "list_functions lower space bus slot fs v = Some (ds, v') \<Longrightarrow>
    follows found s (scan_functions below space found bus slot fs v s) ds v'"
proof (induction fs arbitrary: v ds s)
  case Nil
  then show ?case by (simp add: follows_Nil)
next
  case (Cons f fs)
  show ?case
  proof (cases "pci_probe space bus slot f")
    case None
    with Cons show ?thesis by simp
  next
    case (Some d)
    let ?down = "header_type d = HEADER_TYPE_BRIDGE \<and> secondary_bus space bus slot f \<noteq> 0 \<and> secondary_bus space bus slot f \<noteq> bus"
    obtain as w bs where ds: "ds = d # as @ bs"
      and lower: "(if ?down then lower (secondary_bus space bus slot f) v else Some ([], v)) = Some (as, w)"
      and rest: "list_functions lower space bus slot fs w = Some (bs, v')"
      using Cons.prems Some by (auto simp: then_list_Some)
    have "follows found s' (if ?down then below (secondary_bus space bus slot f) v s' else Some (True, v, s')) as w" for s'
      using lower assms follows_Nil by (auto split: if_splits)
    then have tail: "follows found s' (case (if ?down then below (secondary_bus space bus slot f) v s' else Some (True, v, s')) of
        None \<Rightarrow> None
      | Some (go, v, s) \<Rightarrow> if go then scan_functions below space found bus slot fs v s else Some (False, v, s)) (as @ bs) v'" for s'
      using Cons.IH [OF rest] by (rule follows_append [where k = "scan_functions below space found bus slot fs"])
    obtain go s' where g: "found d s = (go, s')" by fastforce
    show ?thesis
    proof (cases go)
      case True
      then have "fst (visit_list found ds s) = fst (visit_list found (as @ bs) s')"
        "snd (visit_list found ds s) = snd (visit_list found (as @ bs) s')" using g by (simp_all add: ds)
      moreover have "scan_functions below space found bus slot (f # fs) v s =
          (case (if ?down then below (secondary_bus space bus slot f) v s' else Some (True, v, s')) of
             None \<Rightarrow> None
           | Some (go, v, s) \<Rightarrow> if go then scan_functions below space found bus slot fs v s else Some (False, v, s))"
        using True g Some by simp
      ultimately show ?thesis using tail [of s'] by (simp only: follows_def)
    next
      case False
      then show ?thesis using g Some by (simp add: follows_def ds)
    qed
  qed
qed

lemma slots_follow:
  assumes "\<And>bus v ds v' s. lower bus v = Some (ds, v') \<Longrightarrow> follows found s (below bus v s) ds v'"
  shows "list_slots lower space bus slots v = Some (ds, v') \<Longrightarrow>
    follows found s (scan_slots below space found bus slots v s) ds v'"
proof (induction slots arbitrary: v ds s)
  case Nil
  then show ?case by (simp add: follows_Nil)
next
  case (Cons slot slots)
  show ?case
  proof (cases "pci_read32 space bus slot 0 0x00 = 0xFFFFFFFF")
    case False
    then obtain as w bs where "ds = as @ bs" "list_functions lower space bus slot (slot_functions space bus slot) v = Some (as, w)"
      "list_slots lower space bus slots w = Some (bs, v')"
      using Cons.prems by (auto simp: then_list_Some)
    with follows_append [where k = "scan_slots below space found bus slots",
        OF functions_follow [of lower found below space bus slot _ v as w s, OF assms] Cons.IH] False
    show ?thesis by simp
  qed (use Cons in simp)
qed

lemma bus_follows: "list_bus n space bus v = Some (ds, v') \<Longrightarrow> follows found s (scan_bus n space found bus v s) ds v'"
proof (induction n arbitrary: bus v ds v' s)
  case (Suc n)
  then show ?case
    using slots_follow [of "list_bus n space" found "scan_bus n space found" space bus _ "mark v bus" ds v' s]
    by (auto simp: follows_Nil split: if_splits)
qed simp


section \<open>The walk ends\<close>

text \<open>What each part of the enumeration keeps: it gives a list when the walks below do, and only adds buses.\<close>

definition grows :: "visited \<Rightarrow> visited \<Rightarrow> bool" where
  "grows v w \<longleftrightarrow> length w = 8 \<and> walked v \<subseteq> walked w"

lemma grows_trans: "grows u v \<Longrightarrow> grows v w \<Longrightarrow> grows u w"
  by (auto simp: grows_def)

definition gives :: "listing \<Rightarrow> visited \<Rightarrow> bool" where
  "gives l v \<longleftrightarrow> (\<exists>ds w. l = Some (ds, w) \<and> grows v w)"

lemma gives_then: "gives l v \<Longrightarrow> (\<And>w. grows v w \<Longrightarrow> gives (k w) w) \<Longrightarrow> gives (then_list l k) v"
  unfolding gives_def then_list_def using grows_trans by fastforce

lemma gives_Nil: "length v = 8 \<Longrightarrow> gives (Some (ds, v)) v"
  by (simp add: gives_def grows_def)

lemma grows_length: "grows v w \<Longrightarrow> length w = 8"
  by (simp add: grows_def)

lemma functions_give:
  assumes "\<And>bus w. grows v w \<Longrightarrow> gives (below bus w) w"
  shows "grows v u \<Longrightarrow> gives (list_functions below space bus slot fs u) u"
proof (induction fs arbitrary: u)
  case (Cons f fs)
  show ?case
  proof (cases "pci_probe space bus slot f")
    case (Some d)
    have "gives (list_functions below space bus slot fs w) w" if "grows u w" for w
      using Cons.IH grows_trans [OF Cons.prems that] .
    then show ?thesis
      using Some assms [OF Cons.prems] gives_Nil [OF grows_length [OF Cons.prems]] grows_trans [OF Cons.prems]
      by (simp only: list_functions.simps option.case)
        (intro gives_then; auto intro!: gives_then assms gives_Nil Cons.IH dest: grows_trans grows_length split: if_splits)
  qed (use Cons in simp)
qed (auto intro: gives_Nil grows_length)

lemma slots_give:
  assumes "\<And>bus w. grows v w \<Longrightarrow> gives (below bus w) w"
  shows "grows v u \<Longrightarrow> gives (list_slots below space bus slots u) u"
proof (induction slots arbitrary: u)
  case (Cons slot slots)
  then show ?case
    by (auto intro!: gives_then functions_give [where v = v] assms intro: grows_trans)
qed (auto intro: gives_Nil grows_length)

lemma bus_gives: "length v = 8 \<Longrightarrow> card (- walked v) < n \<Longrightarrow> gives (list_bus n space bus v) v"
proof (induction n arbitrary: bus v)
  case (Suc n)
  show ?case
  proof (cases "is_visited v bus")
    case True
    then show ?thesis using Suc.prems(1) by (simp add: gives_Nil)
  next
    case False
    let ?m = "mark v bus"
    have m: "length ?m = 8" "walked ?m = insert bus (walked v)" using Suc.prems(1) by (simp_all add: mark_visited walked_mark)
    have "- walked ?m \<subset> - walked v" using False m(2) by (auto simp: walked_def)
    then have "card (- walked ?m) < card (- walked v)" by (rule psubset_card_mono [rotated]) simp
    then have c: "card (- walked ?m) < n" using Suc.prems(2) by simp
    have below: "gives (list_bus n space b w) w" if "grows ?m w" for b w
    proof (rule Suc.IH)
      show "length w = 8" using that by (rule grows_length)
      have "- walked w \<subseteq> - walked ?m" using that by (auto simp: grows_def)
      then have "card (- walked w) \<le> card (- walked ?m)" by (rule card_mono [rotated]) simp
      with c show "card (- walked w) < n" by simp
    qed
    have "grows ?m ?m" by (simp add: grows_def m(1))
    with below have "gives (list_slots (list_bus n space) space bus (map of_nat [0..<32]) ?m) ?m" by (rule slots_give)
    then obtain ds w where l: "list_slots (list_bus n space) space bus (map of_nat [0..<32]) ?m = Some (ds, w)" "grows ?m w"
      unfolding gives_def by blast
    have "grows v ?m" using m by (auto simp: grows_def)
    with l(2) have "grows v w" using grows_trans by blast
    with l(1) False show ?thesis by (simp add: gives_def)
  qed
qed simp

lemma all_buses: "card (- walked v) < 257"
proof -
  have "card (- walked v) \<le> card (UNIV :: u8 set)" by (rule card_mono) auto
  then show ?thesis by (simp add: card_word)
qed


section \<open>No function twice\<close>

definition address_of :: "pci_device \<Rightarrow> u8 \<times> u8 \<times> u8" where
  "address_of d = (pci_bus d, pci_slot d, pci_function d)"

text \<open>
  A list of functions met while the set of walked buses went from \<open>v\<close> to \<open>w\<close>: they are distinct, and
  each is on a bus entered meanwhile, or one of the given addresses of the current bus.
\<close>

definition fresh :: "(u8 \<times> u8 \<times> u8) set \<Rightarrow> visited \<Rightarrow> pci_device list \<Rightarrow> visited \<Rightarrow> bool" where
  "fresh here v ds w \<longleftrightarrow>
     distinct (map address_of ds) \<and> walked v \<subseteq> walked w \<and> length w = 8 \<and>
     (\<forall>d\<in>set ds. address_of d \<in> here \<or> pci_bus d \<in> walked w - walked v)"

lemma fresh_append:
  assumes "fresh A v ds w" "fresh B w es u" "A \<inter> B = {}" "fst ` A \<subseteq> walked v" "fst ` B \<subseteq> walked v"
  shows "fresh (A \<union> B) v (ds @ es) u"
proof -
  have "address_of d \<noteq> address_of e" if "d \<in> set ds" "e \<in> set es" for d e
  proof
    assume eq: "address_of d = address_of e"
    then have b: "pci_bus d = pci_bus e" by (simp add: address_of_def)
    have f: "fst (address_of d) = pci_bus d" by (simp add: address_of_def)
    from assms(1) that(1) consider "address_of d \<in> A" | "pci_bus d \<in> walked w - walked v" by (auto simp: fresh_def)
    then show False
    proof cases
      case 1
      then have "pci_bus d \<in> walked v" using assms(4) f by auto
      with assms(1) have "pci_bus e \<in> walked w" using b by (auto simp: fresh_def)
      with assms(2) that(2) have "address_of e \<in> B" by (auto simp: fresh_def)
      with 1 eq assms(3) show False by auto
    next
      case 2
      with b assms(2) that(2) have "address_of e \<in> B" by (auto simp: fresh_def)
      with assms(5) f eq 2 show False by auto
    qed
  qed
  then have "address_of ` set ds \<inter> address_of ` set es = {}" by blast
  with assms(1,2) show ?thesis by (auto simp: fresh_def)
qed

lemma fresh_mono: "fresh A v ds w \<Longrightarrow> A \<subseteq> B \<Longrightarrow> fresh B v ds w"
  by (auto simp: fresh_def)

lemma fresh_Nil: "length v = 8 \<Longrightarrow> fresh A v [] v"
  by (simp add: fresh_def)

lemma fresh_grows: "fresh A v ds w \<Longrightarrow> grows v w"
  by (simp add: fresh_def grows_def)

lemma probe_address: "pci_probe space bus slot f = Some d \<Longrightarrow> address_of d = (bus, slot, f)"
  by (auto simp: pci_probe_def Let_def address_of_def split: if_splits)

definition lists_fresh :: "(u8 \<Rightarrow> visited \<Rightarrow> listing) \<Rightarrow> bool" where
  "lists_fresh below \<longleftrightarrow> (\<forall>bus v ds w. length v = 8 \<longrightarrow> below bus v = Some (ds, w) \<longrightarrow> fresh {} v ds w)"

lemma functions_fresh:
  assumes "lists_fresh below"
  shows "list_functions below space bus slot fs v = Some (ds, w) \<Longrightarrow> distinct fs \<Longrightarrow> length v = 8 \<Longrightarrow>
    bus \<in> walked v \<Longrightarrow> fresh ((\<lambda>f. (bus, slot, f)) ` set fs) v ds w"
proof (induction fs arbitrary: v ds)
  case (Cons f fs)
  let ?A = "\<lambda>fs. (\<lambda>f. (bus, slot, f)) ` set fs"
  show ?case
  proof (cases "pci_probe space bus slot f")
    case None
    with Cons show ?thesis by (auto intro: fresh_mono)
  next
    case (Some d)
    let ?down = "header_type d = HEADER_TYPE_BRIDGE \<and> secondary_bus space bus slot f \<noteq> 0 \<and> secondary_bus space bus slot f \<noteq> bus"
    obtain as u bs where ds: "ds = [d] @ as @ bs"
      and lower: "(if ?down then below (secondary_bus space bus slot f) v else Some ([], v)) = Some (as, u)"
      and rest: "list_functions below space bus slot fs u = Some (bs, w)"
      using Cons.prems(1) Some by (auto simp: then_list_Some)
    have d: "fresh {(bus, slot, f)} v [d] v"
      using probe_address [OF Some] Cons.prems(3) by (simp add: fresh_def)
    have l: "fresh {} v as u" using lower assms Cons.prems(3) fresh_Nil by (auto simp: lists_fresh_def split: if_splits)
    then have u: "length u = 8" "bus \<in> walked u" using Cons.prems(4) by (auto simp: fresh_def)
    have r: "fresh (?A fs) u bs w" using Cons.IH [OF rest _ u] Cons.prems(2) by simp
    have "fresh ({} \<union> ?A fs) v (as @ bs) w"
      using l r by (rule fresh_append) (use Cons.prems(4) in auto)
    with d have "fresh ({(bus, slot, f)} \<union> ({} \<union> ?A fs)) v ([d] @ as @ bs) w"
      by (rule fresh_append) (use Cons.prems(2,4) in auto)
    then show ?thesis by (simp add: ds)
  qed
qed (auto intro: fresh_Nil)

lemma slots_fresh:
  assumes "lists_fresh below"
  shows "list_slots below space bus slots v = Some (ds, w) \<Longrightarrow> distinct slots \<Longrightarrow> length v = 8 \<Longrightarrow>
    bus \<in> walked v \<Longrightarrow> fresh ({bus} \<times> set slots \<times> UNIV) v ds w"
proof (induction slots arbitrary: v ds)
  case (Cons slot slots)
  show ?case
  proof (cases "pci_read32 space bus slot 0 0x00 = 0xFFFFFFFF")
    case True
    with Cons show ?thesis by (auto intro: fresh_mono)
  next
    case False
    then obtain as u bs where ds: "ds = as @ bs"
      and a: "list_functions below space bus slot (slot_functions space bus slot) v = Some (as, u)"
      and b: "list_slots below space bus slots u = Some (bs, w)"
      using Cons.prems(1) by (auto simp: then_list_Some)
    have "distinct (slot_functions space bus slot)" by (simp add: slot_functions_def upt_rec)
    from functions_fresh [OF assms a this Cons.prems(3,4)]
    have f: "fresh ({bus} \<times> {slot} \<times> UNIV) v as u" by (rule fresh_mono) auto
    then have u: "length u = 8" "bus \<in> walked u" using Cons.prems(4) by (auto simp: fresh_def)
    have "fresh ({bus} \<times> set slots \<times> UNIV) u bs w" using Cons.IH [OF b _ u] Cons.prems(2) by simp
    with f have "fresh ({bus} \<times> {slot} \<times> UNIV \<union> {bus} \<times> set slots \<times> UNIV) v (as @ bs) w"
      by (rule fresh_append) (use Cons.prems(2,4) in auto)
    then show ?thesis unfolding ds by (rule fresh_mono) auto
  qed
qed (auto intro: fresh_Nil)

lemma bus_fresh: "lists_fresh (list_bus n space)"
proof (induction n)
  case (Suc n)
  show ?case unfolding lists_fresh_def
  proof (intro allI impI)
    fix bus v ds w
    assume v: "length (v :: visited) = 8" and l: "list_bus (Suc n) space bus v = Some (ds, w)"
    show "fresh {} v ds w"
    proof (cases "is_visited v bus")
      case True
      then show ?thesis using l v fresh_Nil by simp
    next
      case False
      have m: "length (mark v bus) = 8" "walked (mark v bus) = insert bus (walked v)" using v by (simp_all add: mark_visited walked_mark)
      have "distinct (map of_nat [0..<32] :: u8 list)" by (simp add: upt_rec)
      from slots_fresh [OF Suc _ this m(1)] l False m(2)
      have "fresh ({bus} \<times> set (map of_nat [0..<32]) \<times> UNIV) (mark v bus) ds w" by simp
      then show ?thesis using m(2) False by (auto simp: fresh_def walked_def address_of_def)
    qed
  qed
qed (simp add: lists_fresh_def)


section \<open>Properties\<close>

lemma enumeration: "\<exists>v. list_bus 257 space 0 (replicate 8 0) = Some (pci_devices space, v)"
proof -
  have "gives (list_bus 257 space 0 (replicate 8 0)) (replicate 8 0)" by (rule bus_gives [OF _ all_buses]) simp
  then show ?thesis by (auto simp: gives_def pci_devices_def)
qed

lemma pci_scan_visits: "pci_scan space found s = Some (snd (visit_list found (pci_devices space) s))"
proof -
  obtain v where "list_bus 257 space 0 (replicate 8 0) = Some (pci_devices space, v)" using enumeration by blast
  from bus_follows [OF this, of found s] show ?thesis by (auto simp: follows_def pci_scan_def)
qed

interpretation pci_search: searching "\<lambda>visit s. the (pci_scan space visit s)" "pci_devices space" for space
  by unfold_locales (simp add: pci_scan_visits)

text \<open>
  C17. A scan of the PCI buses ends on every topology: whatever the hardware answers, a bridge that leads
  back to its own bus included, the walk returns, having given its visitor the enumerated functions in
  order until the visitor stopped it.
\<close>

theorem pci_scan_ends: "pci_scan space found s = Some (snd (visit_list found (pci_devices space) s))"
  by (rule pci_scan_visits)

lemma pci_find_first: "pci_find space wanted = Some (find wanted (pci_devices space))"
proof -
  have "pci_find space wanted = Some (the (pci_find space wanted))" by (simp add: pci_find_def pci_scan_visits)
  then show ?thesis unfolding pci_find_def pci_search.finds_first by simp
qed

text \<open>
  C16. No function is reported twice: the bus, slot and function numbers of the enumeration are distinct, and
  a search gives the first function of the enumeration that is wanted.
\<close>

theorem pci_devices_distinct:
  "distinct (map address_of (pci_devices space)) \<and> pci_find space wanted = Some (find wanted (pci_devices space))"
proof
  obtain v where l: "list_bus 257 space 0 (replicate 8 0) = Some (pci_devices space, v)" using enumeration by blast
  with bus_fresh [of 257 space] have "fresh {} (replicate 8 0) (pci_devices space) v" by (simp add: lists_fresh_def)
  then show "distinct (map address_of (pci_devices space))" by (simp add: fresh_def)
  show "pci_find space wanted = Some (find wanted (pci_devices space))" by (rule pci_find_first)
qed

end
