(* ===== verification/I2c_Master.thy ===== *)
theory I2c_Master
  imports Pci_Bus
begin

text \<open>
  \<open>crates/nanochrono-baremetal/src/i2c.rs\<close>: the polled driver of the DesignWare I2C controller.

  The controller is an argument: what a register reads (a read may change the controller), what a write
  does, and for how many checks a fresh deadline of so many microseconds is found live.  A transfer is
  \<open>None\<close> when the driver's loop does not return.  To speak of what the driver does to the controller, a
  controller is put behind a \<open>logged\<close> one that writes every access down; the lemmas show which commands a
  transfer issues, what bytes it returns, that the receive FIFO is never asked for more than it holds, and
  that a bus which stays silent keeps a read waiting for ever.
\<close>

section \<open>Registers\<close>

definition REG_CTL :: u64 where "REG_CTL = 0x00"
definition REG_TAR_ADD :: u64 where "REG_TAR_ADD = 0x04"
definition REG_DATA_CMD :: u64 where "REG_DATA_CMD = 0x10"
definition REG_SS_SCL_HCNT :: u64 where "REG_SS_SCL_HCNT = 0x14"
definition REG_SS_SCL_LCNT :: u64 where "REG_SS_SCL_LCNT = 0x18"
definition REG_FS_SCL_HCNT :: u64 where "REG_FS_SCL_HCNT = 0x1C"
definition REG_FS_SCL_LCNT :: u64 where "REG_FS_SCL_LCNT = 0x20"
definition REG_INTR_MASK :: u64 where "REG_INTR_MASK = 0x30"
definition REG_RAW_INTR_STAT :: u64 where "REG_RAW_INTR_STAT = 0x34"
definition REG_RX_TL :: u64 where "REG_RX_TL = 0x38"
definition REG_TX_TL :: u64 where "REG_TX_TL = 0x3C"
definition REG_CLR_INTR :: u64 where "REG_CLR_INTR = 0x40"
definition REG_CLR_TX_ABORT :: u64 where "REG_CLR_TX_ABORT = 0x54"
definition REG_I2C_EN :: u64 where "REG_I2C_EN = 0x6C"
definition REG_I2C_STA :: u64 where "REG_I2C_STA = 0x70"
definition REG_SDA_HOLD :: u64 where "REG_SDA_HOLD = 0x7C"
definition REG_ENABLE_STATUS :: u64 where "REG_ENABLE_STATUS = 0x9C"
definition REG_COMP_TYPE :: u64 where "REG_COMP_TYPE = 0xFC"
definition REG_RESETS :: u64 where "REG_RESETS = 0x204"
definition REG_DEVIDLE_CTRL :: u64 where "REG_DEVIDLE_CTRL = 0x24C"

definition RESETS_ASSERT :: u32 where "RESETS_ASSERT = 0"
definition RESETS_DEASSERT :: u32 where "RESETS_DEASSERT = 3"
definition DEVIDLE :: u32 where "DEVIDLE = 4"
definition RESTORE_REQUIRED :: u32 where "RESTORE_REQUIRED = 8"
definition COMP_TYPE_SIGNATURE :: u32 where "COMP_TYPE_SIGNATURE = 0x44570140"

definition CTL_MASTER :: u32 where "CTL_MASTER = 0x01"
definition CTL_SPEED_STD :: u32 where "CTL_SPEED_STD = 0x02"
definition CTL_SPEED_FAST :: u32 where "CTL_SPEED_FAST = 0x04"
definition CTL_SPEED_MASK :: u32 where "CTL_SPEED_MASK = 0x06"
definition CTL_RESTARTEN :: u32 where "CTL_RESTARTEN = 0x20"
definition CTL_SLAVE_DISABLE :: u32 where "CTL_SLAVE_DISABLE = 0x40"

definition DATA_RESTART :: u32 where "DATA_RESTART = 0x400"
definition DATA_STOP :: u32 where "DATA_STOP = 0x200"
definition DATA_COMMAND_RD :: u32 where "DATA_COMMAND_RD = 0x100"
definition INTR_TX_ABRT :: u32 where "INTR_TX_ABRT = 0x40"
definition I2C_ENABLE :: u32 where "I2C_ENABLE = 1"

definition STATUS_RX_NOTEMPTY :: u32 where "STATUS_RX_NOTEMPTY = 0x08"
definition STATUS_TX_EMPTY :: u32 where "STATUS_TX_EMPTY = 0x04"
definition STATUS_TX_NOTFULL :: u32 where "STATUS_TX_NOTFULL = 0x02"
definition STATUS_ACTIVITY :: u32 where "STATUS_ACTIVITY = 0x20"

definition FIFO_DEPTH :: nat where "FIFO_DEPTH = 16"
definition WAIT_US :: u64 where "WAIT_US = 5000"
definition RESET_US :: u64 where "RESET_US = 50000"

section \<open>Speed and timing\<close>

datatype speed = Standard | Fast

definition speed_for_hz :: "u32 \<Rightarrow> speed" where
  "speed_for_hz hz = (if 100000 < hz then Fast else Standard)"

fun control_bits :: "speed \<Rightarrow> u32" where
  "control_bits Standard = CTL_SPEED_STD"
| "control_bits Fast = CTL_SPEED_FAST"

fun speed_name :: "speed \<Rightarrow> string" where
  "speed_name Standard = ''100 kHz''"
| "speed_name Fast = ''400 kHz''"

record timing =
  scl_high :: u32
  scl_low :: u32
  sda_hold :: u32

definition INPUT_CLOCK_MHZ :: u32 where "INPUT_CLOCK_MHZ = 133"
definition STD_HIGH_NS :: u32 where "STD_HIGH_NS = 4000"
definition STD_LOW_NS :: u32 where "STD_LOW_NS = 4700"
definition FAST_HIGH_NS :: u32 where "FAST_HIGH_NS = 600"
definition FAST_LOW_NS :: u32 where "FAST_LOW_NS = 1300"
definition FALL_NS :: u32 where "FALL_NS = 300"
definition SDA_HOLD_NS :: u32 where "SDA_HOLD_NS = 42"

definition computed_timing :: "speed \<Rightarrow> timing" where
  "computed_timing speed =
     (let (high, low) = (case speed of Standard \<Rightarrow> (STD_HIGH_NS, STD_LOW_NS) | Fast \<Rightarrow> (FAST_HIGH_NS, FAST_LOW_NS))
      in \<lparr>scl_high = (INPUT_CLOCK_MHZ * (high + FALL_NS) + 500) div 1000 - 3,
          scl_low = (INPUT_CLOCK_MHZ * (low + FALL_NS) + 500) div 1000 - 1,
          sda_hold = (INPUT_CLOCK_MHZ * SDA_HOLD_NS + 500) div 1000\<rparr>)"

section \<open>The controller and the driver's state\<close>

record 'd mmio =
  reg_read :: "u64 \<Rightarrow> 'd \<Rightarrow> u32 \<times> 'd"
  reg_write :: "u64 \<Rightarrow> u32 \<Rightarrow> 'd \<Rightarrow> 'd"
  live_checks :: "u64 \<Rightarrow> 'd \<Rightarrow> nat"

text \<open>\<open>I2cMaster\<close>: the speed, the address the controller is aimed at, and the controller itself.\<close>

record 'd i2c_master =
  bus_speed :: speed
  target :: u16
  ctl :: 'd

definition aborted :: "'d mmio \<Rightarrow> 'd \<Rightarrow> bool \<times> 'd" where
  "aborted D d = (case reg_read D REG_RAW_INTR_STAT d of (v, d) \<Rightarrow> (v AND INTR_TX_ABRT \<noteq> 0, d))"

text \<open>
  The bounded waits: as long as the deadline is live, look whether the condition holds; the flag says that
  an abort ends the wait as a failure.
\<close>

fun wait_loop :: "'d mmio \<Rightarrow> bool \<Rightarrow> u64 \<Rightarrow> (u32 \<Rightarrow> bool) \<Rightarrow> nat \<Rightarrow> 'd \<Rightarrow> bool \<times> 'd" where
  "wait_loop D abortable reg ready 0 d = (False, d)"
| "wait_loop D abortable reg ready (Suc n) d =
     (case (if abortable then aborted D d else (False, d)) of
        (True, d) \<Rightarrow> (False, d)
      | (False, d) \<Rightarrow>
          (case reg_read D reg d of (v, d) \<Rightarrow> if ready v then (True, d) else wait_loop D abortable reg ready n d))"

definition disable :: "'d mmio \<Rightarrow> 'd \<Rightarrow> bool \<times> 'd" where
  "disable D d =
     (let d = reg_write D REG_I2C_EN 0 d
      in wait_loop D False REG_ENABLE_STATUS (\<lambda>v. v AND I2C_ENABLE = 0) (live_checks D WAIT_US d) d)"

definition push :: "'d mmio \<Rightarrow> u32 \<Rightarrow> 'd \<Rightarrow> bool \<times> 'd" where
  "push D command d =
     (case wait_loop D True REG_I2C_STA (\<lambda>v. v AND STATUS_TX_NOTFULL \<noteq> 0) (live_checks D WAIT_US d) d of
        (True, d) \<Rightarrow> (True, reg_write D REG_DATA_CMD command d)
      | (False, d) \<Rightarrow> (False, d))"

definition drain_fifo :: "'d mmio \<Rightarrow> 'd \<Rightarrow> bool \<times> 'd" where
  "drain_fifo D d =
     wait_loop D True REG_I2C_STA (\<lambda>v. v AND STATUS_TX_EMPTY \<noteq> 0 \<and> v AND STATUS_ACTIVITY = 0) (live_checks D WAIT_US d) d"

definition settle :: "'d mmio \<Rightarrow> 'd \<Rightarrow> bool \<times> 'd" where
  "settle D d =
     wait_loop D True REG_I2C_STA (\<lambda>v. v AND STATUS_RX_NOTEMPTY \<noteq> 0 \<or> v AND STATUS_TX_NOTFULL \<noteq> 0)
       (live_checks D WAIT_US d) d"

section \<open>Bringing the controller up\<close>

definition firmware_timing :: "'d mmio \<Rightarrow> speed \<Rightarrow> 'd \<Rightarrow> timing \<times> 'd" where
  "firmware_timing D speed d =
     (let (high_reg, low_reg) = (case speed of Standard \<Rightarrow> (REG_SS_SCL_HCNT, REG_SS_SCL_LCNT)
                                              | Fast \<Rightarrow> (REG_FS_SCL_HCNT, REG_FS_SCL_LCNT));
          (high, d) = reg_read D high_reg d;
          (low, d) = reg_read D low_reg d;
          (hold, d) = reg_read D REG_SDA_HOLD d
      in (if 6 \<le> high \<and> 8 \<le> low \<and> high < 0xFFFF \<and> low < 0xFFFF
          then \<lparr>scl_high = high, scl_low = low, sda_hold = hold\<rparr> else computed_timing speed, d))"

text \<open>The pause after waking reads no register.\<close>

definition wake :: "'d mmio \<Rightarrow> 'd \<Rightarrow> 'd" where
  "wake D d =
     (case reg_read D REG_DEVIDLE_CTRL d of
        (state, d) \<Rightarrow>
          if state AND RESTORE_REQUIRED \<noteq> 0 \<or> state AND DEVIDLE \<noteq> 0
          then reg_write D REG_DEVIDLE_CTRL 0 (reg_write D REG_DEVIDLE_CTRL (DEVIDLE OR RESTORE_REQUIRED) d)
          else d)"

definition reset_core :: "'d mmio \<Rightarrow> 'd \<Rightarrow> bool \<times> 'd" where
  "reset_core D d =
     (let d = reg_write D REG_RESETS RESETS_DEASSERT (reg_write D REG_RESETS RESETS_ASSERT d)
      in wait_loop D False REG_COMP_TYPE (\<lambda>v. v = COMP_TYPE_SIGNATURE) (live_checks D RESET_US d) d)"

definition configure :: "'d mmio \<Rightarrow> timing \<Rightarrow> 'd i2c_master \<Rightarrow> bool \<times> 'd i2c_master" where
  "configure D timing m =
     (case disable D (ctl m) of
        (False, d) \<Rightarrow> (False, m\<lparr>ctl := d\<rparr>)
      | (True, d) \<Rightarrow>
          let d = reg_write D REG_INTR_MASK 0 d;
              (_, d) = reg_read D REG_CLR_INTR d;
              d = (case bus_speed m of
                     Standard \<Rightarrow> reg_write D REG_SS_SCL_LCNT (scl_low timing) (reg_write D REG_SS_SCL_HCNT (scl_high timing) d)
                   | Fast \<Rightarrow> reg_write D REG_FS_SCL_LCNT (scl_low timing) (reg_write D REG_FS_SCL_HCNT (scl_high timing) d));
              d = (if sda_hold timing \<noteq> 0 then reg_write D REG_SDA_HOLD (sda_hold timing) d else d);
              d = reg_write D REG_TX_TL 0 (reg_write D REG_RX_TL 0 d);
              d = reg_write D REG_CTL (CTL_MASTER OR CTL_SLAVE_DISABLE OR CTL_RESTARTEN OR
                    (control_bits (bus_speed m) AND CTL_SPEED_MASK)) d
          in (True, m\<lparr>ctl := d, target := - 1\<rparr>))"

text \<open>
  \<open>I2cMaster::new\<close>; \<open>enabled\<close> is the controller once the device's command register has been written.
\<close>

definition master_new :: "'d mmio \<Rightarrow> pci_device \<Rightarrow> speed \<Rightarrow> 'd \<Rightarrow> 'd i2c_master option" where
  "master_new D device speed enabled =
     (if bar0 device = 0 then None
      else let (firmware, d) = firmware_timing D speed enabled;
               d = wake D d
           in case reset_core D d of
                (False, d) \<Rightarrow> None
              | (True, d) \<Rightarrow>
                  (case configure D firmware \<lparr>bus_speed = speed, target = - 1, ctl = d\<rparr> of
                     (ok, m) \<Rightarrow> if ok then Some m else None))"

section \<open>Transfers\<close>

definition aim :: "'d mmio \<Rightarrow> u16 \<Rightarrow> 'd i2c_master \<Rightarrow> bool \<times> 'd i2c_master" where
  "aim D address m =
     (if target m = address then (True, m)
      else (case disable D (ctl m) of
              (False, d) \<Rightarrow> (False, m\<lparr>ctl := d\<rparr>)
            | (True, d) \<Rightarrow>
                (True, m\<lparr>ctl := reg_write D REG_I2C_EN I2C_ENABLE (reg_write D REG_TAR_ADD (ucast (address AND 0x03FF)) d),
                         target := address\<rparr>)))"

definition write_command :: "nat \<Rightarrow> nat \<Rightarrow> nat \<times> u8 \<Rightarrow> u32" where
  "write_command count wanted = (\<lambda>(index, byte).
     ucast byte OR (if index + 1 = count \<and> wanted = 0 then DATA_STOP else 0))"

definition write_commands :: "u8 list \<Rightarrow> nat \<Rightarrow> u32 list" where
  "write_commands out wanted = map (write_command (length out) wanted) (List.enumerate 0 out)"

fun push_commands :: "'d mmio \<Rightarrow> u32 list \<Rightarrow> 'd \<Rightarrow> bool \<times> 'd" where
  "push_commands D [] d = (True, d)"
| "push_commands D (c # cs) d = (case push D c d of (False, d) \<Rightarrow> (False, d) | (True, d) \<Rightarrow> push_commands D cs d)"

definition read_command :: "bool \<Rightarrow> nat \<Rightarrow> nat \<Rightarrow> u32" where
  "read_command restart wanted queued =
     DATA_COMMAND_RD OR (if queued = 0 \<and> restart then DATA_RESTART else 0)
       OR (if queued + 1 = wanted then DATA_STOP else 0)"

function queue_reads :: "'d mmio \<Rightarrow> bool \<Rightarrow> nat \<Rightarrow> nat \<Rightarrow> nat \<Rightarrow> 'd \<Rightarrow> nat \<times> 'd" where
  "queue_reads D restart wanted taken queued d =
     (if queued < wanted then
        if FIFO_DEPTH \<le> queued - taken then (queued, d)
        else (case reg_read D REG_I2C_STA d of
                (v, d) \<Rightarrow>
                  if v AND STATUS_TX_NOTFULL = 0 then (queued, d)
                  else queue_reads D restart wanted taken (queued + 1)
                         (reg_write D REG_DATA_CMD (read_command restart wanted queued) d))
      else (queued, d))"
  by auto
termination by (relation "measure (\<lambda>(D, restart, wanted, taken, queued, d). wanted - queued)") auto

function take_bytes :: "'d mmio \<Rightarrow> nat \<Rightarrow> u8 list \<Rightarrow> 'd \<Rightarrow> u8 list \<times> 'd" where
  "take_bytes D queued into d =
     (if length into < queued then
        (case reg_read D REG_I2C_STA d of
           (v, d) \<Rightarrow>
             if v AND STATUS_RX_NOTEMPTY = 0 then (into, d)
             else (case reg_read D REG_DATA_CMD d of
                     (v, d) \<Rightarrow> take_bytes D queued (into @ [ucast (v AND 0xFF)]) d))
      else (into, d))"
  by auto
termination by (relation "measure (\<lambda>(D, queued, into, d). queued - length into)") auto

declare queue_reads.simps [simp del] take_bytes.simps [simp del]

text \<open>
  One pass of the loop over the wanted bytes: what is queued and taken after it, or \<open>None\<close> for a failure;
  a pass that moved no byte waits for the controller.
\<close>

definition read_pass ::
    "'d mmio \<Rightarrow> bool \<Rightarrow> nat \<Rightarrow> nat \<Rightarrow> u8 list \<Rightarrow> 'd \<Rightarrow> (nat \<times> u8 list) option \<times> 'd" where
  "read_pass D restart wanted queued into d =
     (case queue_reads D restart wanted (length into) queued d of
        (queued, d) \<Rightarrow>
          (case aborted D d of
             (gone, d) \<Rightarrow>
               if gone then (None, d)
               else (case take_bytes D queued into d of
                       (bytes, d) \<Rightarrow>
                         if length into < length bytes then (Some (queued, bytes), d)
                         else (case settle D d of (ok, d) \<Rightarrow> (if ok then Some (queued, bytes) else None, d)))))"

partial_function (option) read_loop ::
    "'d mmio \<Rightarrow> bool \<Rightarrow> nat \<Rightarrow> nat \<Rightarrow> u8 list \<Rightarrow> 'd \<Rightarrow> (u8 list option \<times> 'd) option" where
  "read_loop D restart wanted queued into d =
     (if length into < wanted then
        (case read_pass D restart wanted queued into d of
           (None, d) \<Rightarrow> Some (None, d)
         | (Some (queued, bytes), d) \<Rightarrow> read_loop D restart wanted queued bytes d)
      else Some (Some into, d))"

declare read_loop.simps [code]

definition finish_transfer :: "'d mmio \<Rightarrow> nat \<Rightarrow> u8 list \<Rightarrow> 'd \<Rightarrow> u8 list option \<times> 'd" where
  "finish_transfer D wanted bytes d =
     (case (if wanted = 0 then drain_fifo D d else (True, d)) of
        (False, d) \<Rightarrow> (None, d)
      | (True, d) \<Rightarrow> (case aborted D d of (gone, d) \<Rightarrow> (if gone then None else Some bytes, d)))"

definition write_read ::
    "'d mmio \<Rightarrow> u16 \<Rightarrow> u8 list \<Rightarrow> nat \<Rightarrow> 'd i2c_master \<Rightarrow> (u8 list option \<times> 'd i2c_master) option" where
  "write_read D address out wanted m =
     (if out = [] \<and> wanted = 0 then Some (Some [], m)
      else (case aim D address m of
              (False, m) \<Rightarrow> Some (None, m)
            | (True, m) \<Rightarrow>
                (case push_commands D (write_commands out wanted) (snd (reg_read D REG_CLR_TX_ABORT (ctl m))) of
                   (False, d) \<Rightarrow> Some (None, m\<lparr>ctl := d\<rparr>)
                 | (True, d) \<Rightarrow>
                     (case read_loop D (out \<noteq> []) wanted 0 [] d of
                        None \<Rightarrow> None
                      | Some (None, d) \<Rightarrow> Some (None, m\<lparr>ctl := d\<rparr>)
                      | Some (Some bytes, d) \<Rightarrow>
                          (case finish_transfer D wanted bytes d of (r, d) \<Rightarrow> Some (r, m\<lparr>ctl := d\<rparr>))))))"

section \<open>The contract of the bus\<close>

text \<open>
  A bus is what a driver of a device on it works with: from an address, the bytes to write and the number of
  bytes to read, to what was read, if the transfer succeeded; \<open>None\<close> outside means that it does not return.
  What a driver relies on is that a read which succeeds has filled the whole buffer.
\<close>

type_synonym 'b bus = "u16 \<Rightarrow> u8 list \<Rightarrow> nat \<Rightarrow> 'b \<Rightarrow> (u8 list option \<times> 'b) option"

locale i2c_bus =
  fixes transfer :: "'b bus"
  assumes fills: "transfer a out n b = Some (Some bytes, b') \<Longrightarrow> length bytes = n"

lemma queue_reads_bound: "queued \<le> wanted \<Longrightarrow> fst (queue_reads D restart wanted taken queued d) \<le> wanted"
proof (induction "wanted - queued" arbitrary: queued d)
  case 0
  then show ?case by (simp add: queue_reads.simps)
next
  case (Suc n)
  then have "fst (queue_reads D restart wanted taken (queued + 1) d) \<le> wanted" for d by simp
  then show ?case using Suc.prems by (subst queue_reads.simps) (simp split: prod.split)
qed

lemma take_bytes_bound: "length into \<le> n \<Longrightarrow> length (fst (take_bytes D n into d)) \<le> n"
proof (induction "n - length into" arbitrary: into d)
  case 0
  then show ?case by (simp add: take_bytes.simps)
next
  case (Suc k)
  then have "length (fst (take_bytes D n (into @ [x]) d)) \<le> n" for x d by simp
  then show ?case using Suc.prems by (subst take_bytes.simps) (simp split: prod.split)
qed

lemma queue_reads_grows: "queued \<le> fst (queue_reads D restart wanted taken queued d)"
proof (induction "wanted - queued" arbitrary: queued d)
  case 0
  then show ?case by (simp add: queue_reads.simps)
next
  case (Suc n)
  then have "queued + 1 \<le> fst (queue_reads D restart wanted taken (queued + 1) d)" for d by simp
  then have "queued \<le> fst (queue_reads D restart wanted taken (queued + 1) d)" for d by (meson add_leE)
  then show ?case by (subst queue_reads.simps) (simp split: prod.split)
qed

lemma read_pass_bound:
  assumes "read_pass D restart wanted queued into d = (Some (q, bytes), d')" "length into \<le> queued" "queued \<le> wanted"
  shows "length bytes \<le> q \<and> q \<le> wanted"
proof -
  obtain q1 d1 where q: "queue_reads D restart wanted (length into) queued d = (q1, d1)" by (rule prod.exhaust)
  obtain gone d2 where a: "aborted D d1 = (gone, d2)" by (rule prod.exhaust)
  obtain b d3 where b: "take_bytes D q1 into d2 = (b, d3)" by (rule prod.exhaust)
  have "q1 \<le> wanted" "queued \<le> q1"
    using queue_reads_bound [OF assms(3), of D restart "length into" d] queue_reads_grows [of queued D restart wanted "length into" d] q by simp_all
  moreover from this have "length b \<le> q1" using take_bytes_bound [of into q1 D d2] assms(2) b by simp
  moreover have "q = q1 \<and> bytes = b" using assms(1) by (auto simp: read_pass_def q a b split: if_splits prod.splits)
  ultimately show ?thesis by simp
qed

lemma read_loop_fills:
  assumes "read_loop D restart wanted queued into d = Some (Some bytes, d')" "length into \<le> queued" "queued \<le> wanted"
  shows "length bytes = wanted"
proof -
  define P where "P w q i y \<longleftrightarrow> (length i \<le> q \<and> q \<le> w \<longrightarrow> (\<forall>bytes. fst y = Some bytes \<longrightarrow> length bytes = w))"
    for w q and i :: "u8 list" and y :: "u8 list option \<times> 'a"
  have "P wanted queued into (Some bytes, d')"
  proof (rule read_loop.raw_induct [where P = "\<lambda>D rs w q i d y. P w q i y", OF _ assms(1)])
    fix f and E :: "'a mmio" and rs w q i d y
    assume IH: "\<And>E rs w q i d y. f E rs w q i d = Some y \<Longrightarrow> P w q i y"
      and eq: "(if length i < w then
        (case read_pass E rs w q i d of
           (None, d) \<Rightarrow> Some (None, d)
         | (Some (q, b), d) \<Rightarrow> f E rs w q b d)
      else Some (Some i, d)) = Some (y :: u8 list option \<times> 'a)"
    obtain r d1 where p: "read_pass E rs w q i d = (r, d1)" by (rule prod.exhaust)
    show "P w q i y"
    proof (cases "length i < w")
      case True
      show ?thesis
      proof (cases r)
        case None
        from eq have "y = (None, d1)" unfolding p None if_P [OF True] by (simp only: prod.case option.case option.inject)
        then show ?thesis by (simp add: P_def)
      next
        case (Some x)
        obtain q1 b where x: "x = (q1, b)" by (rule prod.exhaust)
        from eq have "f E rs w q1 b d1 = Some y" unfolding p Some x if_P [OF True] by (simp only: prod.case option.case)
        from IH [OF this] have "P w q1 b y" .
        with read_pass_bound [OF p [unfolded Some x]] show ?thesis unfolding P_def by blast
      qed
    next
      case False
      from eq have "y = (Some i, d)" unfolding if_not_P [OF False] by (simp only: option.inject)
      with False show ?thesis by (auto simp: P_def)
    qed
  qed
  then show ?thesis using assms(2,3) by (simp add: P_def)
qed

interpretation master_bus: i2c_bus "write_read D" for D
proof
  fix a out n m bytes m'
  assume r: "write_read D a out n m = Some (Some bytes, m')"
  show "length bytes = n"
  proof (cases "out = [] \<and> n = 0")
    case True
    with r show ?thesis by (simp add: write_read_def)
  next
    case False
    obtain d d' where "read_loop D (out \<noteq> []) n 0 [] d = Some (Some bytes, d')"
      using r by (auto simp: write_read_def finish_transfer_def if_not_P [OF False] split: prod.splits bool.splits option.splits if_splits)
    from read_loop_fills [OF this] show ?thesis by simp
  qed
qed

section \<open>A controller that is watched\<close>

datatype access = Read u64 u32 | Write u64 u32

definition logged :: "'d mmio \<Rightarrow> ('d \<times> access list) mmio" where
  "logged D =
     \<lparr>reg_read = (\<lambda>r (d, l). case reg_read D r d of (v, d) \<Rightarrow> (v, d, l @ [Read r v])),
      reg_write = (\<lambda>r v (d, l). (reg_write D r v d, l @ [Write r v])),
      live_checks = (\<lambda>us (d, l). live_checks D us d)\<rparr>"

fun data_writes :: "access list \<Rightarrow> u32 list" where
  "data_writes [] = []"
| "data_writes (Write r v # l) = (if r = REG_DATA_CMD then v # data_writes l else data_writes l)"
| "data_writes (Read r v # l) = data_writes l"

fun data_reads :: "access list \<Rightarrow> u32 list" where
  "data_reads [] = []"
| "data_reads (Read r v # l) = (if r = REG_DATA_CMD then v # data_reads l else data_reads l)"
| "data_reads (Write r v # l) = data_reads l"

text \<open>The read commands that the controller has not yet been asked the byte of.\<close>

definition outstanding :: "access list \<Rightarrow> int" where
  "outstanding l = int (length (filter (\<lambda>v. v AND DATA_COMMAND_RD \<noteq> 0) (data_writes l))) - int (length (data_reads l))"

definition never_overrun :: "access list \<Rightarrow> bool" where
  "never_overrun l \<longleftrightarrow> (\<forall>n \<le> length l. outstanding (take n l) \<le> int FIFO_DEPTH)"

definition quiet :: "access list \<Rightarrow> bool" where
  "quiet l \<longleftrightarrow> data_writes l = [] \<and> data_reads l = []"

lemma data_append [simp]:
  "data_writes (k @ l) = data_writes k @ data_writes l" "data_reads (k @ l) = data_reads k @ data_reads l"
proof -
  show "data_writes (k @ l) = data_writes k @ data_writes l" by (induction k rule: data_writes.induct) simp_all
  show "data_reads (k @ l) = data_reads k @ data_reads l" by (induction k rule: data_reads.induct) simp_all
qed

lemma logged_simps [simp]:
  "reg_read (logged D) r (d, l) = (fst (reg_read D r d), snd (reg_read D r d), l @ [Read r (fst (reg_read D r d))])"
  "reg_write (logged D) r v (d, l) = (reg_write D r v d, l @ [Write r v])"
  "live_checks (logged D) us (d, l) = live_checks D us d"
  by (simp_all add: logged_def split: prod.split)

lemma quiet_append [simp]: "quiet (k @ l) \<longleftrightarrow> quiet k \<and> quiet l"
  by (auto simp: quiet_def)

lemma quiet_single [simp]: "quiet [Read r v] \<longleftrightarrow> r \<noteq> REG_DATA_CMD" "quiet [Write r v] \<longleftrightarrow> r \<noteq> REG_DATA_CMD" "quiet []"
  by (simp_all add: quiet_def)

lemmas register_numbers =
  REG_TAR_ADD_def REG_DATA_CMD_def REG_RAW_INTR_STAT_def REG_CLR_TX_ABORT_def REG_I2C_EN_def REG_I2C_STA_def REG_ENABLE_STATUS_def

text \<open>Operations that leave the data register alone.\<close>

definition discreet :: "('d \<times> access list \<Rightarrow> 'r \<times> 'd \<times> access list) \<Rightarrow> bool" where
  "discreet f \<longleftrightarrow> (\<forall>d l. \<exists>r d' k. f (d, l) = (r, d', l @ k) \<and> quiet k)"

lemma discreetD:
  assumes "discreet f" "f (d, l) = (r, s)"
  obtains d' k where "s = (d', l @ k)" "quiet k"
  using assms unfolding discreet_def by (metis Pair_inject)

lemma discreet_aborted: "discreet (aborted (logged D))"
  by (simp add: discreet_def aborted_def register_numbers)

lemma discreet_wait: "reg \<noteq> REG_DATA_CMD \<Longrightarrow> discreet (wait_loop (logged D) abortable reg ready n)"
proof (induction n)
  case 0
  then show ?case by (auto simp: discreet_def intro: exI [of _ False])
next
  case (Suc n)
  show ?case unfolding discreet_def
  proof (intro allI)
    fix d l
    obtain gone d1 k where a: "(if abortable then aborted (logged D) (d, l) else (False, d, l)) = (gone, d1, l @ k)" "quiet k"
      using discreet_aborted [of D] unfolding discreet_def by (cases abortable) (force, fastforce)
    show "\<exists>r d' k. wait_loop (logged D) abortable reg ready (Suc n) (d, l) = (r, d', l @ k) \<and> quiet k"
    proof (cases gone)
      case True
      then show ?thesis using a by (intro exI [of _ False] exI [of _ d1] exI [of _ k]) simp
    next
      case False
      obtain r d' k' where w: "wait_loop (logged D) abortable reg ready n
          (snd (reg_read D reg d1), (l @ k) @ [Read reg (fst (reg_read D reg d1))]) = (r, d', ((l @ k) @ [Read reg (fst (reg_read D reg d1))]) @ k')" "quiet k'"
        using Suc unfolding discreet_def by blast
      show ?thesis
        using a w False Suc.prems
        by (cases "ready (fst (reg_read D reg d1))") (auto simp: quiet_def intro: exI [of _ True])
    qed
  qed
qed

lemma discreet_steps: "discreet (disable (logged D))" "discreet (drain_fifo (logged D))" "discreet (settle (logged D))"
proof -
  show "discreet (disable (logged D))"
    unfolding discreet_def
  proof (intro allI)
    fix d l
    have "discreet (wait_loop (logged D) False REG_ENABLE_STATUS ready n)" for ready n
      by (rule discreet_wait) (simp add: register_numbers)
    then obtain r d' k where "wait_loop (logged D) False REG_ENABLE_STATUS (\<lambda>v. v AND I2C_ENABLE = 0)
        (live_checks D WAIT_US (reg_write D REG_I2C_EN 0 d)) (reg_write D REG_I2C_EN 0 d, l @ [Write REG_I2C_EN 0]) =
        (r, d', (l @ [Write REG_I2C_EN 0]) @ k)" "quiet k"
      unfolding discreet_def by blast
    then show "\<exists>r d' k. disable (logged D) (d, l) = (r, d', l @ k) \<and> quiet k"
      by (simp add: disable_def Let_def register_numbers quiet_def)
  qed
  have w: "discreet (\<lambda>s. wait_loop (logged D) True REG_I2C_STA ready (live_checks (logged D) WAIT_US s) s)" for ready
    using discreet_wait [of REG_I2C_STA D True ready] unfolding discreet_def by (simp add: register_numbers)
  show "discreet (drain_fifo (logged D))" "discreet (settle (logged D))"
    using w unfolding drain_fifo_def settle_def by simp_all
qed

lemma push_effect:
  assumes "push (logged D) c (d, l) = (ok, s)"
  obtains d' k where "s = (d', l @ k @ (if ok then [Write REG_DATA_CMD c] else []))" "quiet k"
proof -
  have "discreet (wait_loop (logged D) True REG_I2C_STA (\<lambda>v. v AND STATUS_TX_NOTFULL \<noteq> 0) (live_checks D WAIT_US d))"
    by (rule discreet_wait) (simp add: register_numbers)
  then obtain r d' k where "wait_loop (logged D) True REG_I2C_STA (\<lambda>v. v AND STATUS_TX_NOTFULL \<noteq> 0) (live_checks D WAIT_US d) (d, l) =
      (r, d', l @ k)" "quiet k"
    unfolding discreet_def by blast
  then show thesis using assms that by (cases r) (auto simp: push_def)
qed

section \<open>What a transfer does to the data register\<close>

text \<open>The state of a transfer's log: the commands issued and the bytes taken since it began.\<close>

definition transferring :: "u32 list \<Rightarrow> bool \<Rightarrow> nat \<Rightarrow> nat \<Rightarrow> u8 list \<Rightarrow> access list \<Rightarrow> bool" where
  "transferring sent restart wanted queued into l \<longleftrightarrow>
     data_writes l = sent @ map (read_command restart wanted) [0..<queued] \<and>
     map (\<lambda>v. ucast (v AND 0xFF)) (data_reads l) = into \<and> length into \<le> queued \<and> queued \<le> wanted \<and> never_overrun l"

definition plain :: "u32 list \<Rightarrow> bool" where
  "plain sent \<longleftrightarrow> list_all (\<lambda>v. v AND DATA_COMMAND_RD = 0) sent"

lemma read_command_reads: "read_command restart wanted queued AND DATA_COMMAND_RD \<noteq> 0"
  by (simp add: read_command_def DATA_COMMAND_RD_def DATA_RESTART_def DATA_STOP_def)

lemma outstanding_transferring:
  assumes "plain sent" "data_writes l = sent @ map (read_command restart wanted) [0..<queued]"
    "map f (data_reads l) = into"
  shows "outstanding l = int queued - int (length into)"
proof -
  have "filter (\<lambda>v. v AND DATA_COMMAND_RD \<noteq> 0) sent = []"
    using assms(1) by (simp add: plain_def list_all_iff filter_empty_conv)
  moreover have "filter (\<lambda>v. v AND DATA_COMMAND_RD \<noteq> 0) (map (read_command restart wanted) [0..<queued]) =
      map (read_command restart wanted) [0..<queued]"
    by (simp add: filter_id_conv read_command_reads)
  moreover have "length (data_reads l) = length into" using assms(3) by auto
  ultimately show ?thesis by (simp add: outstanding_def assms(2))
qed

lemma never_overrun_snoc: "never_overrun (l @ [e]) \<longleftrightarrow> never_overrun l \<and> outstanding (l @ [e]) \<le> int FIFO_DEPTH"
proof -
  have "(\<forall>n \<le> length (l @ [e]). P (take n (l @ [e]))) \<longleftrightarrow> (\<forall>n \<le> length l. P (take n l)) \<and> P (l @ [e])" for P
    by (auto simp: le_Suc_eq all_conj_distrib)
  then show ?thesis unfolding never_overrun_def .
qed

lemma quiet_outstanding: "quiet k \<Longrightarrow> outstanding (l @ k) = outstanding l"
  by (simp add: outstanding_def quiet_def)

lemma never_overrun_last: "never_overrun l \<Longrightarrow> outstanding l \<le> int FIFO_DEPTH"
  unfolding never_overrun_def by (metis order_refl take_all)

lemma never_overrun_quiet: "never_overrun l \<Longrightarrow> quiet k \<Longrightarrow> never_overrun (l @ k)"
proof (induction k rule: rev_induct)
  case (snoc e k)
  then have "never_overrun (l @ k)" "outstanding (l @ k @ [e]) = outstanding l" by (simp_all add: quiet_outstanding)
  then show ?case using never_overrun_snoc [of "l @ k" e] snoc.prems never_overrun_last by fastforce
qed simp

lemma transferring_quiet:
  "transferring sent restart wanted queued into l \<Longrightarrow> quiet k \<Longrightarrow> transferring sent restart wanted queued into (l @ k)"
  by (simp add: transferring_def never_overrun_quiet) (simp add: quiet_def)

lemma transferring_queue:
  assumes "transferring sent restart wanted queued into l" "plain sent" "queued < wanted" "queued - length into < FIFO_DEPTH"
  shows "transferring sent restart wanted (queued + 1) into (l @ [Write REG_DATA_CMD (read_command restart wanted queued)])"
proof -
  let ?l = "l @ [Write REG_DATA_CMD (read_command restart wanted queued)]"
  have w: "data_writes ?l = sent @ map (read_command restart wanted) [0..<queued + 1]" "data_reads ?l = data_reads l"
    using assms(1) by (simp_all add: transferring_def)
  have "outstanding ?l = int (queued + 1) - int (length into)"
    using assms(1,2) w by (intro outstanding_transferring) (auto simp: transferring_def)
  then have "never_overrun ?l" using assms by (auto simp: never_overrun_snoc transferring_def)
  then show ?thesis using assms w by (simp add: transferring_def)
qed

lemma transferring_take:
  assumes "transferring sent restart wanted queued into l" "plain sent" "length into < queued"
  shows "transferring sent restart wanted queued (into @ [ucast (v AND 0xFF)]) (l @ [Read REG_DATA_CMD v])"
proof -
  let ?l = "l @ [Read REG_DATA_CMD v]"
  have "outstanding ?l = outstanding l - 1" by (simp add: outstanding_def)
  then have "never_overrun ?l"
    using assms(1) never_overrun_last by (force simp: never_overrun_snoc transferring_def)
  then show ?thesis using assms by (simp add: transferring_def)
qed

lemma queue_reads_effect:
  assumes "queue_reads (logged D) restart wanted (length into) queued (d, l) = (queued', s)"
    and "transferring sent restart wanted queued into l" "plain sent"
  shows "\<exists>d' k. s = (d', l @ k) \<and> transferring sent restart wanted queued' into (l @ k)"
  using assms
proof (induction "wanted - queued" arbitrary: queued d l)
  case 0
  then show ?case by (auto simp: queue_reads.simps [of _ _ _ _ queued])
next
  case (Suc n)
  let ?v = "fst (reg_read D REG_I2C_STA d)" and ?d = "snd (reg_read D REG_I2C_STA d)"
  let ?l = "l @ [Read REG_I2C_STA (fst (reg_read D REG_I2C_STA d))]"
  have lt: "queued < wanted" using Suc.hyps(2) by simp
  have t: "transferring sent restart wanted queued into ?l"
    using Suc.prems by (intro transferring_quiet) (simp_all add: register_numbers)
  consider (full) "FIFO_DEPTH \<le> queued - length into" | (wait) "\<not> FIFO_DEPTH \<le> queued - length into" "?v AND STATUS_TX_NOTFULL = 0"
    | (go) "\<not> FIFO_DEPTH \<le> queued - length into" "?v AND STATUS_TX_NOTFULL \<noteq> 0" by blast
  then show ?case
  proof cases
    case full
    then show ?thesis using Suc.prems lt by (auto simp: queue_reads.simps [of _ _ _ _ queued])
  next
    case wait
    then show ?thesis using Suc.prems lt t by (auto simp: queue_reads.simps [of _ _ _ _ queued])
  next
    case go
    let ?c = "read_command restart wanted queued"
    have "queue_reads (logged D) restart wanted (length into) (queued + 1) (reg_write D REG_DATA_CMD ?c ?d, ?l @ [Write REG_DATA_CMD ?c]) = (queued', s)"
      using Suc.prems(1) lt go by (simp add: queue_reads.simps [of _ _ _ _ queued])
    moreover have "transferring sent restart wanted (queued + 1) into (?l @ [Write REG_DATA_CMD ?c])"
      using t Suc.prems(3) lt go by (intro transferring_queue) auto
    moreover have "n = wanted - (queued + 1)" using Suc.hyps(2) by simp
    ultimately have "\<exists>d' k. s = (d', (?l @ [Write REG_DATA_CMD ?c]) @ k) \<and>
        transferring sent restart wanted queued' into ((?l @ [Write REG_DATA_CMD ?c]) @ k)"
      using Suc.hyps(1) Suc.prems(3) by blast
    then show ?thesis by (metis append.assoc)
  qed
qed

lemma take_bytes_effect:
  assumes "take_bytes (logged D) queued into (d, l) = (into', s)"
    and "transferring sent restart wanted queued into l" "plain sent"
  shows "\<exists>d' k. s = (d', l @ k) \<and> transferring sent restart wanted queued into' (l @ k)"
  using assms
proof (induction "queued - length into" arbitrary: into d l)
  case 0
  then show ?case by (auto simp: take_bytes.simps [of _ _ into])
next
  case (Suc n)
  let ?v = "fst (reg_read D REG_I2C_STA d)" and ?d = "snd (reg_read D REG_I2C_STA d)"
  let ?l = "l @ [Read REG_I2C_STA (fst (reg_read D REG_I2C_STA d))]"
  let ?b = "fst (reg_read D REG_DATA_CMD ?d)" and ?d' = "snd (reg_read D REG_DATA_CMD ?d)"
  have lt: "length into < queued" using Suc.hyps(2) by simp
  have t: "transferring sent restart wanted queued into ?l"
    using Suc.prems by (intro transferring_quiet) (simp_all add: register_numbers)
  show ?case
  proof (cases "?v AND STATUS_RX_NOTEMPTY = 0")
    case True
    then show ?thesis using Suc.prems lt t by (auto simp: take_bytes.simps [of _ _ into])
  next
    case False
    have "take_bytes (logged D) queued (into @ [ucast (?b AND 0xFF)]) (?d', ?l @ [Read REG_DATA_CMD ?b]) = (into', s)"
      using Suc.prems(1) lt False by (simp add: take_bytes.simps [of _ _ into])
    moreover have "transferring sent restart wanted queued (into @ [ucast (?b AND 0xFF)]) (?l @ [Read REG_DATA_CMD ?b])"
      using t Suc.prems(3) lt by (intro transferring_take)
    moreover have "n = queued - length (into @ [ucast (?b AND 0xFF)])" using Suc.hyps(2) by simp
    ultimately have "\<exists>d' k. s = (d', (?l @ [Read REG_DATA_CMD ?b]) @ k) \<and>
        transferring sent restart wanted queued into' ((?l @ [Read REG_DATA_CMD ?b]) @ k)"
      using Suc.hyps(1) Suc.prems(3) by blast
    then show ?thesis by (metis append.assoc)
  qed
qed

lemma read_pass_effect:
  assumes "read_pass (logged D) restart wanted queued into (d, l) = (r, s)"
    and "transferring sent restart wanted queued into l" "plain sent"
  shows "\<exists>d' k queued' into'. s = (d', l @ k) \<and> transferring sent restart wanted queued' into' (l @ k) \<and>
    (r = None \<or> r = Some (queued', into'))"
proof -
  obtain q s1 where q: "queue_reads (logged D) restart wanted (length into) queued (d, l) = (q, s1)" by (rule prod.exhaust)
  from queue_reads_effect [OF q assms(2,3)] obtain d1 k1 where
    s1: "s1 = (d1, l @ k1)" and t1: "transferring sent restart wanted q into (l @ k1)" by blast
  obtain gone d2 k2 where a: "aborted (logged D) (d1, l @ k1) = (gone, d2, (l @ k1) @ k2)" and k2: "quiet k2"
    using discreet_aborted [of D] unfolding discreet_def by blast
  have t2: "transferring sent restart wanted q into ((l @ k1) @ k2)" by (rule transferring_quiet [OF t1 k2])
  obtain b s3 where b: "take_bytes (logged D) q into (d2, (l @ k1) @ k2) = (b, s3)" by (rule prod.exhaust)
  from take_bytes_effect [OF b t2 assms(3)] obtain d3 k3 where
    s3: "s3 = (d3, ((l @ k1) @ k2) @ k3)" and t3: "transferring sent restart wanted q b (((l @ k1) @ k2) @ k3)" by blast
  obtain ok d4 k4 where c: "settle (logged D) (d3, ((l @ k1) @ k2) @ k3) = (ok, d4, (((l @ k1) @ k2) @ k3) @ k4)" and k4: "quiet k4"
    using discreet_steps(3) [of D] unfolding discreet_def by blast
  have t4: "transferring sent restart wanted q b ((((l @ k1) @ k2) @ k3) @ k4)" by (rule transferring_quiet [OF t3 k4])
  show ?thesis
  proof (cases gone)
    case True
    then have "r = None" "s = (d2, l @ k1 @ k2)" using assms(1) by (simp_all add: read_pass_def q s1 a)
    then show ?thesis using t2 by (intro exI [of _ d2] exI [of _ "k1 @ k2"] exI [of _ q] exI [of _ into]) simp
  next
    case False
    show ?thesis
    proof (cases "length into < length b")
      case True
      then have "r = Some (q, b)" "s = (d3, l @ k1 @ k2 @ k3)"
        using assms(1) False b by (simp_all add: read_pass_def q s1 a s3)
      then show ?thesis using t3 by (intro exI [of _ d3] exI [of _ "k1 @ k2 @ k3"] exI [of _ q] exI [of _ b]) simp
    next
      case stuck: False
      then have "r = (if ok then Some (q, b) else None)" "s = (d4, l @ k1 @ k2 @ k3 @ k4)"
        using assms(1) False b c by (simp_all add: read_pass_def q s1 a s3)
      then show ?thesis using t4 by (intro exI [of _ d4] exI [of _ "k1 @ k2 @ k3 @ k4"] exI [of _ q] exI [of _ b]) simp
    qed
  qed
qed

lemma read_loop_effect:
  assumes "read_loop (logged D) restart wanted queued into (d, l) = Some (r, s)"
    and "transferring sent restart wanted queued into l" "plain sent"
  shows "\<exists>d' k queued' into'. s = (d', l @ k) \<and> transferring sent restart wanted queued' into' (l @ k) \<and>
    (\<forall>bytes. r = Some bytes \<longrightarrow> bytes = into' \<and> length into' = wanted)"
proof -
  define P where "P E rs w q i x y \<longleftrightarrow> (\<forall>d l. E = logged D \<and> rs = restart \<and> w = wanted \<and> x = (d, l) \<and>
      transferring sent restart wanted q i l \<longrightarrow>
      (\<exists>d' k q' i'. snd y = (d', l @ k) \<and> transferring sent restart wanted q' i' (l @ k) \<and>
        (\<forall>bytes. fst y = Some bytes \<longrightarrow> bytes = i' \<and> length i' = wanted)))"
    for E rs w q i and x :: "'a \<times> access list" and y :: "u8 list option \<times> 'a \<times> access list"
  have "P (logged D) restart wanted queued into (d, l) (r, s)"
  proof (rule read_loop.raw_induct [where P = P, OF _ assms(1)])
    fix f and E :: "('a \<times> access list) mmio" and rs w q i x y
    assume IH: "\<And>E rs w q i x y. f E rs w q i x = Some y \<Longrightarrow> P E rs w q i x y"
      and eq: "(if length i < w then
        (case read_pass E rs w q i x of
           (None, x) \<Rightarrow> Some (None, x)
         | (Some (q, b), x) \<Rightarrow> f E rs w q b x)
      else Some (Some i, x)) = Some y"
    show "P E rs w q i x y" unfolding P_def
    proof (intro allI impI, elim conjE)
      fix d l
      assume h: "E = logged D" "rs = restart" "w = wanted" "x = (d, l)" and t: "transferring sent restart wanted q i l"
      obtain r1 s1 where p: "read_pass (logged D) restart wanted q i (d, l) = (r1, s1)" by (rule prod.exhaust)
      from read_pass_effect [OF p t assms(3)] obtain d1 k1 q1 i1 where
        e: "s1 = (d1, l @ k1)" "transferring sent restart wanted q1 i1 (l @ k1)" "r1 = None \<or> r1 = Some (q1, i1)" by blast
      consider (ended) "\<not> length i < wanted" "y = (Some i, d, l)" | (failed) "y = (None, d1, l @ k1)"
        | (again) "f (logged D) restart wanted q1 i1 (d1, l @ k1) = Some y"
      proof -
        show thesis
        proof (cases "length i < wanted")
          case True
          then show thesis using e(3) eq that(2,3) unfolding h p e(1) by (elim disjE) simp_all
        next
          case False
          then show thesis using eq that(1) unfolding h by simp
        qed
      qed
      then show "\<exists>d' k q' i'. snd y = (d', l @ k) \<and> transferring sent restart wanted q' i' (l @ k) \<and>
        (\<forall>bytes. fst y = Some bytes \<longrightarrow> bytes = i' \<and> length i' = wanted)"
      proof cases
        case ended
        then have "length i = wanted" using t by (auto simp: transferring_def)
        with ended t show ?thesis by (intro exI [of _ d] exI [of _ "[]"] exI [of _ q] exI [of _ i]) simp
      next
        case failed
        with e(2) show ?thesis by (intro exI [of _ d1] exI [of _ k1] exI [of _ q1] exI [of _ i1]) simp
      next
        case again
        with IH e(2) obtain d' k q' i' where "snd y = (d', (l @ k1) @ k)" "transferring sent restart wanted q' i' ((l @ k1) @ k)"
          "\<forall>bytes. fst y = Some bytes \<longrightarrow> bytes = i' \<and> length i' = wanted"
          unfolding P_def by blast
        then show ?thesis by (intro exI [of _ d'] exI [of _ "k1 @ k"] exI [of _ q'] exI [of _ i']) auto
      qed
    qed
  qed
  then show ?thesis using assms(2) by (simp add: P_def)
qed

lemma transferring_push:
  assumes "transferring sent restart wanted 0 [] l" "plain (sent @ [c])"
  shows "transferring (sent @ [c]) restart wanted 0 [] (l @ [Write REG_DATA_CMD c])"
proof -
  have "outstanding (l @ [Write REG_DATA_CMD c]) = int 0 - int (length [])"
    using assms by (intro outstanding_transferring [where restart = restart and wanted = wanted]) (auto simp: transferring_def)
  with assms(1) show ?thesis by (simp add: transferring_def never_overrun_snoc)
qed

lemma push_commands_effect:
  assumes "push_commands (logged D) cs (d, l) = (ok, s)" "transferring sent restart wanted 0 [] l" "plain (sent @ cs)"
  shows "\<exists>d' k n. s = (d', l @ k) \<and> transferring (sent @ take n cs) restart wanted 0 [] (l @ k) \<and> (ok \<longrightarrow> n = length cs)"
  using assms
proof (induction cs arbitrary: d l sent)
  case Nil
  then show ?case by auto
next
  case (Cons c cs)
  obtain ok1 s1 where p: "push (logged D) c (d, l) = (ok1, s1)" by (rule prod.exhaust)
  from push_effect [OF p] obtain d1 k1 where
    s1: "s1 = (d1, l @ k1 @ (if ok1 then [Write REG_DATA_CMD c] else []))" and k1: "quiet k1" by blast
  have t1: "transferring sent restart wanted 0 [] (l @ k1)" using Cons.prems(2) k1 by (rule transferring_quiet)
  show ?case
  proof (cases ok1)
    case False
    with Cons.prems(1) p s1 t1 show ?thesis by (intro exI [of _ d1] exI [of _ k1] exI [of _ 0]) simp
  next
    case True
    let ?l = "(l @ k1) @ [Write REG_DATA_CMD c]"
    have "transferring (sent @ [c]) restart wanted 0 [] ?l"
      using t1 Cons.prems(3) by (intro transferring_push) (simp_all add: plain_def)
    moreover have "push_commands (logged D) cs (d1, ?l) = (ok, s)" using Cons.prems(1) p s1 True by simp
    moreover have "plain ((sent @ [c]) @ cs)" using Cons.prems(3) by simp
    ultimately obtain d' k n where "s = (d', ?l @ k)" "transferring ((sent @ [c]) @ take n cs) restart wanted 0 [] (?l @ k)"
      "ok \<longrightarrow> n = length cs" using Cons.IH by blast
    then show ?thesis
      by (intro exI [of _ d'] exI [of _ "k1 @ [Write REG_DATA_CMD c] @ k"] exI [of _ "Suc n"]) simp
  qed
qed

lemma plain_write_commands: "plain (write_commands out wanted)"
proof -
  have "(ucast (b :: u8) :: u32) AND 0x100 = 0" for b
  proof (rule bit_word_eqI)
    fix n
    have e: "(0x100 :: u32) = shl1 8" by (simp add: shl1_def)
    have "\<not> bit b 8" using bit_imp_le_length [of b 8] by auto
    then show "bit ((ucast b :: u32) AND 0x100) n \<longleftrightarrow> bit (0 :: u32) n" unfolding e by (auto simp: bit_simps)
  qed
  then have "write_command count wanted x AND DATA_COMMAND_RD = 0" for count x
    by (cases x) (simp add: write_command_def DATA_COMMAND_RD_def DATA_STOP_def bit.conj_disj_distrib2)
  then show ?thesis by (simp add: plain_def write_commands_def list_all_iff)
qed

text \<open>The whole of a transfer, whatever becomes of it.\<close>

definition transfer_commands_of :: "u8 list \<Rightarrow> nat \<Rightarrow> u32 list" where
  "transfer_commands_of out wanted =
     write_commands out wanted @ map (read_command (out \<noteq> []) wanted) [0..<wanted]"

lemma transferring_prefix:
  assumes "transferring (take n (write_commands out wanted)) (out \<noteq> []) wanted queued into l"
    and "queued = 0 \<or> n = length (write_commands out wanted)"
  shows "\<exists>n. data_writes l = take n (transfer_commands_of out wanted)"
proof -
  have "data_writes l = take (min n (length (write_commands out wanted)) + queued) (transfer_commands_of out wanted)"
    using assms by (auto simp: transferring_def transfer_commands_of_def take_map min_def)
  then show ?thesis ..
qed

lemma aim_effect:
  assumes "aim (logged D) address m = (ok, m')" "ctl m = (d, l)"
  shows "\<exists>d' k. ctl m' = (d', l @ k) \<and> quiet k"
proof -
  obtain r d1 k1 where "disable (logged D) (d, l) = (r, d1, l @ k1)" "quiet k1"
    using discreet_steps(1) [of D] unfolding discreet_def by blast
  then show ?thesis
    using assms by (cases r) (auto simp: aim_def register_numbers quiet_def split: if_splits)
qed

lemma finish_effect:
  obtains d' k where "finish_transfer (logged D) wanted bytes (d, l) = (fst (finish_transfer (logged D) wanted bytes (d, l)), d', l @ k)" "quiet k"
proof -
  obtain r d1 k1 where f: "(if wanted = 0 then drain_fifo (logged D) (d, l) else (True, d, l)) = (r, d1, l @ k1)" and k1: "quiet k1"
    using discreet_steps(2) [of D] unfolding discreet_def by (cases "wanted = 0") (simp, blast, simp)
  obtain g d2 k2 where a: "aborted (logged D) (d1, l @ k1) = (g, d2, (l @ k1) @ k2)" and k2: "quiet k2"
    using discreet_aborted [of D] unfolding discreet_def by blast
  show thesis
  proof (cases r)
    case True
    then show thesis using f a k1 k2 by (intro that [of d2 "k1 @ k2"]) (simp_all add: finish_transfer_def)
  next
    case False
    then show thesis using f k1 by (intro that [of d1 k1]) (simp_all add: finish_transfer_def)
  qed
qed

definition transfer_log :: "u8 list \<Rightarrow> nat \<Rightarrow> u8 list option \<Rightarrow> access list \<Rightarrow> bool" where
  "transfer_log out wanted r l \<longleftrightarrow>
     never_overrun l \<and> (\<exists>n. data_writes l = take n (transfer_commands_of out wanted)) \<and>
     (case r of
        None \<Rightarrow> True
      | Some bytes \<Rightarrow> data_writes l = transfer_commands_of out wanted \<and>
          bytes = map (\<lambda>v. ucast (v AND 0xFF)) (data_reads l) \<and> length bytes = wanted)"

lemma transfer_log_None:
  assumes "transferring (take n (write_commands out wanted)) (out \<noteq> []) wanted queued into l"
    and "queued = 0 \<or> n = length (write_commands out wanted)"
  shows "transfer_log out wanted None l"
proof -
  have "never_overrun l" using assms(1) by (simp add: transferring_def)
  then show ?thesis using transferring_prefix [OF assms] by (simp add: transfer_log_def)
qed

lemma transfer_log_Some:
  assumes "transferring (write_commands out wanted) (out \<noteq> []) wanted queued into l" "length into = wanted"
  shows "transfer_log out wanted (if gone then None else Some into) l"
proof -
  have t: "transferring (take (length (write_commands out wanted)) (write_commands out wanted)) (out \<noteq> []) wanted queued into l"
    using assms(1) by simp
  have "\<exists>n. data_writes l = take n (transfer_commands_of out wanted)" by (rule transferring_prefix [OF t]) simp
  then show ?thesis using assms by (auto simp: transfer_log_def transferring_def transfer_commands_of_def)
qed

lemma write_read_effect:
  assumes "write_read (logged D) address out wanted m = Some (r, m')" "ctl m = (d, [])"
  shows "transfer_log out wanted r (snd (ctl m'))"
proof -
  let ?wc = "write_commands out wanted" and ?rs = "out \<noteq> []"
  have t00: "transferring (take 0 ?wc) ?rs wanted 0 [] []"
    by (simp add: transferring_def never_overrun_def outstanding_def)
  show ?thesis
  proof (cases "out = [] \<and> wanted = 0")
    case True
    with assms have "r = Some []" "m' = m" by (simp_all add: write_read_def)
    then show ?thesis using True assms(2)
      by (simp add: transfer_log_def never_overrun_def outstanding_def transfer_commands_of_def write_commands_def)
  next
    case False
    obtain ok1 m1 where a: "aim (logged D) address m = (ok1, m1)" by (rule prod.exhaust)
    from aim_effect [OF a assms(2)] obtain d1 k1 where c1: "ctl m1 = (d1, k1)" and k1: "quiet k1" by auto
    have t1: "transferring (take 0 ?wc) ?rs wanted 0 [] k1" using transferring_quiet [OF t00 k1] by simp
    let ?l2 = "k1 @ [Read REG_CLR_TX_ABORT (fst (reg_read D REG_CLR_TX_ABORT d1))]" and ?d2 = "snd (reg_read D REG_CLR_TX_ABORT d1)"
    have t2: "transferring [] ?rs wanted 0 [] ?l2"
      using transferring_quiet [OF t1, of "[Read REG_CLR_TX_ABORT (fst (reg_read D REG_CLR_TX_ABORT d1))]"]
      by (simp add: register_numbers)
    obtain ok3 s3 where p: "push_commands (logged D) ?wc (?d2, ?l2) = (ok3, s3)" by (rule prod.exhaust)
    from push_commands_effect [OF p t2] plain_write_commands obtain d3 k3 n where s3: "s3 = (d3, ?l2 @ k3)"
      and t3: "transferring (take n ?wc) ?rs wanted 0 [] (?l2 @ k3)" and n: "ok3 \<longrightarrow> n = length ?wc" by auto
    note w = assms(1) [unfolded write_read_def if_not_P [OF False] a prod.case]
    show ?thesis
    proof (cases "ok1 \<and> ok3")
      case False
      then have "r = None" "snd (ctl m') = k1 \<or> snd (ctl m') = ?l2 @ k3"
        using w p s3 c1 by (auto split: bool.splits)
      then show ?thesis using transfer_log_None [OF t1] transfer_log_None [OF t3] by auto
    next
      case True
      let ?r = "read_loop (logged D) ?rs wanted 0 [] (d3, ?l2 @ k3)"
      have t3': "transferring ?wc ?rs wanted 0 [] (?l2 @ k3)" using t3 n True by simp
      obtain r4 s4 where r4: "?r = Some (r4, s4)" using w True p s3 c1 by (auto split: option.splits)
      from read_loop_effect [OF r4 t3' plain_write_commands] obtain d4 k4 q i where s4: "s4 = (d4, (?l2 @ k3) @ k4)"
        and t4: "transferring ?wc ?rs wanted q i ((?l2 @ k3) @ k4)"
        and i: "\<forall>bytes. r4 = Some bytes \<longrightarrow> bytes = i \<and> length i = wanted" by blast
      show ?thesis
      proof (cases r4)
        case None
        then have "r = None" "snd (ctl m') = (?l2 @ k3) @ k4" using w True p s3 c1 r4 s4 by auto
        then show ?thesis using transfer_log_None [of "length ?wc" out wanted q i] t4 by simp
      next
        case (Some bytes)
        obtain d5 k5 where f: "finish_transfer (logged D) wanted bytes s4 =
            (fst (finish_transfer (logged D) wanted bytes s4), d5, ((?l2 @ k3) @ k4) @ k5)" and k5: "quiet k5"
          unfolding s4 by (rule finish_effect)
        have "snd (ctl m') = ((?l2 @ k3) @ k4) @ k5" "r = fst (finish_transfer (logged D) wanted bytes s4)"
          using w True p s3 c1 r4 Some f by (auto split: prod.splits)
        moreover have "r = None \<or> r = Some bytes"
          using calculation(2) by (auto simp: finish_transfer_def split: prod.splits bool.splits)
        ultimately show ?thesis
          using transfer_log_Some [OF transferring_quiet [OF t4 k5], of "r = None"] i Some by auto
      qed
    qed
  qed
qed

section \<open>Properties\<close>

text \<open>
  C26. The receive FIFO is never asked for more than it holds: at every moment of a transfer, successful or
  not, at most sixteen of the read commands issued have not had their byte taken.
\<close>

theorem fifo_never_overrun:
  assumes "write_read (logged D) address out wanted m = Some (r, m')" "snd (ctl m) = []"
  shows "n \<le> length (snd (ctl m')) \<Longrightarrow> outstanding (take n (snd (ctl m'))) \<le> 16"
proof -
  assume n: "n \<le> length (snd (ctl m'))"
  have "ctl m = (fst (ctl m), [])" using assms(2) by (cases "ctl m") simp
  from write_read_effect [OF assms(1) this] n show ?thesis
    by (auto simp: transfer_log_def never_overrun_def FIFO_DEPTH_def)
qed


text \<open>A controller that answers every read with the next of a row of bytes and accepts every write.\<close>

definition echo :: "u8 list mmio" where
  "echo =
     \<lparr>reg_read = (\<lambda>r d. if r = REG_DATA_CMD then (ucast (hd d), tl d)
         else (if r = REG_I2C_STA then 0x0E else 0, d)),
      reg_write = (\<lambda>r v d. d), live_checks = (\<lambda>us d. 3)\<rparr>"

definition echo_master :: "(u8 list \<times> access list) i2c_master" where
  "echo_master = \<lparr>bus_speed = Fast, target = - 1, ctl = ([0x1E, 0x00, 0x42], [])\<rparr>"

lemmas echo_run = register_numbers echo_def echo_master_def aim_def disable_def push_def aborted_def settle_def Let_def
  I2C_ENABLE_def STATUS_TX_NOTFULL_def STATUS_RX_NOTEMPTY_def INTR_TX_ABRT_def FIFO_DEPTH_def numeral_3_eq_3
  write_commands_def write_command_def DATA_STOP_def DATA_RESTART_def DATA_COMMAND_RD_def read_command_def

lemma echo_transfer:
  "\<exists>m'. write_read (logged echo) 0x15 [0x01, 0x00] 3 echo_master = Some (Some [0x1E, 0x00, 0x42], m')"
  by (simp add: write_read_def echo_run read_loop.simps read_pass_def queue_reads.simps take_bytes.simps finish_transfer_def)

lemma fifo_never_overrun_witness: "outstanding (take 9 (snd (ctl (snd (the
    (write_read (logged echo) 0x15 [0x01, 0x00] 3 echo_master)))))) \<le> 16"
proof -
  obtain m' where r: "write_read (logged echo) 0x15 [0x01, 0x00] 3 echo_master = Some (Some [0x1E, 0x00, 0x42], m')"
    using echo_transfer by blast
  have "9 \<le> length (snd (ctl m'))"
    using r by (auto simp: write_read_def echo_run read_loop.simps read_pass_def queue_reads.simps take_bytes.simps finish_transfer_def)
  moreover have "snd (ctl echo_master) = []" by (simp add: echo_master_def)
  ultimately show ?thesis using fifo_never_overrun [OF r] r by simp
qed


text \<open>
  A bus that stays silent.  The wait of a pass ends as soon as the transmit FIFO has room, so a device that
  holds the clock - nothing received, nothing aborted, room to transmit - keeps the read looping: the
  five-millisecond deadline is a new one in every pass and never the reason to give up.
\<close>

definition silent :: "'d mmio \<Rightarrow> 'd \<Rightarrow> bool" where
  "silent D d \<longleftrightarrow>
     (\<forall>r. snd (reg_read D r d) = d) \<and> (\<forall>r v. reg_write D r v d = d) \<and>
     fst (reg_read D REG_RAW_INTR_STAT d) AND INTR_TX_ABRT = 0 \<and>
     fst (reg_read D REG_I2C_STA d) AND STATUS_RX_NOTEMPTY = 0 \<and>
     fst (reg_read D REG_I2C_STA d) AND STATUS_TX_NOTFULL \<noteq> 0 \<and> 0 < live_checks D WAIT_US d"

lemma silent_pass:
  assumes "silent D d" "length into < wanted"
  shows "\<exists>q. read_pass D restart wanted queued into d = (Some (q, into), d)"
proof -
  have r: "reg_read D r d = (fst (reg_read D r d), d)" for r using assms(1) by (simp add: silent_def prod_eq_iff)
  have "\<exists>q. queue_reads D restart wanted taken queued d = (q, d)" for taken
  proof (induction "wanted - queued" arbitrary: queued)
    case 0
    then show ?case by (simp add: queue_reads.simps)
  next
    case (Suc n)
    then have "\<exists>q. queue_reads D restart wanted taken (queued + 1) d = (q, d)" by simp
    then obtain q where q: "queue_reads D restart wanted taken (queued + 1) d = (q, d)" by blast
    show ?case by (subst queue_reads.simps, subst r) (use assms(1) q in \<open>simp add: silent_def\<close>)
  qed
  then obtain q where q: "queue_reads D restart wanted (length into) queued d = (q, d)" by blast
  have a: "aborted D d = (False, d)"
    unfolding aborted_def by (subst r) (use assms(1) in \<open>simp add: silent_def\<close>)
  have t: "take_bytes D q into d = (into, d)"
    by (subst take_bytes.simps, subst r) (use assms(1) in \<open>simp add: silent_def\<close>)
  obtain n where n: "live_checks D WAIT_US d = Suc n" using assms(1) by (cases "live_checks D WAIT_US d") (auto simp: silent_def)
  have "settle D d = (True, d)"
    unfolding settle_def n wait_loop.simps if_True a prod.case bool.case
    by (subst r) (use assms(1) in \<open>simp add: silent_def\<close>)
  then show ?thesis by (simp add: read_pass_def q a t)
qed

lemma silent_bus_never_returns:
  assumes "silent D d" "length into < wanted"
  shows "read_loop D restart wanted queued into d = None"
proof (rule ccontr)
  assume "read_loop D restart wanted queued into d \<noteq> None"
  then obtain y where y: "read_loop D restart wanted queued into d = Some y" by blast
  have "\<not> (silent D d \<and> length into < wanted)"
  proof (rule read_loop.raw_induct [where P = "\<lambda>D rs w q i d y. \<not> (silent D d \<and> length i < w)", OF _ y])
    fix f and E :: "'a mmio" and rs w q i d y
    assume IH: "\<And>E rs w q i d y. f E rs w q i d = Some y \<Longrightarrow> \<not> (silent E d \<and> length i < w)"
      and eq: "(if length i < w then
        (case read_pass E rs w q i d of
           (None, d) \<Rightarrow> Some (None, d)
         | (Some (q, b), d) \<Rightarrow> f E rs w q b d)
      else Some (Some i, d)) = Some (y :: u8 list option \<times> 'a)"
    show "\<not> (silent E d \<and> length i < w)"
    proof
      assume s: "silent E d \<and> length i < w"
      then have "silent E d" "length i < w" by auto
      from silent_pass [OF this, of rs q] obtain q' where p: "read_pass E rs w q i d = (Some (q', i), d)" by (elim exE)
      from eq have "f E rs w q' i d = Some y" unfolding p if_P [OF \<open>length i < w\<close>] by (simp only: prod.case option.case)
      from IH [OF this] s show False by simp
    qed
  qed
  with assms show False by blast
qed

end
