(* ===== verification/I2c_Hid.thy ===== *)
theory I2c_Hid
  imports Gpio_Pads Hid_Report I2c_Master
begin

text \<open>
  \<open>crates/nanochrono-baremetal/src/i2c_hid.rs\<close>: the driver of a HID device on the I2C bus, from the bus up.

  The bus is a function from an address, the bytes to write and the number of bytes to read to what was
  read; \<open>None\<close> outside means that the transfer does not return.  \<open>write_read\<close> of the controller's driver
  is one such bus, and \<open>i2c_bus\<close> is the contract relied on.  The registers of the GPIO controller are a
  snapshot, given with each poll.  The lemmas show how a device is looked for, that one which stops answering
  is given up on, and how the readiness gate opens, closes and is dropped.
\<close>

section \<open>The HID descriptor\<close>

definition CMD_RESET :: u8 where "CMD_RESET = 0x01"
definition CMD_SET_POWER :: u8 where "CMD_SET_POWER = 0x08"
definition POWER_ON :: u8 where "POWER_ON = 0x00"
definition HID_DESCRIPTOR_LEN :: nat where "HID_DESCRIPTOR_LEN = 30"
definition HID_DESCRIPTOR_LENGTH_FIELD :: u16 where "HID_DESCRIPTOR_LENGTH_FIELD = 30"
definition HID_VERSION :: u16 where "HID_VERSION = 0x0100"
definition MAX_REPORT_DESCRIPTOR :: nat where "MAX_REPORT_DESCRIPTOR = 2048"
definition MAX_INPUT_REPORT :: nat where "MAX_INPUT_REPORT = 64"

record hid_descriptor =
  report_descriptor_length :: u16
  report_descriptor_register :: u16
  input_register :: u16
  max_input_length :: u16
  command_register :: u16
  data_register :: u16
  hid_vendor :: u16
  hid_product :: u16

definition le_u16_at :: "u8 list \<Rightarrow> nat \<Rightarrow> u16" where
  "le_u16_at bytes at = le_word [bytes ! at, bytes ! (at + 1)]"

definition hid_descriptor_parse :: "u8 list \<Rightarrow> hid_descriptor option" where
  "hid_descriptor_parse bytes =
     (let word = le_u16_at bytes
      in if word 0 \<noteq> HID_DESCRIPTOR_LENGTH_FIELD \<or> word 2 \<noteq> HID_VERSION then None
         else if word 6 = 0 \<or> word 8 = 0 \<or> word 14 = 0 then None
         else Some \<lparr>report_descriptor_length = word 4, report_descriptor_register = word 6, input_register = word 8,
                    max_input_length = word 10, command_register = word 14, data_register = word 16,
                    hid_vendor = word 20, hid_product = word 22\<rparr>)"

definition read_hid_descriptor :: "'b bus \<Rightarrow> u16 \<Rightarrow> u16 \<Rightarrow> 'b \<Rightarrow> (hid_descriptor option \<times> 'b) option" where
  "read_hid_descriptor bus address register b =
     do {
       (bytes, b) \<leftarrow> bus address (le_bytes 2 register) HID_DESCRIPTOR_LEN b;
       Some (Option.bind bytes hid_descriptor_parse, b)
     }"

section \<open>Finding the device on the bus\<close>

datatype discovery = Firmware | ProbedRegister | Scanned

definition FIRST_ADDRESS :: nat where "FIRST_ADDRESS = 0x08"
definition LAST_ADDRESS :: nat where "LAST_ADDRESS = 0x77"

definition DESCRIPTOR_REGISTER_CANDIDATES :: "u16 list" where
  "DESCRIPTOR_REGISTER_CANDIDATES = [0x0001, 0x0020]"

definition candidates :: "u16 option \<Rightarrow> u16 list" where
  "candidates register =
     fold (\<lambda>c found. if c \<in> set found then found else found @ [c]) DESCRIPTOR_REGISTER_CANDIDATES
       (case register of Some r \<Rightarrow> [r] | None \<Rightarrow> [])"

text \<open>The registers of an address in turn, numbered.\<close>

fun try_registers ::
    "'b bus \<Rightarrow> u16 \<Rightarrow> nat \<Rightarrow> u16 list \<Rightarrow> 'b \<Rightarrow> ((nat \<times> u16 \<times> hid_descriptor) option \<times> 'b) option" where
  "try_registers bus address index [] b = Some (None, b)"
| "try_registers bus address index (register # rest) b =
     do {
       (d, b) \<leftarrow> read_hid_descriptor bus address register b;
       case d of
         Some d \<Rightarrow> Some (Some (index, register, d), b)
       | None \<Rightarrow> try_registers bus address (index + 1) rest b
     }"

text \<open>The sweep: an address with nothing at it fails the one-byte read and is passed over.\<close>

fun scan_addresses ::
    "'b bus \<Rightarrow> u16 \<Rightarrow> u16 list \<Rightarrow> 'b \<Rightarrow> ((u16 \<times> u16 \<times> hid_descriptor) option \<times> 'b) option" where
  "scan_addresses bus declared [] b = Some (None, b)"
| "scan_addresses bus declared (address # rest) b =
     (if address = declared then scan_addresses bus declared rest b
      else do {
        (probe, b) \<leftarrow> bus address [] 1 b;
        if probe = None then scan_addresses bus declared rest b
        else do {
          (hit, b) \<leftarrow> try_registers bus address 0 (candidates None) b;
          case hit of
            Some (_, register, d) \<Rightarrow> Some (Some (address, register, d), b)
          | None \<Rightarrow> scan_addresses bus declared rest b
        }
      })"

definition discover ::
    "'b bus \<Rightarrow> u16 \<Rightarrow> u16 option \<Rightarrow> 'b \<Rightarrow> ((u16 \<times> u16 \<times> hid_descriptor \<times> discovery) option \<times> 'b) option" where
  "discover bus declared_address declared_register b =
     do {
       (hit, b) \<leftarrow> try_registers bus declared_address 0 (candidates declared_register) b;
       case hit of
         Some (index, register, d) \<Rightarrow>
           Some (Some (declared_address, register, d,
             if index = 0 \<and> declared_register \<noteq> None then Firmware else ProbedRegister), b)
       | None \<Rightarrow>
           do {
             (hit, b) \<leftarrow> scan_addresses bus declared_address (map of_nat [FIRST_ADDRESS..<LAST_ADDRESS + 1]) b;
             Some (map_option (\<lambda>(address, register, d). (address, register, d, Scanned)) hit, b)
           }
     }"

section \<open>Power\<close>

text \<open>The reads that wait for the end of the reset; how many there is time for is an argument.\<close>

fun wait_reset :: "'b bus \<Rightarrow> u16 \<Rightarrow> nat \<Rightarrow> 'b \<Rightarrow> 'b option" where
  "wait_reset bus address 0 b = Some b"
| "wait_reset bus address (Suc n) b =
     do {
       (buffer, b) \<leftarrow> bus address [] 4 b;
       case buffer of
         Some bytes \<Rightarrow> if le_u16_at bytes 0 = 0 then Some b else wait_reset bus address n b
       | None \<Rightarrow> wait_reset bus address n b
     }"

definition power_on :: "'b bus \<Rightarrow> nat \<Rightarrow> u16 \<Rightarrow> hid_descriptor \<Rightarrow> 'b \<Rightarrow> (bool \<times> 'b) option" where
  "power_on bus checks address d b =
     (let command = le_bytes 2 (command_register d)
      in do {
        (sent, b) \<leftarrow> bus address (command @ [POWER_ON, CMD_SET_POWER]) 0 b;
        if sent = None then Some (False, b)
        else do {
          (sent, b) \<leftarrow> bus address (command @ [0x00, CMD_RESET]) 0 b;
          if sent = None then Some (False, b)
          else do { b \<leftarrow> wait_reset bus address checks b; Some (True, b) }
        }
      })"

section \<open>The gate\<close>

definition GATE_STRIKES :: u32 where "GATE_STRIKES = 3"
definition AUDIT_EVERY :: u32 where "AUDIT_EVERY = 64"
definition GIVE_UP_AFTER :: u32 where "GIVE_UP_AFTER = 16"

record gated =
  gate_controller :: Gpio_Pads.controller
  gate_pad :: pad
  asserted :: bool
  gate_mapping :: mapping
  skipped :: u32
  strikes :: u32

datatype gate = Blind | Learning Gpio_Pads.controller calibration | Gated gated

text \<open>What \<open>judge\<close> leaves of a gate, given the sample taken before the read.\<close>

definition judge :: "sample option \<Rightarrow> bool \<Rightarrow> bool \<Rightarrow> gate \<Rightarrow> gate" where
  "judge sample audit had_report gate =
     (case gate of
        Blind \<Rightarrow> Blind
      | Learning c cal \<Rightarrow>
          (case sample of
             None \<Rightarrow> Learning c cal
           | Some s \<Rightarrow>
               let cal = observe s had_report cal
               in case settled cal of
                    Some (p, a) \<Rightarrow> Gated \<lparr>gate_controller = c, gate_pad = p, asserted = a, gate_mapping = Calibrated,
                                         skipped = 0, strikes = 0\<rparr>
                  | None \<Rightarrow> Learning c cal)
      | Gated g \<Rightarrow>
          let n = (if audit then if had_report then saturating_add (strikes g) 1 else 0 else strikes g)
          in if GATE_STRIKES \<le> n then Blind else Gated (g\<lparr>strikes := n\<rparr>))"

text \<open>The gate of a poll that the pin lets be skipped.\<close>

definition held_back :: "registers \<Rightarrow> bool \<Rightarrow> gate \<Rightarrow> gate option" where
  "held_back rd audit gate =
     (case gate of
        Gated g \<Rightarrow>
          if \<not> audit \<and> level rd (gate_controller g) (gate_pad g) \<noteq> asserted g
          then Some (Gated (g\<lparr>skipped := saturating_add (skipped g) 1\<rparr>)) else None
      | _ \<Rightarrow> None)"

section \<open>Polling\<close>

datatype layout = Pointer pointer_layout | Keyboard keyboard_layout

datatype report = MotionReport movement | KeysReport "u8 list"

record 'b i2c_hid =
  master :: 'b
  address :: u16
  descriptor :: hid_descriptor
  layout :: layout
  hid_controller :: "u8 \<times> u8 \<times> u8"
  interrupt_pin :: "u16 option"
  discovered :: discovery
  provenance_of :: provenance
  gate :: gate
  polls :: u32
  failures :: u32

definition decode_report :: "layout \<Rightarrow> u8 list \<Rightarrow> report option" where
  "decode_report l body =
     (case l of
        Pointer p \<Rightarrow> map_option MotionReport (pointer_decode p body)
      | Keyboard k \<Rightarrow> map_option KeysReport (keyboard_decode k body))"

definition want_of :: "'b i2c_hid \<Rightarrow> nat" where
  "want_of t = min (unat (max_input_length (descriptor t))) MAX_INPUT_REPORT"

definition report_length_of :: "u8 list \<Rightarrow> nat" where
  "report_length_of bytes = unat (le_u16_at bytes 0)"

definition poll :: "'b bus \<Rightarrow> registers \<Rightarrow> 'b i2c_hid \<Rightarrow> (report option \<times> 'b i2c_hid) option" where
  "poll bus rd t =
     (if GIVE_UP_AFTER \<le> failures t then Some (None, t)
      else if want_of t < 3 then Some (None, t)
      else let t = t\<lparr>polls := polls t + 1\<rparr>;
               audit = (polls t mod AUDIT_EVERY = 0);
               sample = (case gate t of Learning c cal \<Rightarrow> Some (take_sample rd c cal) | _ \<Rightarrow> None)
           in case held_back rd audit (gate t) of
                Some g \<Rightarrow> Some (None, t\<lparr>gate := g\<rparr>)
              | None \<Rightarrow>
                  do {
                    (read, b) \<leftarrow> bus (address t) [] (want_of t) (master t);
                    case read of
                      None \<Rightarrow> Some (None, t\<lparr>master := b, failures := failures t + 1\<rparr>)
                    | Some bytes \<Rightarrow>
                        (let n = report_length_of bytes;
                             had_report = (3 \<le> n \<and> n \<le> want_of t);
                             t = t\<lparr>master := b, failures := 0, gate := judge sample audit had_report (gate t)\<rparr>
                         in Some (if had_report then decode_report (layout t) (take (n - 2) (drop 2 bytes)) else None, t))
                  })"

datatype hid_kind = PointerKind | KeyboardKind

definition hid_kind_of :: "'b i2c_hid \<Rightarrow> hid_kind" where
  "hid_kind_of t = (case layout t of Pointer _ \<Rightarrow> PointerKind | Keyboard _ \<Rightarrow> KeyboardKind)"

fun kind_name :: "hid_kind \<Rightarrow> string" where
  "kind_name PointerKind = ''touchpad''"
| "kind_name KeyboardKind = ''keyboard''"

definition hid_report_id :: "'b i2c_hid \<Rightarrow> u8 option" where
  "hid_report_id t = (case layout t of Pointer p \<Rightarrow> ptr_report_id p | Keyboard k \<Rightarrow> kbd_report_id k)"

definition abandoned :: "'b i2c_hid \<Rightarrow> bool" where
  "abandoned t \<longleftrightarrow> GIVE_UP_AFTER \<le> failures t"

datatype gate_state_value =
    StateBlind
  | StateLearning nat u32 u32
  | StateGated mapping u32

definition gate_state :: "'b i2c_hid \<Rightarrow> gate_state_value" where
  "gate_state t =
     (case gate t of
        Blind \<Rightarrow> StateBlind
      | Learning _ cal \<Rightarrow> (case progress cal of (reports, idle) \<Rightarrow> StateLearning (watching cal) reports idle)
      | Gated g \<Rightarrow> StateGated (gate_mapping g) (skipped g))"

text \<open>A run of polls, each with the registers as they are then.\<close>

fun poll_all :: "'b bus \<Rightarrow> registers list \<Rightarrow> 'b i2c_hid \<Rightarrow> (report option list \<times> 'b i2c_hid) option" where
  "poll_all bus [] t = Some ([], t)"
| "poll_all bus (rd # rds) t =
     do {
       (r, t) \<leftarrow> poll bus rd t;
       (rs, t) \<leftarrow> poll_all bus rds t;
       Some (r # rs, t)
     }"

section \<open>Reports are whole\<close>

text \<open>A descriptor is parsed from thirty bytes, and a report is decoded from the bytes its header counts.\<close>

context i2c_bus
begin

lemma descriptor_bytes:
  assumes "read_hid_descriptor transfer a r b = Some (Some d, b')"
  shows "\<exists>bytes. transfer a (le_bytes 2 r) 30 b = Some (Some bytes, b') \<and> length bytes = 30 \<and> hid_descriptor_parse bytes = Some d"
proof -
  obtain bytes where "transfer a (le_bytes 2 r) 30 b = Some (Some bytes, b')" "hid_descriptor_parse bytes = Some d"
    using assms by (auto simp: read_hid_descriptor_def HID_DESCRIPTOR_LEN_def bind_eq_Some_conv)
  then show ?thesis using fills by blast
qed

lemma report_body_whole:
  assumes "poll transfer rd t = Some (Some r, t')"
  shows "\<exists>bytes. length bytes = want_of t \<and> 3 \<le> report_length_of bytes \<and> report_length_of bytes \<le> length bytes \<and>
    decode_report (layout t) (take (report_length_of bytes - 2) (drop 2 bytes)) = Some r"
proof -
  obtain bytes b where m: "transfer (address t) [] (want_of t) (master t) = Some (Some bytes, b)"
    and n: "3 \<le> report_length_of bytes" "report_length_of bytes \<le> want_of t"
      "decode_report (layout t) (take (report_length_of bytes - 2) (drop 2 bytes)) = Some r"
    using assms by (auto simp: poll_def Let_def bind_eq_Some_conv want_of_def split: if_splits option.splits)
  have "length bytes = want_of t" using m by (rule fills)
  with n show ?thesis by auto
qed

end

section \<open>Steps of a poll\<close>

definition audits :: "'b i2c_hid \<Rightarrow> bool" where
  "audits t \<longleftrightarrow> (polls t + 1) mod AUDIT_EVERY = 0"

lemma poll_idle: "GIVE_UP_AFTER \<le> failures t \<or> want_of t < 3 \<Longrightarrow> poll bus rd t = Some (None, t)"
  by (auto simp: poll_def)

lemma poll_steps:
  assumes "\<not> GIVE_UP_AFTER \<le> failures t" "\<not> want_of t < 3"
  shows "held_back rd (audits t) (gate t) = Some g \<Longrightarrow> poll bus rd t = Some (None, t\<lparr>polls := polls t + 1, gate := g\<rparr>)"
    "held_back rd (audits t) (gate t) = None \<Longrightarrow> bus (address t) [] (want_of t) (master t) = Some (None, b) \<Longrightarrow>
       poll bus rd t = Some (None, t\<lparr>polls := polls t + 1, master := b, failures := failures t + 1\<rparr>)"
    "held_back rd (audits t) (gate t) = None \<Longrightarrow> bus (address t) [] (want_of t) (master t) = Some (Some bytes, b) \<Longrightarrow>
       \<exists>r. poll bus rd t = Some (r, t\<lparr>polls := polls t + 1, master := b, failures := 0,
         gate := judge (case gate t of Learning c cal \<Rightarrow> Some (take_sample rd c cal) | _ \<Rightarrow> None) (audits t)
           (3 \<le> report_length_of bytes \<and> report_length_of bytes \<le> want_of t) (gate t)\<rparr>)"
  using assms by (simp_all add: poll_def audits_def Let_def want_of_def)

section \<open>Properties\<close>

definition dead_bus :: "nat bus" where
  "dead_bus = (\<lambda>a out n asked. Some (None, asked + 1))"

text \<open>
  A device that has stopped answering stops being asked: on a bus where every transfer fails, however
  many polls are made and whatever the gate says, no report is made up, and the bus is asked no more often
  than the sixteen failures in a row leave room for.
\<close>

theorem dead_device_given_up:
  "case poll_all dead_bus rds t of
     None \<Rightarrow> False
   | Some (reports, t') \<Rightarrow> reports = replicate (length rds) None \<and> master t' \<le> master t + (16 - unat (failures t))"
proof (induction rds arbitrary: t)
  case (Cons rd rds)
  obtain t1 where p: "poll dead_bus rd t = Some (None, t1)"
    and m: "master t1 + (16 - unat (failures t1)) \<le> master t + (16 - unat (failures t))"
  proof (cases "GIVE_UP_AFTER \<le> failures t \<or> want_of t < 3")
    case True
    then show thesis by (intro that [of t]) (simp_all add: poll_idle)
  next
    case False
    then have f: "unat (failures t) < 16" by (auto simp: GIVE_UP_AFTER_def word_le_nat_alt)
    then have u: "unat (failures t + 1) = unat (failures t) + 1" by (subst unat_add_lem [THEN iffD1]) simp_all
    have n: "\<not> GIVE_UP_AFTER \<le> failures t" "\<not> want_of t < 3" using False by auto
    show thesis
    proof (cases "held_back rd (audits t) (gate t)")
      case None
      show thesis
        by (rule that [OF poll_steps(2) [OF n None]]) (use f u in \<open>simp_all add: dead_bus_def, linarith\<close>)
    next
      case (Some g)
      show thesis by (rule that [OF poll_steps(1) [OF n Some]]) simp
    qed
  qed
  show ?case using Cons [of t1] m by (auto simp: p split: option.splits prod.splits)
qed simp

definition answered_by :: "'b bus \<Rightarrow> u16 \<Rightarrow> u16 \<Rightarrow> hid_descriptor \<Rightarrow> 'b \<Rightarrow> bool" where
  "answered_by bus a r d b' \<longleftrightarrow>
     (\<exists>b bytes. bus a (le_bytes 2 r) 30 b = Some (Some bytes, b') \<and> hid_descriptor_parse bytes = Some d)"

lemma try_registers_Some:
  "try_registers bus a i rs b = Some (Some (j, r, d), b') \<Longrightarrow>
     i \<le> j \<and> j - i < length rs \<and> r = rs ! (j - i) \<and> answered_by bus a r d b'"
proof (induction rs arbitrary: i b)
  case (Cons x rs)
  then obtain d1 b1 where r: "read_hid_descriptor bus a x b = Some (d1, b1)" by (auto simp: bind_eq_Some_conv)
  show ?case
  proof (cases d1)
    case None
    with r Cons have "Suc i \<le> j \<and> j - Suc i < length rs \<and> r = rs ! (j - Suc i) \<and> answered_by bus a r d b'" by simp
    then show ?thesis by (auto simp: Suc_diff_Suc nth_Cons' dest: Suc_leD)
  next
    case (Some d2)
    with r Cons.prems have e: "j = i" "r = x" "d = d2" "b' = b1" by simp_all
    obtain bytes where "bus a (le_bytes 2 x) 30 b = Some (bytes, b1)" "Option.bind bytes hid_descriptor_parse = Some d2"
      using r Some by (auto simp: read_hid_descriptor_def HID_DESCRIPTOR_LEN_def bind_eq_Some_conv)
    then show ?thesis unfolding answered_by_def e by (auto simp: bind_eq_Some_conv)
  qed
qed simp

lemma scan_addresses_Some:
  "scan_addresses bus declared as b = Some (Some (a, r, d), b') \<Longrightarrow>
     a \<in> set as \<and> a \<noteq> declared \<and> r \<in> set (candidates None) \<and> answered_by bus a r d b'"
proof (induction as arbitrary: b)
  case (Cons x as)
  show ?case
  proof (cases "x = declared")
    case True
    with Cons show ?thesis by simp
  next
    case False
    then obtain p b1 where p: "bus x [] 1 b = Some (p, b1)" using Cons.prems by (auto simp: bind_eq_Some_conv)
    show ?thesis
    proof (cases p)
      case None
      with Cons p False show ?thesis by simp
    next
      case (Some y)
      then obtain h b2 where h: "try_registers bus x 0 (candidates None) b1 = Some (h, b2)"
        using Cons.prems False p by (auto simp: bind_eq_Some_conv)
      show ?thesis
      proof (cases h)
        case None
        with Cons p False Some h show ?thesis by simp
      next
        case (Some z)
        obtain i r' d' where z: "z = (i, r', d')" by (metis prod_cases3)
        have "a = x" "r = r'" "d = d'" "b' = b2" using Cons.prems False p \<open>p = Some y\<close> h Some z by simp_all
        then show ?thesis using try_registers_Some [OF h [unfolded Some z]] False by (auto simp: nth_mem)
      qed
    qed
  qed
qed simp

lemma discover_answered:
  assumes "discover bus declared_address declared_register b = Some (Some (a, r, d, how), b')"
  shows "answered_by bus a r d b' \<and>
    (case how of
       Firmware \<Rightarrow> a = declared_address \<and> declared_register = Some r
     | ProbedRegister \<Rightarrow> a = declared_address
     | Scanned \<Rightarrow> a \<noteq> declared_address \<and> 8 \<le> unat a \<and> unat a \<le> 0x77)"
proof -
  obtain h b1 where h: "try_registers bus declared_address 0 (candidates declared_register) b = Some (h, b1)"
    using assms by (auto simp: discover_def bind_eq_Some_conv)
  show ?thesis
  proof (cases h)
    case None
    obtain z where z: "scan_addresses bus declared_address (map of_nat [FIRST_ADDRESS..<LAST_ADDRESS + 1]) b1 = Some (Some (a, r, d), b')"
      and how: "how = Scanned"
      using assms h None by (auto simp: discover_def bind_eq_Some_conv)
    note s = scan_addresses_Some [OF z]
    then have "a \<in> of_nat ` {8..<0x78}" by (simp only: FIRST_ADDRESS_def LAST_ADDRESS_def set_map set_upt) simp
    then obtain n where n: "a = of_nat n" "8 \<le> n" "n < 0x78" by (elim imageE) (simp only: atLeastLessThan_iff)
    then have "unat a = n" by (simp add: unsigned_of_nat take_bit_nat_eq_self)
    with s n how show ?thesis by simp
  next
    case (Some z)
    obtain i r' d' where z: "z = (i, r', d')" by (metis prod_cases3)
    have e: "a = declared_address" "r = r'" "d = d'" "b' = b1" "how = (if i = 0 \<and> declared_register \<noteq> None then Firmware else ProbedRegister)"
      using assms h Some z by (simp_all add: discover_def)
    note t = try_registers_Some [OF h [unfolded Some z]]
    have "declared_register = Some x \<Longrightarrow> candidates declared_register ! 0 = x" for x
      by (simp add: candidates_def DESCRIPTOR_REGISTER_CANDIDATES_def)
    then show ?thesis using t e by auto
  qed
qed

text \<open>
  C25. What a search returns was read there: the register holds a descriptor that parses, in thirty bytes that
  the bus delivered last; the firmware's own numbers are named only when it gave both, and an address other
  than the firmware's is one that a seven-bit device may use.
\<close>

theorem discover_sound:
  assumes "discover bus declared_address declared_register b = Some (Some (a, r, d, how), b')"
  shows "answered_by bus a r d b' \<and>
    (case how of
       Firmware \<Rightarrow> a = declared_address \<and> declared_register = Some r
     | ProbedRegister \<Rightarrow> a = declared_address
     | Scanned \<Rightarrow> a \<noteq> declared_address \<and> 8 \<le> unat a \<and> unat a \<le> 0x77)"
  using assms by (rule discover_answered)

text \<open>A descriptor as a device sends it, and a bus with a device at 0x15 whose descriptor is at register 0x20.\<close>

definition descriptor_bytes :: "u8 list" where
  "descriptor_bytes = concat (map (le_bytes 2)
     [30, 0x100, 675, 0x21, 0x24, 32, 0x25, 17, 0x22, 0x23, 0x04F3, 0x31AD, 1, 0, 0 :: u16])"

definition desk_bus :: "unit bus" where
  "desk_bus = (\<lambda>a out n b.
     Some (if a \<noteq> 0x15 then None
           else if out = [0x20, 0x00] \<and> n = 30 then Some descriptor_bytes else Some (replicate n 0), b))"

lemma discover_sound_witness:
  "\<exists>d. discover desk_bus 0x2C (Some 1) () = Some (Some (0x15, 0x20, d, Scanned), ()) \<and> answered_by desk_bus 0x15 0x20 d ()"
proof -
  have "list_ex (\<lambda>d. discover desk_bus 0x2C (Some 1) () = Some (Some (0x15, 0x20, d, Scanned), ()))
      [the (hid_descriptor_parse descriptor_bytes)]" by code_simp
  then obtain d where "discover desk_bus 0x2C (Some 1) () = Some (Some (0x15, 0x20, d, Scanned), ())" by auto
  from discover_sound [OF this] this show ?thesis by auto
qed

lemma le_u16_at_words:
  assumes "i < length ws"
  shows "le_u16_at (concat (map (le_bytes 2) ws)) (2 * i) = ws ! i"
  using assms
proof (induction ws arbitrary: i)
  case (Cons w ws)
  have two: "le_bytes 2 w = [ucast w, ucast (drop_bit 8 w)]" by (simp add: numeral_2_eq_2)
  show ?case
  proof (cases i)
    case 0
    have "le_word (le_bytes 2 w) = w" by (simp add: le_word_le_bytes)
    with 0 show ?thesis by (simp add: le_u16_at_def two)
  next
    case (Suc j)
    with Cons show ?thesis by (simp add: le_u16_at_def two)
  qed
qed simp

text \<open>
  What a descriptor is read as: fifteen words laid out one after the other are taken apart into the fields
  at the offsets of the driver, and they are accepted exactly when the first two are 30 and 0x0100 and the
  three registers the driver uses are not zero.
\<close>

theorem descriptor_fields:
  assumes "length ws = 15"
  shows "hid_descriptor_parse (concat (map (le_bytes 2) ws)) =
     (if ws ! 0 = 30 \<and> ws ! 1 = 0x0100 \<and> ws ! 3 \<noteq> 0 \<and> ws ! 4 \<noteq> 0 \<and> ws ! 7 \<noteq> 0
      then Some \<lparr>report_descriptor_length = ws ! 2, report_descriptor_register = ws ! 3, input_register = ws ! 4,
                 max_input_length = ws ! 5, command_register = ws ! 7, data_register = ws ! 8,
                 hid_vendor = ws ! 10, hid_product = ws ! 11\<rparr>
      else None)"
proof -
  let ?b = "concat (map (le_bytes 2) ws)"
  have "le_u16_at ?b 0 = ws ! 0" "le_u16_at ?b 2 = ws ! 1" "le_u16_at ?b 4 = ws ! 2" "le_u16_at ?b 6 = ws ! 3"
    "le_u16_at ?b 8 = ws ! 4" "le_u16_at ?b 10 = ws ! 5" "le_u16_at ?b 14 = ws ! 7" "le_u16_at ?b 16 = ws ! 8"
    "le_u16_at ?b 20 = ws ! 10" "le_u16_at ?b 22 = ws ! 11"
    using assms le_u16_at_words [of 0 ws] le_u16_at_words [of 1 ws] le_u16_at_words [of 2 ws] le_u16_at_words [of 3 ws]
      le_u16_at_words [of 4 ws] le_u16_at_words [of 5 ws] le_u16_at_words [of 7 ws] le_u16_at_words [of 8 ws]
      le_u16_at_words [of 10 ws] le_u16_at_words [of 11 ws] by simp_all
  then show ?thesis by (simp add: hid_descriptor_parse_def HID_DESCRIPTOR_LENGTH_FIELD_def HID_VERSION_def Let_def)
qed

lemma descriptor_fields_witness:
  "map_option command_register (hid_descriptor_parse descriptor_bytes) = Some 17"
  using descriptor_fields [of "[30, 0x100, 675, 0x21, 0x24, 32, 0x25, 17, 0x22, 0x23, 0x04F3, 0x31AD, 1, 0, 0]"]
  by (simp add: descriptor_bytes_def)

text \<open>
  The specification's eighth word is the maximum length of an output report and its ninth the command
  register.  So a device whose descriptor follows it is commanded at the register with the number of that
  length, and one that takes no output reports is refused.
\<close>

lemma spec_layout_misread:
  "hid_descriptor_parse (concat (map (le_bytes 2)
     [30, 0x100, report_len, report_reg, input_reg, max_input, output_reg, 0, command, data, vendor, product, version, 0, 0 :: u16])) = None"
  using le_u16_at_words [of 7 "[30, 0x100, report_len, report_reg, input_reg, max_input, output_reg, 0, command, data, vendor, product, version, 0, 0 :: u16]"]
  by (simp add: hid_descriptor_parse_def Let_def)

definition chattering :: "'b bus \<Rightarrow> u16 \<Rightarrow> nat \<Rightarrow> bool" where
  "chattering bus a n \<longleftrightarrow>
     (\<forall>b. \<exists>bytes b'. bus a [] n b = Some (Some bytes, b') \<and> 3 \<le> report_length_of bytes \<and> report_length_of bytes \<le> n)"

definition until_dropped :: "'b i2c_hid \<Rightarrow> nat" where
  "until_dropped t = (case gate t of
     Gated g \<Rightarrow> 64 - unat (polls t) mod 64 + 64 * (2 - unat (strikes g)) | _ \<Rightarrow> 0)"

lemma polls_mod: "unat (p + 1 :: u32) mod 64 = (unat p + 1) mod 64"
proof -
  have "unat (p + 1) = (unat p + 1) mod 2 ^ 32" by (simp add: unat_word_ariths)
  moreover have "(unat p + 1) mod 2 ^ 32 mod 64 = (unat p + 1) mod 64" by (rule mod_mod_cancel) simp
  ultimately show ?thesis by simp
qed

lemma audits_iff: "audits t \<longleftrightarrow> (unat (polls t) + 1) mod 64 = 0"
proof -
  have "audits t \<longleftrightarrow> unat ((polls t + 1) mod 64) = 0" by (simp add: audits_def AUDIT_EVERY_def unat_eq_0)
  also have "unat ((polls t + 1) mod 64) = unat (polls t + 1) mod 64" by (simp only: unat_mod) simp
  finally show ?thesis by (simp only: polls_mod)
qed

text \<open>The parts of the driver that polls never change.\<close>

definition same_device :: "'b i2c_hid \<Rightarrow> 'b i2c_hid \<Rightarrow> bool" where
  "same_device t t' \<longleftrightarrow> address t' = address t \<and> want_of t' = want_of t \<and> layout t' = layout t"

lemma chattering_poll:
  assumes "chattering bus (address t) (want_of t)" "\<not> want_of t < 3" "\<not> GIVE_UP_AFTER \<le> failures t"
  obtains r t' where "poll bus rd t = Some (r, t')" "same_device t t'" "\<not> GIVE_UP_AFTER \<le> failures t'" "polls t' = polls t + 1"
    "gate t' = (case held_back rd (audits t) (gate t) of Some g \<Rightarrow> g
       | None \<Rightarrow> judge (case gate t of Learning c cal \<Rightarrow> Some (take_sample rd c cal) | _ \<Rightarrow> None) (audits t) True (gate t))"
proof (cases "held_back rd (audits t) (gate t)")
  case (Some g)
  show thesis
    by (rule that [OF poll_steps(1) [OF assms(3,2) Some]]) (use assms Some in \<open>simp_all add: same_device_def want_of_def\<close>)
next
  case None
  obtain bytes b where b: "bus (address t) [] (want_of t) (master t) = Some (Some bytes, b)"
    "3 \<le> report_length_of bytes" "report_length_of bytes \<le> want_of t"
    using assms(1) unfolding chattering_def by blast
  obtain r where r: "poll bus rd t = Some (r, t\<lparr>polls := polls t + 1, master := b, failures := 0,
       gate := judge (case gate t of Learning c cal \<Rightarrow> Some (take_sample rd c cal) | _ \<Rightarrow> None) (audits t) True (gate t)\<rparr>)"
    using poll_steps(3) [where t = t and rd = rd and bus = bus, OF assms(3,2) None b(1)] b(2,3) by auto
  show thesis by (rule that [OF r]) (simp_all add: None same_device_def want_of_def GIVE_UP_AFTER_def)
qed

lemma gate_counts_down:
  assumes "gate t = Gated g" "polls t' = polls t + 1"
    and "gate t' = (case held_back rd (audits t) (gate t) of Some g \<Rightarrow> g | None \<Rightarrow> judge s (audits t) True (gate t))"
  shows "gate t' = Blind \<or> (\<exists>g'. gate t' = Gated g') \<and> until_dropped t' + 1 = until_dropped t"
proof (cases "audits t")
  case True
  let ?n = "saturating_add (strikes g) 1"
  have h: "held_back rd (audits t) (gate t) = None" using True by (simp add: held_back_def assms(1))
  have m: "(unat (polls t) + 1) mod 64 = 0" using True by (simp add: audits_iff)
  moreover have "unat (polls t) mod 64 < 64" by simp
  ultimately have m': "unat (polls t) mod 64 = 63"
    using mod_Suc [of "unat (polls t)" 64] by (simp split: if_splits)
  show ?thesis
  proof (cases "GATE_STRIKES \<le> ?n")
    case True
    then show ?thesis using \<open>audits t\<close> h assms by (simp add: judge_def)
  next
    case False
    then have "unat ?n < 3" by (simp add: GATE_STRIKES_def word_le_nat_alt)
    then have s: "unat ?n = unat (strikes g) + 1" "unat (strikes g) + 1 < 3"
      by (simp_all add: unat_saturating_add)
    have "gate t' = Gated (g\<lparr>strikes := ?n\<rparr>)" using False \<open>audits t\<close> h assms by (simp add: judge_def)
    then show ?thesis using assms(1,2) m m' s polls_mod [of "polls t"] by (simp add: until_dropped_def)
  qed
next
  case False
  then have "(unat (polls t) + 1) mod 64 \<noteq> 0" by (simp add: audits_iff)
  moreover have "unat (polls t) mod 64 < 64" by simp
  ultimately have m: "unat (polls t) mod 64 + 1 = (unat (polls t) + 1) mod 64" "unat (polls t) mod 64 < 63"
    using mod_Suc [of "unat (polls t)" 64] by (simp_all split: if_splits)
  have "gate t' = Blind \<or> (\<exists>g'. gate t' = Gated g' \<and> strikes g' = strikes g)"
    unfolding assms(3) using assms(1) False
    by (cases "level rd (gate_controller g) (gate_pad g) = asserted g"; cases "GATE_STRIKES \<le> strikes g")
      (simp_all add: held_back_def judge_def)
  moreover have "unat (polls t + 1) mod 64 = unat (polls t) mod 64 + 1" by (simp only: polls_mod m(1))
  ultimately show ?thesis using assms(1,2) m(2) by (auto simp: until_dropped_def)
qed

lemma chattering_run:
  assumes "chattering bus (address t) (want_of t)" "\<not> want_of t < 3" "\<not> GIVE_UP_AFTER \<le> failures t"
    and "gate t = Blind \<or> (\<exists>g. gate t = Gated g) \<and> until_dropped t \<le> length rds"
  shows "\<exists>rs t'. poll_all bus rds t = Some (rs, t') \<and> gate t' = Blind"
  using assms
proof (induction rds arbitrary: t)
  case Nil
  have "until_dropped t \<noteq> 0" if "gate t = Gated g" for g
  proof -
    have "unat (polls t) mod 64 < 64" by simp
    then show ?thesis using that by (simp add: until_dropped_def)
  qed
  with Nil show ?case by auto
next
  case (Cons rd rds)
  obtain r t1 where p: "poll bus rd t = Some (r, t1)" "same_device t t1" "\<not> GIVE_UP_AFTER \<le> failures t1" "polls t1 = polls t + 1"
    "gate t1 = (case held_back rd (audits t) (gate t) of Some g \<Rightarrow> g
       | None \<Rightarrow> judge (case gate t of Learning c cal \<Rightarrow> Some (take_sample rd c cal) | _ \<Rightarrow> None) (audits t) True (gate t))"
    by (rule chattering_poll [OF Cons.prems(1-3), of rd])
  have "gate t1 = Blind \<or> (\<exists>g. gate t1 = Gated g) \<and> until_dropped t1 \<le> length rds"
  proof (cases "gate t = Blind")
    case True
    then show ?thesis using p(5) by (simp add: held_back_def judge_def)
  next
    case False
    then obtain g where g: "gate t = Gated g" "until_dropped t \<le> length (rd # rds)" using Cons.prems(4) by auto
    then show ?thesis using gate_counts_down [OF g(1) p(4,5)] by auto
  qed
  then obtain rs t' where "poll_all bus rds t1 = Some (rs, t')" "gate t' = Blind"
    using Cons.IH [of t1] Cons.prems(1,2) p(2,3) by (auto simp: same_device_def)
  with p(1) show ?case by simp
qed

text \<open>
  C27. A gate that goes on missing reports is dropped.  While the device has a report at every read, a gated
  driver is back to reading blind after at most 192 polls: the audits, one poll in sixty-four whatever the
  pin says, find the reports, and the third strike opens the gate.
\<close>

theorem wrong_gate_dropped:
  assumes "chattering bus (address t) (want_of t)" "3 \<le> want_of t" "\<not> abandoned t"
    and "gate t = Gated g" "192 \<le> length rds"
  shows "\<exists>rs t'. poll_all bus rds t = Some (rs, t') \<and> gate t' = Blind"
proof -
  have "until_dropped t \<le> 192" using assms(4) by (simp add: until_dropped_def)
  with assms show ?thesis by (intro chattering_run) (auto simp: abandoned_def)
qed

text \<open>A touchpad whose reports never end, behind a pin that never moves.\<close>

definition busy_bus :: "unit bus" where
  "busy_bus = (\<lambda>a out n b. Some (Some (0x03 # replicate (n - 1) 0), b))"

definition sample_layout :: pointer_layout where
  "sample_layout = \<lparr>ptr_report_id = None, ptr_body_bytes = 3,
     ptr_x = \<lparr>bit_offset = 8, bit_size = 8, field_count = 1, is_signed = True, is_relative = True\<rparr>,
     ptr_y = \<lparr>bit_offset = 16, bit_size = 8, field_count = 1, is_signed = True, is_relative = True\<rparr>,
     ptr_buttons = None, ptr_wheel = None\<rparr>"

definition sample_hid :: "'b \<Rightarrow> gate \<Rightarrow> 'b i2c_hid" where
  "sample_hid b g = \<lparr>master = b, address = 0x15, descriptor = the (hid_descriptor_parse descriptor_bytes),
     layout = Pointer sample_layout, hid_controller = (0, 0x15, 1), interrupt_pin = Some 40, discovered = Firmware,
     provenance_of = DeclaredBuffers, gate = g, polls = 0, failures = 0\<rparr>"

definition still_gate :: gated where
  "still_gate = \<lparr>gate_controller = lined_controller, gate_pad = 0x720, asserted = True, gate_mapping = Calibrated,
     skipped = 0, strikes = 0\<rparr>"

lemma sample_want: "want_of (sample_hid b g) = 32"
proof -
  have "map_option max_input_length (hid_descriptor_parse descriptor_bytes) = Some 32" by code_simp
  then have "max_input_length (the (hid_descriptor_parse descriptor_bytes)) = 32" by auto
  then show ?thesis by (simp add: want_of_def sample_hid_def MAX_INPUT_REPORT_def)
qed

lemma wrong_gate_dropped_witness:
  "\<exists>rs t'. poll_all busy_bus (replicate 192 (lined_registers True)) (sample_hid () (Gated still_gate)) = Some (rs, t') \<and> gate t' = Blind"
proof -
  have "chattering busy_bus (address (sample_hid () (Gated still_gate))) (want_of (sample_hid () (Gated still_gate)))"
    unfolding sample_want
    by (auto simp: chattering_def busy_bus_def report_length_of_def le_u16_at_def le_word_Cons)
  moreover have "gate (sample_hid () (Gated still_gate)) = Gated still_gate" "\<not> abandoned (sample_hid () (Gated still_gate))"
    by (simp_all add: sample_hid_def abandoned_def GIVE_UP_AFTER_def)
  ultimately show ?thesis by (intro wrong_gate_dropped) (simp_all add: sample_want)
qed

text \<open>A bus that gives the next of a row of answers.\<close>

definition scripted :: "u8 list list bus" where
  "scripted = (\<lambda>a out n answers. case answers of [] \<Rightarrow> None | x # xs \<Rightarrow> Some (Some x, xs))"

definition outcome :: "'b i2c_hid \<Rightarrow> u8 list \<Rightarrow> bool" where
  "outcome t answer \<longleftrightarrow> 3 \<le> report_length_of answer \<and> report_length_of answer \<le> want_of t"

definition outcomes :: "'b i2c_hid \<Rightarrow> registers list \<Rightarrow> u8 list list \<Rightarrow> (registers \<times> bool) list" where
  "outcomes t rds answers = zip rds (map (outcome t) answers)"

definition closed_on :: "Gpio_Pads.controller \<Rightarrow> calibration \<Rightarrow> gate" where
  "closed_on c cal =
     (case settled cal of
        Some (p, a) \<Rightarrow> Gated \<lparr>gate_controller = c, gate_pad = p, asserted = a, gate_mapping = Calibrated,
                            skipped = 0, strikes = 0\<rparr>
      | None \<Rightarrow> Learning c cal)"

lemma learning_poll:
  assumes "gate t = Learning c cal" "\<not> want_of t < 3" "\<not> abandoned t" "master t = x # xs"
  shows "\<exists>r. poll scripted rd t = Some (r, t\<lparr>polls := polls t + 1, master := xs, failures := 0,
     gate := closed_on c (observe (take_sample rd c cal) (outcome t x) cal)\<rparr>)"
proof -
  have h: "held_back rd (audits t) (gate t) = None" by (simp add: held_back_def assms(1))
  have b: "scripted (address t) [] (want_of t) (master t) = Some (Some x, xs)" by (simp add: scripted_def assms(4))
  from poll_steps(3) [where t = t and rd = rd and bus = scripted, OF _ assms(2) h b] assms(1,3)
  show ?thesis by (auto simp: judge_def closed_on_def outcome_def abandoned_def Let_def split: option.split)
qed

lemma learning_run:
  assumes "gate t = Learning c cal" "\<not> want_of t < 3" "\<not> abandoned t" "master t = answers"
    and "length answers = length rds" "rds \<noteq> []"
    and "\<And>n. 0 < n \<Longrightarrow> n < length rds \<Longrightarrow> settled (learn c (take n (outcomes t rds answers)) cal) = None"
  shows "\<exists>rs t'. poll_all scripted rds t = Some (rs, t') \<and> gate t' = closed_on c (learn c (outcomes t rds answers) cal)"
  using assms
proof (induction rds arbitrary: t cal answers)
  case (Cons rd rds)
  obtain x xs where a: "answers = x # xs" using Cons.prems(5) by (cases answers) auto
  let ?cal = "observe (take_sample rd c cal) (outcome t x) cal"
  obtain r where p: "poll scripted rd t = Some (r, t\<lparr>polls := polls t + 1, master := xs, failures := 0, gate := closed_on c ?cal\<rparr>)"
    using learning_poll [OF Cons.prems(1-3)] Cons.prems(4) a by blast
  let ?t = "t\<lparr>polls := polls t + 1, master := xs, failures := 0, gate := closed_on c ?cal\<rparr>"
  have "outcome ?t = outcome t" by (simp add: fun_eq_iff outcome_def want_of_def)
  then have o: "outcomes t (rd # rds) answers = (rd, outcome t x) # outcomes ?t rds xs"
    by (simp add: outcomes_def a)
  have l: "learn c ((rd, outcome t x) # h) cal = learn c h ?cal" for h by (simp add: learn_def)
  show ?case
  proof (cases "rds = []")
    case True
    then show ?thesis using p o l by (simp add: outcomes_def) (simp add: learn_def)
  next
    case False
    have "settled ?cal = None"
      using Cons.prems(7) [of 1] False unfolding o by (simp add: l) (simp add: learn_def)
    then have g: "gate ?t = Learning c ?cal" by (simp add: closed_on_def)
    have "settled (learn c (take n (outcomes ?t rds xs)) ?cal) = None" if "0 < n" "n < length rds" for n
      using Cons.prems(7) [of "Suc n"] that unfolding o by (simp add: l)
    moreover have "\<not> want_of ?t < 3" "\<not> abandoned ?t" "master ?t = xs" "length xs = length rds"
      using Cons.prems a by (simp_all add: want_of_def abandoned_def GIVE_UP_AFTER_def)
    ultimately obtain rs t' where "poll_all scripted rds ?t = Some (rs, t')"
      "gate t' = closed_on c (learn c (outcomes ?t rds xs) ?cal)"
      using Cons.IH [OF g] False by blast
    then show ?thesis using p o l by simp
  qed
qed simp

definition singled_out :: "Gpio_Pads.controller \<Rightarrow> (registers \<times> bool) list \<Rightarrow> calibration \<Rightarrow> (pad \<times> bool) option" where
  "singled_out c seen cal =
     (if length (filter snd seen) < 4 \<or> length (filter (\<lambda>x. \<not> snd x) seen) < 4 then None
      else (case filter (\<lambda>p. told_by c seen True p \<or> told_by c seen False p) (cal_pads cal) of
              [p] \<Rightarrow> Some (p, told_by c seen True p) | _ \<Rightarrow> None))"

lemma settled_singles_out:
  "length seen < 2 ^ 32 \<Longrightarrow> settled (learn c seen (begin_calibration rd c)) = singled_out c seen (begin_calibration rd c)"
  by (simp only: singled_out_def calibration_result [unfolded Let_def])

text \<open>
  C2. The gate closes on the interrupt line.  A driver that starts to learn, on a device that answers every
  read, becomes gated with the first poll after which the outcomes so far single out one pad - four of each
  outcome, and exactly one watched pad at one level before every report and at the other before every quiet
  read - and it is that pad, with that level, the gate is closed on.
\<close>

theorem gate_closes_on_the_telling_pad:
  assumes "gate t = Learning c (begin_calibration rd c)" "3 \<le> want_of t" "\<not> abandoned t"
    and "length (master t) = length rds" "0 < length rds" "length rds < 2 ^ 32"
    and "\<forall>n\<in>{0<..<length rds}. singled_out c (take n (outcomes t rds (master t))) (begin_calibration rd c) = None"
    and "singled_out c (outcomes t rds (master t)) (begin_calibration rd c) = Some (p, a)"
  shows "\<exists>rs t' g. poll_all scripted rds t = Some (rs, t') \<and> gate t' = Gated g \<and> gate_controller g = c \<and>
    gate_pad g = p \<and> asserted g = a"
proof -
  let ?h = "outcomes t rds (master t)"
  have n: "length ?h = length rds" using assms(4) by (simp add: outcomes_def)
  have "settled (learn c (take n ?h) (begin_calibration rd c)) = None" if "0 < n" "n < length rds" for n
    using assms(6,7) that by (subst settled_singles_out) (simp_all add: n)
  then obtain rs t' where "poll_all scripted rds t = Some (rs, t')"
    "gate t' = closed_on c (learn c ?h (begin_calibration rd c))"
    using learning_run [of t c "begin_calibration rd c" "master t" rds] assms(1-5) by auto
  moreover have "settled (learn c ?h (begin_calibration rd c)) = Some (p, a)"
    using assms(6,8) by (subst settled_singles_out) (simp_all add: n)
  ultimately show ?thesis by (simp add: closed_on_def)
qed

definition learning_hid :: "u8 list list i2c_hid" where
  "learning_hid = sample_hid (replicate 4 (0x05 # replicate 31 0) @ replicate 4 (replicate 32 0))
     (Learning lined_controller (begin_calibration (lined_registers False) lined_controller))"

lemma gate_closes_on_the_telling_pad_witness:
  "\<exists>rs t' g. poll_all scripted (map fst lined_polls) learning_hid = Some (rs, t') \<and> gate t' = Gated g \<and>
     gate_controller g = lined_controller \<and> gate_pad g = 0x710 \<and> asserted g = False"
proof -
  let ?t = "learning_hid" and ?cal = "begin_calibration (lined_registers False) lined_controller"
  have w: "want_of ?t = 32" by (simp add: learning_hid_def sample_want)
  have o: "outcome ?t (0x05 # replicate 31 0)" "\<not> outcome ?t (replicate 32 0)"
    by (simp_all add: outcome_def w report_length_of_def le_u16_at_def le_word_Cons)
  have "zip (map fst lined_polls) (map (outcome ?t) (master ?t)) = lined_polls"
    using o by (simp add: lined_polls_def learning_hid_def sample_hid_def)
  then have h: "outcomes ?t (map fst lined_polls) (master ?t) = lined_polls" by (simp add: outcomes_def)
  have "singled_out lined_controller (take n lined_polls) ?cal = None" if "n < 8" for n
  proof -
    have "length (filter (\<lambda>x. \<not> snd x) (take n lined_polls)) < 4" using that by (simp add: lined_polls_def min_def) linarith
    then show ?thesis by (simp add: singled_out_def)
  qed
  moreover have "singled_out lined_controller lined_polls ?cal = Some (0x710, False)"
    by (simp add: singled_out_def lined_candidates lined_told) (simp add: lined_polls_def)
  moreover have "length lined_polls = 8" by (simp add: lined_polls_def)
  moreover have "gate ?t = Learning lined_controller ?cal" "\<not> abandoned ?t" "length (master ?t) = 8"
    by (simp_all add: learning_hid_def sample_hid_def abandoned_def GIVE_UP_AFTER_def)
  ultimately show ?thesis
    by (intro gate_closes_on_the_telling_pad) (simp_all add: w h)
qed

end
