(* ===== verification/Phys_Memory.thy ===== *)
theory Phys_Memory
  imports NC_Prelude
begin

text \<open>
  Physical memory as the bare-metal kernel reads it: a function from addresses to bytes, identity
  mapped, and the little-endian reads of its widths.  Addresses are words, as \<open>usize\<close> is.
\<close>

type_synonym memory = "u64 \<Rightarrow> u8"

definition mem_bytes :: "memory \<Rightarrow> u64 \<Rightarrow> nat \<Rightarrow> u8 list" where
  "mem_bytes m a n = map (\<lambda>i. m (a + of_nat i)) [0..<n]"

definition read_le :: "nat \<Rightarrow> memory \<Rightarrow> u64 \<Rightarrow> 'w::len word" where
  "read_le n m a = le_word (mem_bytes m a n)"

text \<open>The bytes of a list stand in memory from an address on.\<close>

definition placed :: "memory \<Rightarrow> u64 \<Rightarrow> u8 list \<Rightarrow> bool" where
  "placed m a bs \<longleftrightarrow> mem_bytes m a (length bs) = bs"

lemma length_mem_bytes [simp]: "length (mem_bytes m a n) = n"
  by (simp add: mem_bytes_def)

lemma mem_bytes_add: "mem_bytes m a (n + k) = mem_bytes m a n @ mem_bytes m (a + of_nat n) k"
  by (rule nth_equalityI) (auto simp: mem_bytes_def nth_append algebra_simps)

lemma placed_append [simp]: "placed m a (xs @ ys) \<longleftrightarrow> placed m a xs \<and> placed m (a + of_nat (length xs)) ys"
  by (simp add: placed_def mem_bytes_add append_eq_append_conv)

lemma placed_Nil [simp]: "placed m a []"
  by (simp add: placed_def mem_bytes_def)

lemma placed_Cons [simp]: "placed m a (x # xs) \<longleftrightarrow> m a = x \<and> placed m (a + 1) xs"
  using placed_append [of m a "[x]" xs] by (simp add: placed_def mem_bytes_def)

lemma read_le_placed:
  assumes "placed m a (le_bytes n w)" "LENGTH('w) \<le> 8 * n"
  shows "read_le n m a = (w :: 'w::len word)"
proof -
  have "length (le_bytes n w) = n" by simp
  with assms(1) have "mem_bytes m a n = le_bytes n w" by (simp only: placed_def)
  then show ?thesis using assms(2) by (simp add: read_le_def le_word_le_bytes)
qed

lemma mem_bytes_placed: "placed m a (mem_bytes m a n)"
  by (simp add: placed_def)

end
