(* ===== verification/Acpi_Tables.thy ===== *)
theory Acpi_Tables
  imports Phys_Memory Aml_Namespace
begin

text \<open>
  \<open>crates/nanochrono-baremetal/src/acpi.rs\<close> on x86-64: finding the root table, the tables it lists, the
  DSDT and the SSDTs, and the registers that power the machine off.  Memory is read through
  \<^theory_text>\<open>Phys_Memory\<close>; the root table the loader passed on is an argument; port writes are the list of
  ports and values written.

  The lemmas show that every table handed to the AML reader lies whole inside the identity map with a
  zero checksum and is accepted by it unchanged, that the SSDTs are visited in the order of the root
  table, and that the sleep types of a written \<open>_S5_\<close> package are read back.
\<close>

section \<open>The identity map\<close>

definition MAPPED_LIMIT :: u64 where "MAPPED_LIMIT = 0x8000000000"

definition mapped :: "u64 \<Rightarrow> u64 \<Rightarrow> bool" where
  "mapped address n \<longleftrightarrow> address \<noteq> 0 \<and> address < MAPPED_LIMIT \<and> n \<le> MAPPED_LIMIT - address"

definition sum_bytes :: "memory \<Rightarrow> u64 \<Rightarrow> nat \<Rightarrow> u8" where
  "sum_bytes m address n = fold (\<lambda>i sum. sum + m (address + of_nat i)) [0..<n] 0"

definition checksum_ok :: "memory \<Rightarrow> u64 \<Rightarrow> nat \<Rightarrow> bool" where
  "checksum_ok m address n \<longleftrightarrow> mapped address (of_nat n) \<and> n \<noteq> 0 \<and> sum_bytes m address n = 0"

definition read_u8 :: "memory \<Rightarrow> u64 \<Rightarrow> nat \<Rightarrow> u8" where
  "read_u8 m base offset = m (base + of_nat offset)"

definition read_u32 :: "memory \<Rightarrow> u64 \<Rightarrow> nat \<Rightarrow> u32" where
  "read_u32 m base offset = read_le 4 m (base + of_nat offset)"

text \<open>Two 32-bit halves as one address.\<close>

definition read_wide :: "memory \<Rightarrow> u64 \<Rightarrow> nat \<Rightarrow> u64" where
  "read_wide m base offset = push_bit 32 (ucast (read_u32 m base (offset + 4))) OR ucast (read_u32 m base offset)"

definition signature :: "memory \<Rightarrow> u64 \<Rightarrow> nat \<Rightarrow> u8 list" where
  "signature m address n = mem_bytes m address n"

section \<open>The root table\<close>

record root =
  root_address :: u64
  entry_bytes :: nat

definition is_xsdt :: "root \<Rightarrow> bool" where
  "is_xsdt r \<longleftrightarrow> entry_bytes r = 8"

record loader_root =
  loader_rsdp :: u64
  loader_is_xsdt :: bool

record rsdp =
  rsdp_rsdt :: u32
  rsdp_xsdt :: u64
  rsdp_revision :: u8

definition no_loader :: loader_root where
  "no_loader = \<lparr>loader_rsdp = 0, loader_is_xsdt = False\<rparr>"

definition set_root_table :: "rsdp \<Rightarrow> loader_root \<Rightarrow> loader_root" where
  "set_root_table r l =
     (if rsdp_xsdt r \<noteq> 0 then \<lparr>loader_rsdp = rsdp_xsdt r, loader_is_xsdt = True\<rparr>
      else if rsdp_rsdt r \<noteq> 0 then \<lparr>loader_rsdp = ucast (rsdp_rsdt r), loader_is_xsdt = False\<rparr>
      else l)"

definition RSDP_SIGNATURE :: "u8 list" where
  "RSDP_SIGNATURE = [0x52, 0x53, 0x44, 0x20, 0x50, 0x54, 0x52, 0x20]"

text \<open>What the root pointer at an address leads to, if it is one.\<close>

definition rsdp_root :: "memory \<Rightarrow> u64 \<Rightarrow> root option" where
  "rsdp_root m address =
     (if signature m address 8 = RSDP_SIGNATURE \<and> checksum_ok m address 20 then
        (let xsdt = read_wide m address 24
         in if read_u8 m address 15 \<ge> 2 \<and> checksum_ok m address 36 \<and> xsdt \<noteq> 0 \<and> mapped xsdt 36 then
              Some \<lparr>root_address = xsdt, entry_bytes = 8\<rparr>
            else (let rsdt = ucast (read_u32 m address 16)
              in if rsdt \<noteq> 0 \<and> mapped rsdt 36 then Some \<lparr>root_address = rsdt, entry_bytes = 4\<rparr> else None))
      else None)"

text \<open>The paragraphs of an area from \<open>start\<close> up to \<open>e\<close>.\<close>

definition paragraphs :: "u64 \<Rightarrow> u64 \<Rightarrow> u64 list" where
  "paragraphs start e = map (\<lambda>k. start + 16 * of_nat k) [0..<(unat (saturating_sub e start) + 15) div 16]"

definition EBDA_POINTER :: u64 where "EBDA_POINTER = 0x40E"

definition scan_for_rsdp :: "memory \<Rightarrow> root option" where
  "scan_for_rsdp m =
     (let ebda = push_bit 4 (ucast (read_le 2 m EBDA_POINTER :: u16) :: u64)
      in find_map (\<lambda>(start, e).
             if start = 0 \<or> \<not> mapped start (saturating_sub e start) then None
             else find_map (rsdp_root m) (paragraphs start e))
           [(ebda, ebda + 1024), (0xE0000, 0x100000)])"

definition find_root :: "memory \<Rightarrow> loader_root \<Rightarrow> root option" where
  "find_root m l =
     (if loader_rsdp l \<noteq> 0 \<and> mapped (loader_rsdp l) 36 then
        Some \<lparr>root_address = loader_rsdp l, entry_bytes = (if loader_is_xsdt l then 8 else 4)\<rparr>
      else scan_for_rsdp m)"

datatype root_source_value = RootLoader | RootLegacyScan | RootNone

fun root_source_name :: "root_source_value \<Rightarrow> string" where
  "root_source_name RootLoader = ''loader (multiboot2 tag)''"
| "root_source_name RootLegacyScan = ''legacy scan''"
| "root_source_name RootNone = ''not found''"

definition root_source :: "memory \<Rightarrow> loader_root \<Rightarrow> root_source_value \<times> bool" where
  "root_source m l =
     (if loader_rsdp l \<noteq> 0 then (RootLoader, loader_is_xsdt l)
      else (case scan_for_rsdp m of
          Some r \<Rightarrow> (RootLegacyScan, is_xsdt r)
        | None \<Rightarrow> (RootNone, False)))"

definition legacy_scan_works :: "memory \<Rightarrow> bool" where
  "legacy_scan_works m \<longleftrightarrow> scan_for_rsdp m \<noteq> None"

section \<open>The tables listed\<close>

text \<open>The length a table declares.\<close>

definition table_length :: "memory \<Rightarrow> u64 \<Rightarrow> u64" where
  "table_length m address = ucast (read_u32 m address 4)"

definition root_usable :: "memory \<Rightarrow> root \<Rightarrow> bool" where
  "root_usable m r \<longleftrightarrow>
     (let n = table_length m (root_address r)
      in 36 \<le> n \<and> n \<le> 0x10000 \<and> mapped (root_address r) n \<and> checksum_ok m (root_address r) (unat n))"

definition root_entry :: "memory \<Rightarrow> root \<Rightarrow> nat \<Rightarrow> u64" where
  "root_entry m r i =
     (let at = 36 + i * entry_bytes r
      in if is_xsdt r then read_wide m (root_address r) at else ucast (read_u32 m (root_address r) at))"

definition root_entries :: "memory \<Rightarrow> root \<Rightarrow> u64 list" where
  "root_entries m r = map (root_entry m r) [0..<(unat (table_length m (root_address r)) - 36) div entry_bytes r]"

definition sig_FACP :: "u8 list" where "sig_FACP = [0x46, 0x41, 0x43, 0x50]"
definition sig_SSDT :: "u8 list" where "sig_SSDT = [0x53, 0x53, 0x44, 0x54]"

text \<open>A table of at most \<open>limit\<close> bytes, as the slice it occupies.\<close>

definition table_bytes :: "memory \<Rightarrow> u64 \<Rightarrow> u64 \<Rightarrow> u8 list option" where
  "table_bytes m limit address =
     (if \<not> mapped address 36 then None
      else (let n = table_length m address
        in if \<not> (36 \<le> n \<and> n \<le> limit) \<or> \<not> mapped address n then None
           else if \<not> checksum_ok m address (unat n) then None
           else Some (mem_bytes m address (unat n))))"

definition ssdt_bytes :: "memory \<Rightarrow> u64 \<Rightarrow> u8 list option" where
  "ssdt_bytes m table =
     (if \<not> mapped table 36 then None
      else if signature m table 4 \<noteq> sig_SSDT then None
      else table_bytes m 0x400000 table)"

fun ssdt_loop :: "memory \<Rightarrow> (u8 list \<Rightarrow> 's \<Rightarrow> bool \<times> 's) \<Rightarrow> u64 list \<Rightarrow> 's \<Rightarrow> 's" where
  "ssdt_loop m visit [] s = s"
| "ssdt_loop m visit (table # tables) s =
     (case ssdt_bytes m table of
        None \<Rightarrow> ssdt_loop m visit tables s
      | Some bytes \<Rightarrow> (case visit bytes s of (go, s) \<Rightarrow> if go then ssdt_loop m visit tables s else s))"

definition for_each_ssdt :: "memory \<Rightarrow> loader_root \<Rightarrow> (u8 list \<Rightarrow> 's \<Rightarrow> bool \<times> 's) \<Rightarrow> 's \<Rightarrow> 's" where
  "for_each_ssdt m l visit s =
     (case find_root m l of
        None \<Rightarrow> s
      | Some r \<Rightarrow> if \<not> root_usable m r then s else ssdt_loop m visit (root_entries m r) s)"

fun signature_loop :: "memory \<Rightarrow> (u8 list \<Rightarrow> 's \<Rightarrow> bool \<times> 's) \<Rightarrow> u64 list \<Rightarrow> 's \<Rightarrow> 's" where
  "signature_loop m visit [] s = s"
| "signature_loop m visit (table # tables) s =
     (if \<not> mapped table 36 then signature_loop m visit tables s
      else (case visit (signature m table 4) s of (go, s) \<Rightarrow> if go then signature_loop m visit tables s else s))"

definition for_each_table_signature :: "memory \<Rightarrow> loader_root \<Rightarrow> (u8 list \<Rightarrow> 's \<Rightarrow> bool \<times> 's) \<Rightarrow> 's \<Rightarrow> 's" where
  "for_each_table_signature m l visit s =
     (case find_root m l of
        None \<Rightarrow> s
      | Some r \<Rightarrow> if \<not> root_usable m r then s else signature_loop m visit (root_entries m r) s)"

definition ssdt_count :: "memory \<Rightarrow> loader_root \<Rightarrow> nat" where
  "ssdt_count m l = for_each_ssdt m l (\<lambda>_ count. (True, count + 1)) 0"

definition is_table :: "memory \<Rightarrow> u8 list \<Rightarrow> u64 \<Rightarrow> u64 option" where
  "is_table m wanted table =
     (if \<not> mapped table 36 then None
      else if signature m table 4 \<noteq> wanted then None
      else (let n = table_length m table
        in if \<not> (36 \<le> n \<and> n \<le> 0x100000) then None
           else if checksum_ok m table (unat n) then Some table else None))"

definition find_table :: "memory \<Rightarrow> root \<Rightarrow> u8 list \<Rightarrow> u64 option" where
  "find_table m r wanted =
     (if \<not> root_usable m r then None else find_map (is_table m wanted) (root_entries m r))"

definition dsdt_address :: "memory \<Rightarrow> u64 \<Rightarrow> u64" where
  "dsdt_address m fadt =
     (let wide = (if table_length m fadt \<ge> 148 then read_wide m fadt 140 else 0)
      in if wide \<noteq> 0 then wide else ucast (read_u32 m fadt 40))"

definition dsdt :: "memory \<Rightarrow> loader_root \<Rightarrow> u8 list option" where
  "dsdt m l =
     do {
       r \<leftarrow> find_root m l;
       fadt \<leftarrow> find_table m r sig_FACP;
       table_bytes m 0x400000 (dsdt_address m fadt)
     }"

section \<open>Power\<close>

record power_registers =
  pm1a_control :: u16
  pm1b_control :: u16
  slp_typ_a :: "u16 option"
  slp_typ_b :: "u16 option"
  reset_port :: "u16 option"
  reset_value :: u8

definition read_constant :: "memory \<Rightarrow> u64 \<Rightarrow> nat \<Rightarrow> u16 option \<times> nat" where
  "read_constant m base p =
     (let opcode = read_u8 m base p
      in if opcode = 0x00 then (Some 0, p + 1)
         else if opcode = 0x01 then (Some 1, p + 1)
         else if opcode = 0x0A then (Some (ucast (read_u8 m base (p + 1))), p + 2)
         else (None, p))"

definition sig_S5 :: "u8 list" where "sig_S5 = [0x5F, 0x53, 0x35, 0x5F]"

text \<open>The package after a name, if there is one.\<close>

definition s5_at :: "memory \<Rightarrow> u64 \<Rightarrow> nat \<Rightarrow> (u16 option \<times> u16 option) option" where
  "s5_at m base i =
     (if signature m (base + of_nat i) 4 \<noteq> sig_S5 then None
      else (let p = i + 4
        in if read_u8 m base p \<noteq> 0x12 then None
           else (let p = p + (2 + unat (drop_bit 6 (read_u8 m base (p + 1)))) + 1;
                     (a, p) = read_constant m base p;
                     (b, p) = read_constant m base p
             in Some (a, b))))"

definition find_s5 :: "memory \<Rightarrow> u64 \<Rightarrow> u16 option \<times> u16 option" where
  "find_s5 m base =
     (let n = table_length m base
      in if \<not> (36 \<le> n \<and> n \<le> 0x100000) \<or> \<not> mapped base n then (None, None)
         else (case find_map (s5_at m base) [36..<unat n - 8] of Some r \<Rightarrow> r | None \<Rightarrow> (None, None)))"

definition fadt_power :: "memory \<Rightarrow> u64 \<Rightarrow> power_registers" where
  "fadt_power m fadt =
     (let n = table_length m fadt;
          resets = (n > 128 \<and> read_u32 m fadt 112 AND shl1 10 \<noteq> 0 \<and> read_u8 m fadt 116 = 1);
          base = ucast (read_u32 m fadt 40);
          (a, b) = (if mapped base 36 then find_s5 m base else (None, None))
      in \<lparr>pm1a_control = ucast (read_u32 m fadt 64), pm1b_control = ucast (read_u32 m fadt 68),
          slp_typ_a = a, slp_typ_b = b,
          reset_port = (if resets then Some (ucast (read_u32 m fadt 120)) else None),
          reset_value = (if resets then read_u8 m fadt 128 else 0)\<rparr>)"

definition read_power_registers :: "memory \<Rightarrow> loader_root \<Rightarrow> power_registers option" where
  "read_power_registers m l =
     do {
       r \<leftarrow> find_root m l;
       fadt \<leftarrow> find_table m r sig_FACP;
       Some (fadt_power m fadt)
     }"

text \<open>The ports that a shutdown and a restart write, in order.\<close>

definition sleep_word :: "u16 \<Rightarrow> u16" where
  "sleep_word typ = push_bit 10 typ OR shl1 13"

definition shutdown :: "power_registers option \<Rightarrow> (u16 \<times> u16) list" where
  "shutdown regs =
     (case regs of
        None \<Rightarrow> []
      | Some r \<Rightarrow>
          (case slp_typ_a r of
             None \<Rightarrow> []
           | Some typ \<Rightarrow>
               if pm1a_control r = 0 then []
               else (pm1a_control r, sleep_word typ) #
                 (case slp_typ_b r of
                    None \<Rightarrow> []
                  | Some typ_b \<Rightarrow> if pm1b_control r = 0 then [] else [(pm1b_control r, sleep_word typ_b)]))) @
     [(0x604, 0x2000), (0xB004, 0x2000), (0x4004, 0x3400)]"

definition reboot :: "power_registers option \<Rightarrow> (u16 \<times> u8) list" where
  "reboot regs =
     (case Option.bind regs reset_port of
        None \<Rightarrow> []
      | Some port \<Rightarrow> [(port, reset_value (the regs))]) @ [(0x64, 0xFE)]"


section \<open>The SSDTs as a list\<close>

definition ssdts :: "memory \<Rightarrow> loader_root \<Rightarrow> u8 list list" where
  "ssdts m l =
     (case find_root m l of
        None \<Rightarrow> []
      | Some r \<Rightarrow> if \<not> root_usable m r then [] else List.map_filter (ssdt_bytes m) (root_entries m r))"

lemma ssdt_loop_visits: "ssdt_loop m visit tables s = snd (visit_list visit (List.map_filter (ssdt_bytes m) tables) s)"
  by (induction tables arbitrary: s) (simp_all add: map_filter_simps split: option.split prod.split)

interpretation ssdt_walk: visiting "\<lambda>visit. for_each_ssdt m l visit" "ssdts m l" for m l
  by unfold_locales (simp add: for_each_ssdt_def ssdts_def ssdt_loop_visits split: option.split)

lemma ssdt_count_length: "ssdt_count m l = length (ssdts m l)"
proof -
  have "fold (\<lambda>_ count. count + 1) ts (n :: nat) = n + length ts" for ts :: "u8 list list" and n
    by (induction ts arbitrary: n) simp_all
  then show ?thesis unfolding ssdt_count_def by (subst ssdt_walk.visits_everything) simp_all
qed

section \<open>Tables handed on\<close>

lemma sum_bytes_list: "sum_bytes m a n = sum_list (mem_bytes m a n)"
proof -
  have "fold (\<lambda>i sum. sum + m (a + of_nat i)) xs s = s + sum_list (map (\<lambda>i. m (a + of_nat i)) xs)" for xs s
    by (induction xs arbitrary: s) (simp_all add: add.assoc)
  then show ?thesis by (simp add: sum_bytes_def mem_bytes_def)
qed

lemma take_drop_mem_bytes: "i + k \<le> n \<Longrightarrow> take k (drop i (mem_bytes m a n)) = mem_bytes m (a + of_nat i) k"
  by (rule nth_equalityI) (auto simp: mem_bytes_def algebra_simps)

definition whole_table :: "memory \<Rightarrow> u8 list \<Rightarrow> bool" where
  "whole_table m t \<longleftrightarrow>
     (\<exists>address. t = mem_bytes m address (length t) \<and> mapped address (of_nat (length t)) \<and> 36 \<le> length t \<and>
        length t \<le> 0x400000 \<and> le_word (take 4 (drop 4 t)) = (of_nat (length t) :: u32) \<and> sum_list t = 0)"

lemma table_length_unat: "unat (table_length m address) = unat (read_u32 m address 4)"
proof -
  have "unat (read_u32 m address 4) < 2 ^ LENGTH(32)" by (rule unsigned_less)
  then show ?thesis by (simp add: table_length_def unsigned_ucast_eq take_bit_nat_eq_self)
qed

lemma table_bytes_whole:
  assumes "table_bytes m 0x400000 address = Some t"
  shows "whole_table m t"
proof -
  define n where "n = unat (table_length m address)"
  have u: "unat (table_length m address) = unat (read_u32 m address 4)" by (rule table_length_unat)
  have "36 \<le> table_length m address" "table_length m address \<le> 0x400000" "mapped address (of_nat n)"
    "sum_bytes m address n = 0" "t = mem_bytes m address n"
    using assms by (auto simp: table_bytes_def checksum_ok_def n_def Let_def split: if_splits)
  then have n: "36 \<le> n" "n \<le> 0x400000" "mapped address (of_nat n)" "sum_bytes m address n = 0" "t = mem_bytes m address n"
    by (simp_all add: word_le_nat_alt n_def)
  have "take 4 (drop 4 t) = mem_bytes m (address + of_nat 4) 4"
    unfolding n(5) by (rule take_drop_mem_bytes) (use n(1) in simp)
  then have "le_word (take 4 (drop 4 t)) = read_u32 m address 4" by (simp add: read_u32_def read_le_def)
  also have "\<dots> = of_nat n" by (simp add: n_def u)
  finally show ?thesis
    unfolding whole_table_def using n by (intro exI [of _ address]) (simp add: sum_bytes_list)
qed

text \<open>
  C24. Every table given to the AML reader is whole and accepted: the DSDT and each SSDT is a slice of memory
  inside the identity map whose length is the one its header declares and whose bytes sum to zero, and the
  reader takes it as a namespace without cutting it.
\<close>

theorem tables_whole:
  assumes "dsdt m l = Some t \<or> t \<in> set (ssdts m l)"
  shows "whole_table m t \<and> namespace_new t = Some t"
proof -
  have w: "whole_table m t"
  proof (cases "dsdt m l = Some t")
    case True
    then show ?thesis by (auto simp: dsdt_def bind_eq_Some_conv intro: table_bytes_whole)
  next
    case False
    with assms have "t \<in> set (ssdts m l)" by simp
    then obtain a where "ssdt_bytes m a = Some t"
      by (auto simp: ssdts_def List.map_filter_def split: option.splits if_splits)
    then have "table_bytes m 0x400000 a = Some t" by (simp add: ssdt_bytes_def split: if_splits)
    then show ?thesis by (rule table_bytes_whole)
  qed
  then have n: "36 \<le> length t" "length t < 2 ^ 32" "le_word (take 4 (drop 4 t)) = (of_nat (length t) :: u32)"
    by (auto simp: whole_table_def)
  have "unat (of_nat (length t) :: u32) = length t" using n(2) by (simp add: unsigned_of_nat take_bit_nat_eq_self)
  with n w show ?thesis by (simp add: namespace_new_def TABLE_HEADER_def)
qed

section \<open>The sleep types\<close>

definition s5_constant :: "u8 \<Rightarrow> u8 list" where
  "s5_constant c = (if c = 0 then [0x00] else if c = 1 then [0x01] else [0x0A, c])"

lemma read_constant_placed:
  assumes "placed m (base + of_nat p) (s5_constant c)"
  shows "read_constant m base p = (Some (ucast c), p + length (s5_constant c))"
proof -
  have ne: "(0x0A :: u8) \<noteq> 0x00" "(0x0A :: u8) \<noteq> 0x01" "(0x01 :: u8) \<noteq> 0x00" by simp_all
  consider "c = 0x00" | "c = 0x01" | "c \<noteq> 0x00" "c \<noteq> 0x01" by blast
  then show ?thesis
  proof cases
    case 3
    then have "s5_constant c = [0x0A, c]" by (simp add: s5_constant_def)
    then have "m (base + of_nat p) = 0x0A" "m (base + of_nat (p + 1)) = c" "length (s5_constant c) = 2"
      using assms by (simp_all add: algebra_simps)
    then show ?thesis by (simp only: read_constant_def read_u8_def Let_def ne if_False refl if_True)
  qed (use assms in \<open>simp_all add: s5_constant_def read_constant_def read_u8_def Let_def\<close>)
qed

text \<open>
  A shutdown writes the sleep type the firmware declared: when the table holds a package \<open>_S5_\<close> with two
  constants, whatever the form of its length, the first write goes to the first control register with the first
  constant as the sleep type and the enable bit, the second to the second register if there is one.
\<close>

theorem shutdown_writes_s5:
  fixes m :: memory and fadt :: u64
  defines "base \<equiv> ucast (read_u32 m fadt 40) :: u64"
  assumes "placed m (base + of_nat i) (sig_S5 @ [0x12, lead] @ follow @ [count] @ s5_constant a @ s5_constant b)"
    and "length follow = unat (drop_bit 6 lead)" "\<And>j. 36 \<le> j \<Longrightarrow> j < i \<Longrightarrow> s5_at m base j = None"
    and "36 \<le> i" "i + 8 < unat (table_length m base)" "table_length m base \<le> 0x100000"
    and "mapped base (table_length m base)" "pm1a_control (fadt_power m fadt) \<noteq> 0"
  shows "shutdown (Some (fadt_power m fadt)) =
    (pm1a_control (fadt_power m fadt), push_bit 10 (ucast a) OR 0x2000) #
    (if pm1b_control (fadt_power m fadt) = 0 then [] else [(pm1b_control (fadt_power m fadt), push_bit 10 (ucast b) OR 0x2000)]) @
    [(0x604, 0x2000), (0xB004, 0x2000), (0x4004, 0x3400)]"
proof -
  define n where "n = unat (table_length m base)"
  let ?p = "i + 4 + (2 + length follow) + 1"
  have pl: "placed m (base + of_nat i) sig_S5" "m (base + of_nat (i + 4)) = 0x12" "m (base + of_nat (i + 4 + 1)) = lead"
    "placed m (base + of_nat ?p) (s5_constant a)" "placed m (base + of_nat (?p + length (s5_constant a))) (s5_constant b)"
    using assms(2) by (simp_all add: sig_S5_def algebra_simps)
  have "length sig_S5 = 4" by (simp add: sig_S5_def)
  then have sig: "signature m (base + of_nat i) 4 = sig_S5" using pl(1) by (simp add: placed_def signature_def)
  have here: "s5_at m base i = Some (Some (ucast a), Some (ucast b))"
    unfolding s5_at_def Let_def read_u8_def sig pl(2,3) assms(3) [symmetric]
    by (simp only: read_constant_placed [OF pl(4)] read_constant_placed [OF pl(5)] prod.case simp_thms if_False)
  have "[36..<n - 8] = [36..<i] @ i # [Suc i..<n - 8]"
    using assms(5,6) upt_add_eq_append [of 36 i "n - 8 - i"] upt_conv_Cons [of i "n - 8"] by (simp add: n_def)
  moreover have "find_map f (xs @ ys) = (case find_map f xs of None \<Rightarrow> find_map f ys | Some y \<Rightarrow> Some y)"
    for f :: "nat \<Rightarrow> (u16 option \<times> u16 option) option" and xs ys
    by (induction xs) (auto split: option.split)
  moreover have "find_map (s5_at m base) [36..<i] = None" using assms(4) by (simp add: find_map_None)
  ultimately have "find_map (s5_at m base) [36..<n - 8] = Some (Some (ucast a), Some (ucast b))" by (simp add: here)
  moreover have n: "36 \<le> table_length m base" using assms(5,6) by (simp add: word_le_nat_alt)
  ultimately have s5: "find_s5 m base = (Some (ucast a), Some (ucast b))"
    using assms(7,8) by (simp add: find_s5_def n_def Let_def)
  have "mapped base 36" using assms(8) n unfolding mapped_def using order_trans by blast
  with s5 have "slp_typ_a (fadt_power m fadt) = Some (ucast a)" "slp_typ_b (fadt_power m fadt) = Some (ucast b)"
    by (simp_all add: fadt_power_def Let_def base_def)
  then show ?thesis using assms(9) by (simp add: shutdown_def sleep_word_def shl1_def)
qed

text \<open>A machine with an RSDT at 0x1000, a FADT at 0x2000 and a DSDT at 0x3000 that declares \<open>_S5_\<close>.\<close>

definition place :: "u64 \<Rightarrow> u8 list \<Rightarrow> memory \<Rightarrow> memory" where
  "place a bs m = (\<lambda>x. if x - a < of_nat (length bs) then bs ! unat (x - a) else m x)"

definition sample_dsdt :: "u8 list" where
  "sample_dsdt =
    [68, 83, 68, 84, 50, 0, 0, 0, 0, 19, 0, 0, 0, 0, 0, 0, 0, 0, 0, 0, 0, 0, 0, 0, 0, 0, 0, 0, 0, 0, 0,
     0, 0, 0, 0, 0, 8, 95, 83, 53, 95, 18, 8, 4, 10, 5, 10, 7, 0, 0]"

definition sample_machine :: memory where
  "sample_machine =
    place 0x1000 [82, 83, 68, 84, 40, 0, 0, 0, 0, 123, 0, 0, 0, 0, 0, 0, 0, 0, 0, 0, 0, 0, 0, 0, 0, 0, 0, 0, 0, 0, 0,
     0, 0, 0, 0, 0, 0, 32, 0, 0]
    (place 0x2000 [70, 65, 67, 80, 72, 0, 0, 0, 0, 102, 0, 0, 0, 0, 0, 0, 0, 0, 0, 0, 0, 0, 0, 0, 0, 0, 0, 0, 0, 0, 0,
     0, 0, 0, 0, 0, 0, 0, 0, 0, 0, 48, 0, 0, 0, 0, 0, 0, 0, 0, 0, 0, 0, 0, 0, 0, 0, 0, 0, 0, 0, 0, 0, 0,
     4, 4, 0, 0, 0, 0, 0, 0]
    (place 0x3000 sample_dsdt (\<lambda>_. 0)))"

definition sample_loader :: loader_root where
  "sample_loader = \<lparr>loader_rsdp = 0x1000, loader_is_xsdt = False\<rparr>"

lemma tables_whole_witness:
  "dsdt sample_machine sample_loader = Some sample_dsdt \<and> namespace_new sample_dsdt = Some sample_dsdt"
proof -
  have "dsdt sample_machine sample_loader = Some sample_dsdt" by code_simp
  with tables_whole [OF disjI1 [OF this]] show ?thesis by blast
qed

lemma shutdown_writes_s5_witness:
  "shutdown (Some (fadt_power sample_machine 0x2000)) = [(0x404, 0x3400), (0x604, 0x2000), (0xB004, 0x2000), (0x4004, 0x3400)]"
proof -
  let ?base = "ucast (read_u32 sample_machine 0x2000 40) :: u64"
  have b: "?base = 0x3000" by code_simp
  have "placed sample_machine 0x3025 (sig_S5 @ [0x12, 8] @ [] @ [4] @ s5_constant 5 @ s5_constant 7)" by code_simp
  then have placed: "placed sample_machine (?base + of_nat 37) (sig_S5 @ [0x12, 8] @ [] @ [4] @ s5_constant 5 @ s5_constant 7)"
    unfolding b by simp
  have lead: "length [] = unat (drop_bit 6 (8 :: u8))" by simp
  have "s5_at sample_machine 0x3000 36 = None" by code_simp
  then have none: "s5_at sample_machine ?base j = None" if "36 \<le> j" "j < 37" for j
    using that unfolding b by (cases "j = 36") simp_all
  have n: "table_length sample_machine 0x3000 = 50" by code_simp
  have at: "36 \<le> (37 :: nat)" "37 + 8 < unat (table_length sample_machine ?base)" "table_length sample_machine ?base \<le> 0x100000"
    unfolding b n by simp_all
  have "mapped 0x3000 50" by code_simp
  then have m: "mapped ?base (table_length sample_machine ?base)" unfolding b n .
  have pm: "pm1a_control (fadt_power sample_machine 0x2000) = 0x404" "pm1b_control (fadt_power sample_machine 0x2000) = 0"
    by (simp_all only: fadt_power_def Let_def case_prod_unfold power_registers.select_convs) code_simp+
  then have "pm1a_control (fadt_power sample_machine 0x2000) \<noteq> 0" by simp
  from shutdown_writes_s5 [OF placed lead none at m this] pm show ?thesis by (simp add: push_bit_eq_mult)
qed

end
