(* ===== verification/I2c_Probe.thy ===== *)
theory I2c_Probe
  imports I2c_Hid Acpi_Tables
begin

text \<open>
  \<open>crates/nanochrono-baremetal/src/i2c_hid.rs\<close>, continued: from the firmware's tables to a device that is
  ready to be polled.

  A probe puts the other parts together: the tables and their namespaces say which device there is, which
  controller it hangs off and which pin it raises; the PCI buses say where that controller is; its driver
  reads the descriptors; the GPIO controller gives the gate.  The lemmas show that the devices of all tables
  are numbered as one list, which table's word is taken for the controller, and what a probe that succeeds has
  established.
\<close>

section \<open>Failures\<close>

datatype probe_failure =
    NoDsdt | NoDevice | NoControllerDevice | NoControllerAddress | NoControllerPci | ControllerFailed
  | NoHidDescriptor | ResetFailed | DescriptorTooLarge | ReportDescriptorFailed | NoPointerReport

fun failure_name :: "probe_failure \<Rightarrow> string" where
  "failure_name NoDsdt = ''no dsdt''"
| "failure_name NoDevice = ''no pnp0c50 device''"
| "failure_name NoControllerDevice = ''controller device in no acpi table''"
| "failure_name NoControllerAddress = ''controller has no _ADR''"
| "failure_name NoControllerPci = ''no pci device at the controller's _ADR''"
| "failure_name ControllerFailed = ''controller reset failed''"
| "failure_name NoHidDescriptor = ''no hid descriptor''"
| "failure_name ResetFailed = ''reset failed''"
| "failure_name DescriptorTooLarge = ''report descriptor too large''"
| "failure_name ReportDescriptorFailed = ''report descriptor unreadable''"
| "failure_name NoPointerReport = ''no relative pointer report''"

section \<open>The device and its controller\<close>

text \<open>The subtraction of \<open>usize\<close> values wraps, as the release profile has it.\<close>

definition usize_sub :: "nat \<Rightarrow> nat \<Rightarrow> nat" where
  "usize_sub a b = unat (of_nat a - of_nat b :: u64)"

definition nth_in_table :: "nat \<Rightarrow> u8 list \<Rightarrow> nat \<times> i2c_hid_device option \<Rightarrow> bool \<times> nat \<times> i2c_hid_device option" where
  "nth_in_table index table = (\<lambda>(passed, found).
     case namespace_new table of
       None \<Rightarrow> (True, passed, found)
     | Some ssdt \<Rightarrow>
         if index < passed + i2c_hid_count ssdt
         then (False, passed, find_i2c_hid_nth ssdt (usize_sub index passed))
         else (True, passed + i2c_hid_count ssdt, found))"

definition find_device_nth :: "memory \<Rightarrow> loader_root \<Rightarrow> u8 list \<Rightarrow> nat \<Rightarrow> i2c_hid_device option" where
  "find_device_nth m l namespace index =
     (case find_i2c_hid_nth namespace index of
        Some d \<Rightarrow> Some d
      | None \<Rightarrow> snd (for_each_ssdt m l (nth_in_table index) (i2c_hid_count namespace, None)))"

definition LPSS_CLASS :: u8 where "LPSS_CLASS = 0x0C"
definition LPSS_SUBCLASS :: u8 where "LPSS_SUBCLASS = 0x80"

definition seg_ADR :: nameseg where "seg_ADR = [0x5F, 0x41, 0x44, 0x52]"

definition named_device :: "path \<Rightarrow> u8 list \<Rightarrow> acpi_device option" where
  "named_device wanted code = find_device (\<lambda>d. path_ends_with (dev_path d) wanted) code"

definition address_in_table :: "path \<Rightarrow> u8 list \<Rightarrow> u64 option" where
  "address_in_table wanted code =
     do {
       d \<leftarrow> named_device wanted code;
       v \<leftarrow> evaluate code d seg_ADR [];
       case v of Integer n \<Rightarrow> Some n | _ \<Rightarrow> None
     }"

definition address_visit :: "path \<Rightarrow> u8 list \<Rightarrow> u64 option \<times> bool \<Rightarrow> bool \<times> u64 option \<times> bool" where
  "address_visit wanted table = (\<lambda>(found, nameless).
     case namespace_new table of
       None \<Rightarrow> (True, found, nameless)
     | Some ssdt \<Rightarrow>
         (case address_in_table wanted ssdt of
            Some a \<Rightarrow> (False, Some a, nameless)
          | None \<Rightarrow> (True, found, nameless \<or> named_device wanted ssdt \<noteq> None)))"

definition controller_address :: "memory \<Rightarrow> loader_root \<Rightarrow> u8 list \<Rightarrow> path \<Rightarrow> probe_failure + u64" where
  "controller_address m l namespace wanted =
     (case address_in_table wanted namespace of
        Some a \<Rightarrow> Inr a
      | None \<Rightarrow>
          (case for_each_ssdt m l (address_visit wanted) (None, False) of
             (Some a, _) \<Rightarrow> Inr a
           | (None, nameless) \<Rightarrow> Inl (if nameless then NoControllerAddress else NoControllerDevice)))"

section \<open>The gate\<close>

definition open_gate :: "registers \<Rightarrow> u8 list \<Rightarrow> gpio_interrupt option \<Rightarrow> gate" where
  "open_gate rd namespace interrupt =
     (case interrupt of
        None \<Rightarrow> Blind
      | Some i \<Rightarrow>
          let hid = Option.bind (named_device (gpio_controller i) namespace) dev_hid
          in case controller_open rd namespace (gpio_controller i) (map_option hw_as_bytes hid) of
               None \<Rightarrow> Blind
             | Some c \<Rightarrow>
                 let tabled = (case resolve c (gpio_pin i) of
                                 None \<Rightarrow> None
                               | Some p \<Rightarrow> if verify_pad rd c p then Some p else None)
                 in case tabled of
                      Some p \<Rightarrow> Gated \<lparr>gate_controller = c, gate_pad = p, asserted = False,
                          gate_mapping = Tabled (case ctl_platform c of Some pl \<Rightarrow> platform_name pl | None \<Rightarrow> ''tabled''),
                          skipped = 0, strikes = 0\<rparr>
                    | None \<Rightarrow>
                        let cal = begin_calibration rd c
                        in if watching cal = 0 then Blind else Learning c cal)"

section \<open>The probe\<close>

definition layout_of :: "u8 list \<Rightarrow> layout option" where
  "layout_of report_descriptor =
     (case find_pointer report_descriptor of
        Some p \<Rightarrow> Some (Pointer p)
      | None \<Rightarrow> map_option Keyboard (find_keyboard report_descriptor))"

definition lpss_at :: "u64 \<Rightarrow> pci_device \<Rightarrow> bool" where
  "lpss_at adr c \<longleftrightarrow>
     pci_slot c = ucast (drop_bit 16 adr AND 0x1F) \<and> pci_function c = ucast (adr AND 0x07) \<and>
     pci_class c = LPSS_CLASS \<and> pci_subclass c = LPSS_SUBCLASS"

text \<open>From a controller that is up to a device that is ready: everything that is read off the bus.\<close>

definition attach ::
    "'b bus \<Rightarrow> nat \<Rightarrow> u16 \<Rightarrow> u16 option \<Rightarrow> (hid_descriptor \<Rightarrow> layout \<Rightarrow> u16 \<Rightarrow> discovery \<Rightarrow> 'b \<Rightarrow> 't) \<Rightarrow>
     'b \<Rightarrow> (probe_failure + 't) option" where
  "attach bus checks slave register build b =
     do {
       (found, b) \<leftarrow> discover bus slave register b;
       case found of
         None \<Rightarrow> Some (Inl NoHidDescriptor)
       | Some (at, _, d, how) \<Rightarrow>
           do {
             (on, b) \<leftarrow> power_on bus checks at d b;
             if \<not> on then Some (Inl ResetFailed)
             else let n = unat (report_descriptor_length d)
               in if n = 0 \<or> MAX_REPORT_DESCRIPTOR < n then Some (Inl DescriptorTooLarge)
                  else do {
                    (bytes, b) \<leftarrow> bus at (le_bytes 2 (report_descriptor_register d)) n b;
                    Some (case bytes of
                            None \<Rightarrow> Inl ReportDescriptorFailed
                          | Some bytes \<Rightarrow>
                              (case layout_of bytes of
                                 None \<Rightarrow> Inl NoPointerReport
                               | Some lay \<Rightarrow> Inr (build d lay at how b)))
                  }
           }
     }"

text \<open>
  The machine a probe runs on: its memory and what the loader said of the tables, its PCI configuration
  space, its memory-mapped registers, and the controller of a PCI device once it is enabled.  The reads that
  there is time for after a reset are a number.
\<close>

record 'd machine =
  mac_memory :: memory
  mac_loader :: loader_root
  mac_pci :: pci_space
  mac_registers :: registers
  mac_enabled :: "pci_device \<Rightarrow> 'd"
  mac_checks :: nat

definition probe_nth :: "'d mmio \<Rightarrow> 'd machine \<Rightarrow> nat \<Rightarrow> (probe_failure + 'd i2c_master i2c_hid) option" where
  "probe_nth D mac index =
     (case Option.bind (dsdt (mac_memory mac) (mac_loader mac)) namespace_new of
        None \<Rightarrow> Some (Inl NoDsdt)
      | Some namespace \<Rightarrow>
          (case find_device_nth (mac_memory mac) (mac_loader mac) namespace index of
             None \<Rightarrow> Some (Inl NoDevice)
           | Some device \<Rightarrow>
               (case controller_address (mac_memory mac) (mac_loader mac) namespace (bus_controller (hid_bus device)) of
                  Inl e \<Rightarrow> Some (Inl e)
                | Inr adr \<Rightarrow>
                    (case Option.bind (pci_find (mac_pci mac) (lpss_at adr)) id of
                       None \<Rightarrow> Some (Inl NoControllerPci)
                     | Some found \<Rightarrow>
                         (case master_new D found (speed_for_hz (connection_speed (hid_bus device))) (mac_enabled mac found) of
                            None \<Rightarrow> Some (Inl ControllerFailed)
                          | Some mst \<Rightarrow>
                              attach (write_read D) (mac_checks mac) (slave_address (hid_bus device)) (descriptor_register device)
                                (\<lambda>d lay slave how b.
                                   \<lparr>master = b, address = slave, descriptor = d, layout = lay,
                                    hid_controller = (pci_bus found, pci_slot found, pci_function found),
                                    interrupt_pin = map_option gpio_pin (hid_interrupt device), discovered = how,
                                    provenance_of = hid_provenance device,
                                    gate = open_gate (mac_registers mac) namespace (hid_interrupt device),
                                    polls = 0, failures = 0\<rparr>)
                                mst)))))"

section \<open>The devices of all tables\<close>

text \<open>A table all of whose touchpads have readable resources, and the list of them.\<close>

definition resolvable :: "u8 list \<Rightarrow> bool" where
  "resolvable code \<longleftrightarrow> list_all (\<lambda>i. find_i2c_hid_nth code i \<noteq> None) [0..<i2c_hid_count code]"

definition hid_devices :: "u8 list \<Rightarrow> i2c_hid_device list" where
  "hid_devices code = map (\<lambda>i. the (find_i2c_hid_nth code i)) [0..<i2c_hid_count code]"

definition tables_of :: "memory \<Rightarrow> loader_root \<Rightarrow> u8 list list" where
  "tables_of m l = List.map_filter namespace_new (ssdts m l)"

lemma find_past_the_last: "i2c_hid_count code \<le> i \<Longrightarrow> find_i2c_hid_nth code i = None"
  using i2c_hid_nth [of code i] by (auto simp: Let_def)

lemma find_resolvable:
  "resolvable code \<Longrightarrow> find_i2c_hid_nth code i = (if i < i2c_hid_count code then Some (hid_devices code ! i) else None)"
  by (auto simp: find_past_the_last resolvable_def hid_devices_def list_all_iff)

lemma usize_sub_le: "b \<le> a \<Longrightarrow> a < 2 ^ 64 \<Longrightarrow> usize_sub a b = a - b"
  by (simp add: usize_sub_def unsigned_of_nat take_bit_nat_eq_self flip: of_nat_diff)

lemma nth_in_tables:
  assumes "list_all resolvable (List.map_filter namespace_new ts)" "passed \<le> index" "index < 2 ^ 64"
  shows "snd (snd (visit_list (nth_in_table index) ts (passed, None))) =
    (let all = concat (map hid_devices (List.map_filter namespace_new ts))
     in if index - passed < length all then Some (all ! (index - passed)) else None)"
  using assms
proof (induction ts arbitrary: passed)
  case (Cons t ts)
  show ?case
  proof (cases "namespace_new t")
    case None
    with Cons show ?thesis by (simp add: nth_in_table_def map_filter_simps)
  next
    case (Some ns)
    let ?n = "i2c_hid_count ns"
    have r: "resolvable ns" "list_all resolvable (List.map_filter namespace_new ts)"
      using Cons.prems(1) Some by (simp_all add: map_filter_simps)
    have n: "length (hid_devices ns) = ?n" by (simp add: hid_devices_def)
    show ?thesis
    proof (cases "index < passed + ?n")
      case True
      then have "index - passed < ?n" using Cons.prems(2) by linarith
      then show ?thesis
        using True Cons.prems(2,3) Some n
        by (simp add: nth_in_table_def usize_sub_le find_resolvable [OF r(1)] map_filter_simps nth_append)
    next
      case False
      then have le: "passed + ?n \<le> index" and e: "index - passed = ?n + (index - (passed + ?n))" using Cons.prems(2) by linarith+
      have "snd (snd (visit_list (nth_in_table index) (t # ts) (passed, None))) =
          snd (snd (visit_list (nth_in_table index) ts (passed + ?n, None)))"
        using False Some by (simp add: nth_in_table_def)
      then show ?thesis
        unfolding Cons.IH [OF r(2) le Cons.prems(3)] e using Some n by (simp add: map_filter_simps nth_append Let_def)
    qed
  qed
qed (simp add: map_filter_simps)

section \<open>Properties\<close>

text \<open>
  C23. The touchpads and keyboards of all tables are numbered as one list: when the resources of every device
  can be read, an index counts through the DSDT and then through the SSDTs in the order of the root table,
  with nothing for an index past the last.
\<close>

theorem devices_numbered_across_tables:
  assumes "resolvable namespace" "list_all resolvable (tables_of m l)" "index < 2 ^ 64"
  shows "find_device_nth m l namespace index =
    (let all = concat (map hid_devices (namespace # tables_of m l))
     in if index < length all then Some (all ! index) else None)"
proof (cases "index < i2c_hid_count namespace")
  case True
  then show ?thesis
    by (simp add: find_device_nth_def find_resolvable [OF assms(1)] nth_append) (simp add: hid_devices_def)
next
  case False
  have n: "length (hid_devices namespace) = i2c_hid_count namespace" by (simp add: hid_devices_def)
  have "find_device_nth m l namespace index = snd (snd (visit_list (nth_in_table index) (ssdts m l) (i2c_hid_count namespace, None)))"
    using False by (simp add: find_device_nth_def find_past_the_last ssdt_walk.visits)
  also have "\<dots> = (let all = concat (map hid_devices (tables_of m l))
     in if index - i2c_hid_count namespace < length all then Some (all ! (index - i2c_hid_count namespace)) else None)"
    unfolding tables_of_def using assms(2,3) False by (intro nth_in_tables) (simp_all add: tables_of_def)
  finally show ?thesis using False n by (auto simp: Let_def nth_append)
qed

text \<open>A table with one I2C-HID device, and a machine that has it as its only SSDT.\<close>

definition hid_table :: "u8 list" where
  "hid_table =
     [83, 83, 68, 84, 91, 0, 0, 0, 0, 164, 0, 0, 0, 0, 0, 0, 0, 0, 0, 0, 0, 0, 0, 0, 0, 0, 0, 0, 0, 0, 0, 0, 0, 0,
     0, 0, 91, 130, 53, 80, 65, 68, 48, 8, 95, 72, 73, 68, 13, 80, 78, 80, 48, 67, 53, 48, 0, 8, 66, 85, 70, 65,
     17, 28, 10, 25, 142, 21, 0, 1, 0, 1, 2, 0, 0, 1, 6, 0, 128, 26, 6, 0, 21, 0, 92, 73, 50, 67, 49, 0, 121]"

definition ssdt_machine :: memory where
  "ssdt_machine =
     place 0x1000 [82, 83, 68, 84, 40, 0, 0, 0, 0, 91, 0, 0, 0, 0, 0, 0, 0, 0, 0, 0, 0, 0, 0, 0, 0, 0, 0, 0, 0, 0, 0, 0, 0, 0,
     0, 0, 0, 64, 0, 0]
       (place 0x4000 hid_table (\<lambda>_. 0))"

lemma ssdt_machine_tables: "tables_of ssdt_machine sample_loader = [hid_table]"
  by code_simp

lemma hid_table_resolvable: "resolvable hid_table" "i2c_hid_count hid_table = 1"
  by code_simp+

lemma devices_numbered_across_tables_witness:
  "find_device_nth ssdt_machine sample_loader hid_table 1 = Some (hid_devices hid_table ! 0)"
  using devices_numbered_across_tables [of hid_table ssdt_machine sample_loader 1] hid_table_resolvable
  by (simp add: ssdt_machine_tables hid_devices_def)

text \<open>
  A device of the first table whose resources cannot be read hides the devices of the other tables: the count
  of the first table is already past the index, and the difference wraps.
\<close>

lemma visit_namespaces:
  "snd (visit_list (nth_in_table index) ts s) =
     snd (visit_list (\<lambda>ssdt (passed, found).
        if index < passed + i2c_hid_count ssdt then (False, passed, find_i2c_hid_nth ssdt (usize_sub index passed))
        else (True, passed + i2c_hid_count ssdt, found)) (List.map_filter namespace_new ts) s)"
  by (induction ts arbitrary: s) (auto simp: nth_in_table_def map_filter_simps split: option.split)

lemma unreadable_device_hides_the_rest:
  assumes "find_i2c_hid_nth namespace index = None" "index < i2c_hid_count namespace"
    and "i2c_hid_count namespace < 2 ^ 63" "tables_of m l = ssdt # rest" "i2c_hid_count ssdt < 2 ^ 63"
  shows "find_device_nth m l namespace index = None"
proof -
  let ?n = "i2c_hid_count namespace"
  have u: "unat (of_nat index :: u64) = index" "unat (of_nat ?n :: u64) = ?n"
    using assms(2,3) by (simp_all add: unsigned_of_nat take_bit_nat_eq_self)
  have "usize_sub index ?n = index + 2 ^ 64 - ?n"
    using assms(2) by (simp add: usize_sub_def unat_sub_if' u)
  then have "i2c_hid_count ssdt \<le> usize_sub index ?n" using assms(3,5) by simp
  then have none: "find_i2c_hid_nth ssdt (usize_sub index ?n) = None" by (rule find_past_the_last)
  have "find_device_nth m l namespace index = snd (snd (visit_list (nth_in_table index) (ssdts m l) (?n, None)))"
    by (simp add: find_device_nth_def assms(1) ssdt_walk.visits)
  also have "\<dots> = None"
    unfolding visit_namespaces tables_of_def [symmetric] assms(4) using assms(2) none by simp
  finally show ?thesis .
qed

text \<open>
  Which table's word is taken for the controller: the first one - the DSDT, then the SSDTs in order - in
  which a device by that name has an address, and if there is none the error says whether an SSDT has the
  device at all.
\<close>

lemma address_visits:
  "snd (visit_list (address_visit wanted) ts (None, seen)) =
     (find_map (address_in_table wanted) (List.map_filter namespace_new ts),
      seen \<or> list_ex (\<lambda>code. address_in_table wanted code = None \<and> named_device wanted code \<noteq> None)
        (takeWhile (\<lambda>code. address_in_table wanted code = None) (List.map_filter namespace_new ts)))"
  by (induction ts arbitrary: seen) (auto simp: address_visit_def map_filter_simps split: option.split)

theorem controller_of_the_first_table:
  "controller_address m l namespace wanted =
     (case find_map (address_in_table wanted) (namespace # tables_of m l) of
        Some a \<Rightarrow> Inr a
      | None \<Rightarrow> Inl (if list_ex (\<lambda>code. named_device wanted code \<noteq> None) (tables_of m l)
                     then NoControllerAddress else NoControllerDevice))"
proof (cases "address_in_table wanted namespace")
  case None
  let ?ts = "tables_of m l"
  have v: "for_each_ssdt m l (address_visit wanted) (None, False) =
     (find_map (address_in_table wanted) ?ts,
      list_ex (\<lambda>code. address_in_table wanted code = None \<and> named_device wanted code \<noteq> None)
        (takeWhile (\<lambda>code. address_in_table wanted code = None) ?ts))"
    by (simp add: ssdt_walk.visits address_visits tables_of_def)
  show ?thesis
  proof (cases "find_map (address_in_table wanted) ?ts")
    case missing: None
    then have "\<forall>code\<in>set ?ts. address_in_table wanted code = None" by (simp add: find_map_None)
    then have tw: "takeWhile (\<lambda>code. address_in_table wanted code = None) ?ts = ?ts"
      and no: "list_ex (\<lambda>code. address_in_table wanted code = None \<and> named_device wanted code \<noteq> None) ?ts =
        list_ex (\<lambda>code. named_device wanted code \<noteq> None) ?ts"
      by (simp_all add: takeWhile_eq_all_conv list_ex_iff)
    show ?thesis using None missing by (simp add: controller_address_def v [unfolded tw no])
  next
    case (Some a)
    then show ?thesis using None by (simp add: controller_address_def v)
  qed
qed (simp add: controller_address_def)

lemma attach_runs:
  assumes "attach bus checks slave register build b0 = Some (Inr t)"
  obtains d lay at how r b1 b2 b3 bytes where "answered_by bus at r d b1"
    "bus at (le_bytes 2 (report_descriptor_register d)) (unat (report_descriptor_length d)) b2 = Some (Some bytes, b3)"
    "unat (report_descriptor_length d) \<le> 2048" "layout_of bytes = Some lay" "t = build d lay at how b3"
    "attach bus checks slave register build' b0 = Some (Inr (build' d lay at how b3))"
proof -
  obtain h b1 where h: "discover bus slave register b0 = Some (h, b1)" using assms by (auto simp: attach_def bind_eq_Some_conv)
  obtain at r d how where hs: "h = Some (at, r, d, how)" using assms h by (cases h) (auto simp: attach_def)
  obtain on b2 where on: "power_on bus checks at d b1 = Some (on, b2)"
    using assms h hs by (auto simp: attach_def bind_eq_Some_conv)
  have ok: "on" "unat (report_descriptor_length d) \<le> 2048"
    and len: "\<not> (unat (report_descriptor_length d) = 0 \<or> MAX_REPORT_DESCRIPTOR < unat (report_descriptor_length d))"
    using assms h hs on by (auto simp: attach_def Let_def MAX_REPORT_DESCRIPTOR_def split: if_splits)
  obtain r3 b3 where r3: "bus at (le_bytes 2 (report_descriptor_register d)) (unat (report_descriptor_length d)) b2 = Some (r3, b3)"
    using assms h hs on ok len by (auto simp: attach_def Let_def bind_eq_Some_conv)
  obtain bytes lay where l: "r3 = Some bytes" "layout_of bytes = Some lay" "t = build d lay at how b3"
    using assms h hs on ok len r3 by (auto simp: attach_def Let_def split: option.splits)
  moreover have "attach bus checks slave register build' b0 = Some (Inr (build' d lay at how b3))"
    using h hs on ok len r3 l by (simp add: attach_def Let_def)
  moreover have "answered_by bus at r d b1" using discover_answered [OF h [unfolded hs]] by blast
  ultimately show thesis using that r3 ok(2) by blast
qed

text \<open>
  C11. What a probe that succeeds has established: the controller is an LPSS controller at the slot and
  function of its address; the descriptor was read at the address the device answers on; the layout is one
  found in the report descriptor the device sent, of a length within bounds; no poll has been made; and the
  gate is the one of the device's interrupt.
\<close>

theorem probe_established:
  assumes "probe_nth D mac index = Some (Inr t)"
  shows "\<exists>namespace device found adr.
     Option.bind (dsdt (mac_memory mac) (mac_loader mac)) namespace_new = Some namespace \<and>
     find_device_nth (mac_memory mac) (mac_loader mac) namespace index = Some device \<and>
     controller_address (mac_memory mac) (mac_loader mac) namespace (bus_controller (hid_bus device)) = Inr adr \<and>
     found \<in> set (pci_devices (mac_pci mac)) \<and> lpss_at adr found \<and>
     hid_controller t = (pci_bus found, pci_slot found, pci_function found) \<and>
     (\<exists>r b. answered_by (write_read D) (address t) r (descriptor t) b) \<and>
     (\<exists>b bytes. write_read D (address t) (le_bytes 2 (report_descriptor_register (descriptor t)))
          (unat (report_descriptor_length (descriptor t))) b = Some (Some bytes, master t) \<and>
        length bytes = unat (report_descriptor_length (descriptor t)) \<and> length bytes \<le> 2048 \<and> layout_of bytes = Some (layout t)) \<and>
     gate t = open_gate (mac_registers mac) namespace (hid_interrupt device) \<and> polls t = 0 \<and> failures t = 0"
proof -
  obtain namespace where ns: "Option.bind (dsdt (mac_memory mac) (mac_loader mac)) namespace_new = Some namespace"
    using assms by (auto simp: probe_nth_def split: option.splits)
  obtain device where dev: "find_device_nth (mac_memory mac) (mac_loader mac) namespace index = Some device"
    using assms ns by (auto simp: probe_nth_def split: option.splits)
  obtain adr where adr: "controller_address (mac_memory mac) (mac_loader mac) namespace (bus_controller (hid_bus device)) = Inr adr"
    using assms ns dev by (auto simp: probe_nth_def split: sum.splits)
  obtain found where found: "Option.bind (pci_find (mac_pci mac) (lpss_at adr)) id = Some found"
    using assms ns dev adr by (auto simp: probe_nth_def split: option.splits)
  obtain mst where mst: "master_new D found (speed_for_hz (connection_speed (hid_bus device))) (mac_enabled mac found) = Some mst"
    using assms ns dev adr found by (auto simp: probe_nth_def split: option.splits)
  note a = assms [unfolded probe_nth_def ns dev adr found mst option.case sum.case]
  obtain d lay at how r b1 b2 b3 bytes where r: "answered_by (write_read D) at r d b1"
    "write_read D at (le_bytes 2 (report_descriptor_register d)) (unat (report_descriptor_length d)) b2 = Some (Some bytes, b3)"
    "unat (report_descriptor_length d) \<le> 2048" "layout_of bytes = Some lay"
    "t = \<lparr>master = b3, address = at, descriptor = d, layout = lay,
       hid_controller = (pci_bus found, pci_slot found, pci_function found),
       interrupt_pin = map_option gpio_pin (hid_interrupt device), discovered = how,
       provenance_of = hid_provenance device,
       gate = open_gate (mac_registers mac) namespace (hid_interrupt device), polls = 0, failures = 0\<rparr>"
    by (rule attach_runs [OF a])
  have "find (lpss_at adr) (pci_devices (mac_pci mac)) = Some found"
    using found by (simp add: pci_find_first bind_eq_Some_conv)
  then have "found \<in> set (pci_devices (mac_pci mac))" "lpss_at adr found" by (auto simp: find_Some_iff)
  moreover have "length bytes = unat (report_descriptor_length d)" using r(2) by (rule master_bus.fills)
  then have "\<exists>b bytes. write_read D (address t) (le_bytes 2 (report_descriptor_register (descriptor t)))
      (unat (report_descriptor_length (descriptor t))) b = Some (Some bytes, master t) \<and>
      length bytes = unat (report_descriptor_length (descriptor t)) \<and> length bytes \<le> 2048 \<and> layout_of bytes = Some (layout t)"
    using r(2-4) unfolding r(5) i2c_hid.select_convs by (intro exI [of _ b2] exI [of _ bytes]) simp
  moreover have "\<exists>r b. answered_by (write_read D) (address t) r (descriptor t) b" using r(1) unfolding r(5) i2c_hid.select_convs by blast
  ultimately show ?thesis
    using ns dev adr by (intro exI [of _ namespace] exI [of _ device] exI [of _ found] exI [of _ adr]) (simp add: r(5))
qed

text \<open>
  A notebook with one touchpad: the DSDT names the controller and the device, the controller is at slot 2 of
  the PCI bus, and behind it answers a device with the report descriptor of a plain mouse.
\<close>

definition notebook_dsdt :: "u8 list" where
  "notebook_dsdt =
     [68, 83, 68, 84, 108, 0, 0, 0, 0, 123, 0, 0, 0, 0, 0, 0, 0, 0, 0, 0, 0, 0, 0, 0, 0, 0, 0, 0, 0, 0, 0, 0, 0, 0,
     0, 0, 91, 130, 15, 73, 50, 67, 49, 8, 95, 65, 68, 82, 12, 0, 0, 2, 0, 91, 130, 53, 80, 65, 68, 48, 8, 95, 72,
     73, 68, 13, 80, 78, 80, 48, 67, 53, 48, 0, 8, 66, 85, 70, 65, 17, 28, 10, 25, 142, 21, 0, 1, 0, 1, 2, 0, 0, 1,
     6, 0, 128, 26, 6, 0, 21, 0, 92, 73, 50, 67, 49, 0, 121]"

definition notebook_memory :: memory where
  "notebook_memory =
    place 0x1000 [82, 83, 68, 84, 40, 0, 0, 0, 0, 123, 0, 0, 0, 0, 0, 0, 0, 0, 0, 0, 0, 0, 0, 0, 0, 0, 0, 0, 0, 0, 0,
     0, 0, 0, 0, 0, 0, 32, 0, 0]
    (place 0x2000 [70, 65, 67, 80, 72, 0, 0, 0, 0, 102, 0, 0, 0, 0, 0, 0, 0, 0, 0, 0, 0, 0, 0, 0, 0, 0, 0, 0, 0, 0, 0,
     0, 0, 0, 0, 0, 0, 0, 0, 0, 0, 48, 0, 0, 0, 0, 0, 0, 0, 0, 0, 0, 0, 0, 0, 0, 0, 0, 0, 0, 0, 0, 0, 0,
     4, 4, 0, 0, 0, 0, 0, 0]
    (place 0x3000 notebook_dsdt (\<lambda>_. 0)))"

definition notebook_pci :: pci_space where
  "notebook_pci a =
     (if a = config_address 0 2 0 0x00 then 0x7A7D8086
      else if a = config_address 0 2 0 0x08 then 0x0C800000
      else if a = config_address 0 2 0 0x0C then 0
      else if a = config_address 0 2 0 0x10 then 0xFE000000
      else 0xFFFFFFFF)"

definition notebook_device :: "u8 list mmio" where
  "notebook_device =
     \<lparr>reg_read = (\<lambda>r d. if r = REG_DATA_CMD then (ucast (hd d), tl d)
         else (if r = REG_I2C_STA then 0x0E else if r = REG_COMP_TYPE then COMP_TYPE_SIGNATURE else 0, d)),
      reg_write = (\<lambda>r v d. d), live_checks = (\<lambda>us d. 1)\<rparr>"

definition notebook_bytes :: "u8 list" where
  "notebook_bytes = concat (map (le_bytes 2)
     [30, 0x100, of_nat (length plain_mouse), 0x21, 0x24, 32, 0x25, 17, 0x22, 0x23, 0x04F3, 0x31AD, 1, 0, 0 :: u16]) @
     [0, 0, 0, 0] @ plain_mouse"

definition notebook :: "u8 list machine" where
  "notebook =
     \<lparr>mac_memory = notebook_memory, mac_loader = sample_loader, mac_pci = notebook_pci, mac_registers = (\<lambda>_. 0),
      mac_enabled = (\<lambda>_. notebook_bytes), mac_checks = 1\<rparr>"

definition notebook_bridge :: pci_device where
  "notebook_bridge = \<lparr>pci_bus = 0, pci_slot = 2, pci_function = 0, pci_vendor = 0x8086, pci_device_id = 0x7A7D,
     pci_class = 0x0C, pci_subclass = 0x80, pci_prog_if = 0, header_type = 0, bar0 = 0xFE000000\<rparr>"

definition notebook_master :: "u8 list i2c_master" where
  "notebook_master = \<lparr>bus_speed = Fast, target = - 1, ctl = notebook_bytes\<rparr>"

lemma attach_succeeds:
  assumes "attach bus checks slave register build b = Some (Inr t)"
  shows "\<exists>t'. attach bus checks slave register build' b = Some (Inr t')"
  by (rule attach_runs [where build' = build', OF assms]) blast

lemma notebook_parts:
  "Option.bind (dsdt notebook_memory sample_loader) namespace_new = Some notebook_dsdt"
  "map_option (\<lambda>d. (slave_address (hid_bus d), connection_speed (hid_bus d), descriptor_register d, bus_controller (hid_bus d)))
     (find_device_nth notebook_memory sample_loader notebook_dsdt 0) = Some (0x15, 400000, None, snd (path_push [0x49, 0x32, 0x43, 0x31] path_root))"
  "controller_address notebook_memory sample_loader notebook_dsdt (snd (path_push [0x49, 0x32, 0x43, 0x31] path_root)) = Inr 0x20000"
  "pci_find notebook_pci (lpss_at 0x20000) = Some (Some notebook_bridge)"
  "master_new notebook_device notebook_bridge Fast notebook_bytes = Some notebook_master"
  by code_simp+

lemma notebook_attached:
  "\<exists>t. attach (write_read notebook_device) 1 0x15 None (\<lambda>d lay slave how b. ()) notebook_master = Some (Inr t)"
proof -
  have "(case attach (write_read notebook_device) 1 0x15 None (\<lambda>d lay slave how b. ()) notebook_master of
      Some (Inr t) \<Rightarrow> True | _ \<Rightarrow> False)" by code_simp
  then show ?thesis by (auto split: option.splits sum.splits)
qed

lemma probe_established_witness:
  "\<exists>t namespace. probe_nth notebook_device notebook 0 = Some (Inr t) \<and>
     Option.bind (dsdt notebook_memory sample_loader) namespace_new = Some namespace \<and>
     (\<exists>r b. answered_by (write_read notebook_device) (address t) r (descriptor t) b)"
proof -
  obtain dev where dev: "find_device_nth notebook_memory sample_loader notebook_dsdt 0 = Some dev"
    "slave_address (hid_bus dev) = 0x15" "connection_speed (hid_bus dev) = 400000" "descriptor_register dev = None"
    "bus_controller (hid_bus dev) = snd (path_push [0x49, 0x32, 0x43, 0x31] path_root)"
    using notebook_parts(2) by auto
  have s: "speed_for_hz 400000 = Fast" by (simp add: speed_for_hz_def)
  let ?build = "\<lambda>d lay slave how b.
     \<lparr>master = b, address = slave, descriptor = d, layout = lay,
      hid_controller = (pci_bus notebook_bridge, pci_slot notebook_bridge, pci_function notebook_bridge),
      interrupt_pin = map_option gpio_pin (hid_interrupt dev), discovered = how, provenance_of = hid_provenance dev,
      gate = open_gate (\<lambda>_. 0) notebook_dsdt (hid_interrupt dev), polls = 0, failures = 0\<rparr>"
  have p: "probe_nth notebook_device notebook 0 = attach (write_read notebook_device) 1 0x15 None ?build notebook_master"
    by (simp add: probe_nth_def notebook_def notebook_parts dev s)
  obtain u where "attach (write_read notebook_device) 1 0x15 None (\<lambda>d lay slave how b. ()) notebook_master = Some (Inr u)"
    using notebook_attached by blast
  from attach_succeeds [OF this, of ?build] obtain t where t: "probe_nth notebook_device notebook 0 = Some (Inr t)"
    unfolding p by blast
  from probe_established [OF t] t show ?thesis by (simp add: notebook_def) blast
qed

end
