(* ===== verification/Multiboot.thy ===== *)
theory Multiboot
  imports Acpi_Tables
begin

text \<open>
  \<open>crates/nanochrono-baremetal/src/multiboot.rs\<close>: the tags the loader left in memory, and what the
  kernel takes from them: the framebuffer, the amount of memory, and the copy of the ACPI root pointer.

  The three readers share the header of their loop, which is the list \<open>tags_from\<close> of the kinds,
  offsets and sizes met; it ends because every tag is at least eight bytes long.  The lemmas lay out
  an information structure in memory from a list of tags and read that list back.
\<close>

definition TAG_END :: u32 where "TAG_END = 0"
definition TAG_BASIC_MEMORY :: u32 where "TAG_BASIC_MEMORY = 4"
definition TAG_MEMORY_MAP :: u32 where "TAG_MEMORY_MAP = 6"
definition TAG_FRAMEBUFFER :: u32 where "TAG_FRAMEBUFFER = 8"
definition TAG_ACPI_OLD :: u32 where "TAG_ACPI_OLD = 14"
definition TAG_ACPI_NEW :: u32 where "TAG_ACPI_NEW = 15"
definition FRAMEBUFFER_TYPE_RGB :: u8 where "FRAMEBUFFER_TYPE_RGB = 1"
definition MEMORY_AVAILABLE :: u32 where "MEMORY_AVAILABLE = 1"

lemmas tag_kinds =
  TAG_END_def TAG_BASIC_MEMORY_def TAG_MEMORY_MAP_def TAG_FRAMEBUFFER_def TAG_ACPI_OLD_def TAG_ACPI_NEW_def

definition at_u32 :: "memory \<Rightarrow> u64 \<Rightarrow> nat \<Rightarrow> u32" where
  "at_u32 m base offset = read_le 4 m (base + of_nat offset)"

definition at_u64 :: "memory \<Rightarrow> u64 \<Rightarrow> nat \<Rightarrow> u64" where
  "at_u64 m base offset = read_le 8 m (base + of_nat offset)"

section \<open>The list of tags\<close>

record tag =
  tag_kind :: u32
  tag_offset :: nat
  tag_size :: nat

definition round_up_8 :: "nat \<Rightarrow> nat" where
  "round_up_8 n = (n + 7) div 8 * 8"

lemma round_up_8_ge: "n \<le> round_up_8 n"
  by (simp add: round_up_8_def)

function tags_from :: "memory \<Rightarrow> u64 \<Rightarrow> nat \<Rightarrow> nat \<Rightarrow> tag list" where
  "tags_from m base tot offset =
     (if offset + 8 \<le> tot then
        (let kind = at_u32 m base offset;
             size = unat (at_u32 m base (offset + 4))
         in if kind = TAG_END \<or> size < 8 then []
            else \<lparr>tag_kind = kind, tag_offset = offset, tag_size = size\<rparr> #
              tags_from m base tot (offset + round_up_8 size))
      else [])"
  by pat_completeness auto

termination tags_from
proof (relation "measure (\<lambda>(m, base, tot, offset). tot - offset)", goal_cases)
  case (2 m base tot offset kind size)
  then show ?case using round_up_8_ge [of size] by (simp, linarith)
qed simp

declare tags_from.simps [simp del]

definition info_tags :: "memory \<Rightarrow> u64 \<Rightarrow> tag list option" where
  "info_tags m info =
     (if info = 0 \<or> info mod 8 \<noteq> 0 then None
      else (let tot = at_u32 m info 0
        in if \<not> (16 \<le> tot \<and> tot < 0x100000) then None else Some (tags_from m info (unat tot) 8)))"

section \<open>The framebuffer\<close>

record framebuffer =
  fb_base :: u64
  fb_width :: u32
  fb_height :: u32
  fb_pitch :: u32
  bytes_per_pixel :: u32

definition framebuffer_new :: "u64 \<Rightarrow> u32 \<Rightarrow> u32 \<Rightarrow> u32 \<Rightarrow> u8 \<Rightarrow> framebuffer" where
  "framebuffer_new base width height pitch bits_per_pixel =
     \<lparr>fb_base = base, fb_width = width, fb_height = height, fb_pitch = pitch,
      bytes_per_pixel = (ucast bits_per_pixel + 7) div 8\<rparr>"

definition fb_usable :: "framebuffer \<Rightarrow> bool" where
  "fb_usable fb \<longleftrightarrow>
     fb_base fb \<noteq> 0 \<and> fb_width fb > 0 \<and> fb_height fb > 0 \<and> bytes_per_pixel fb \<ge> 2 \<and> bytes_per_pixel fb \<le> 4"

definition read_framebuffer :: "memory \<Rightarrow> u64 \<Rightarrow> nat \<Rightarrow> framebuffer option" where
  "read_framebuffer m info offset =
     (let address = at_u64 m info (offset + 8);
          pitch = at_u32 m info (offset + 16);
          width = at_u32 m info (offset + 20);
          height = at_u32 m info (offset + 24);
          bpp = m (info + of_nat (offset + 28));
          fb_type = m (info + of_nat (offset + 29))
      in if fb_type \<noteq> FRAMEBUFFER_TYPE_RGB then None
         else if address = 0 \<or> address \<ge> 0x8000000000 then None
         else (let fb = framebuffer_new address width height pitch bpp in if fb_usable fb then Some fb else None))"

fun framebuffer_in :: "memory \<Rightarrow> u64 \<Rightarrow> tag list \<Rightarrow> framebuffer option" where
  "framebuffer_in m info [] = None"
| "framebuffer_in m info (t # ts) =
     (if tag_kind t = TAG_FRAMEBUFFER \<and> tag_size t \<ge> 32 then read_framebuffer m info (tag_offset t)
      else framebuffer_in m info ts)"

definition find_framebuffer :: "memory \<Rightarrow> u64 \<Rightarrow> framebuffer option" where
  "find_framebuffer m info = (case info_tags m info of None \<Rightarrow> None | Some ts \<Rightarrow> framebuffer_in m info ts)"

section \<open>The amount of memory\<close>

record mb_memory =
  mb_total :: u64
  mb_regions :: u32

definition memory_is_known :: "mb_memory \<Rightarrow> bool" where
  "memory_is_known s \<longleftrightarrow> mb_total s > 0"

definition add_region :: "u64 \<Rightarrow> u32 \<Rightarrow> mb_memory \<Rightarrow> mb_memory" where
  "add_region len region s =
     (if region = MEMORY_AVAILABLE
      then \<lparr>mb_total = saturating_add (mb_total s) len, mb_regions = mb_regions s + 1\<rparr> else s)"

text \<open>The entries of a map, of at least 24 bytes each, up to its end.\<close>

function map_entries :: "memory \<Rightarrow> u64 \<Rightarrow> nat \<Rightarrow> nat \<Rightarrow> nat \<Rightarrow> mb_memory \<Rightarrow> mb_memory" where
  "map_entries m info entry_size e at s =
     (if 24 \<le> entry_size \<and> at + entry_size \<le> e then
        map_entries m info entry_size e (at + entry_size)
          (add_region (at_u64 m info (at + 8)) (at_u32 m info (at + 16)) s)
      else s)"
  by pat_completeness auto

termination map_entries
  by (relation "measure (\<lambda>(m, info, entry_size, e, at, s). e - at)") auto

declare map_entries.simps [simp del]

definition memory_tag :: "memory \<Rightarrow> u64 \<Rightarrow> tag \<Rightarrow> mb_memory \<Rightarrow> mb_memory" where
  "memory_tag m info t s =
     (let offset = tag_offset t
      in if tag_kind t = TAG_MEMORY_MAP \<and> tag_size t \<ge> 16 then
           map_entries m info (unat (at_u32 m info (offset + 8))) (offset + tag_size t) (offset + 16) s
         else if tag_kind t = TAG_BASIC_MEMORY \<and> tag_size t \<ge> 16 \<and> mb_total s = 0 then
           (let lower = ucast (at_u32 m info (offset + 8));
                upper = ucast (at_u32 m info (offset + 12))
            in s\<lparr>mb_total := (lower + upper) * 1024\<rparr>)
         else s)"

definition memory_of :: "memory \<Rightarrow> u64 \<Rightarrow> mb_memory" where
  "memory_of m info =
     (case info_tags m info of
        None \<Rightarrow> \<lparr>mb_total = 0, mb_regions = 0\<rparr>
      | Some ts \<Rightarrow> fold (memory_tag m info) ts \<lparr>mb_total = 0, mb_regions = 0\<rparr>)"

section \<open>The ACPI root pointer\<close>

definition rsdp_usable :: "rsdp \<Rightarrow> bool" where
  "rsdp_usable r \<longleftrightarrow> rsdp_rsdt r \<noteq> 0 \<or> rsdp_xsdt r \<noteq> 0"

definition parse_rsdp :: "memory \<Rightarrow> u64 \<Rightarrow> nat \<Rightarrow> rsdp option" where
  "parse_rsdp m at len =
     (if len < 20 then None
      else if mem_bytes m at 8 \<noteq> RSDP_SIGNATURE then None
      else if sum_bytes m at 20 \<noteq> 0 then None
      else (let revision = m (at + 15);
                xsdt = (if revision \<ge> 2 \<and> len \<ge> 36 \<and> sum_bytes m at 36 = 0 then at_u64 m at 24 else 0);
                r = \<lparr>rsdp_rsdt = at_u32 m at 16, rsdp_xsdt = xsdt, rsdp_revision = revision\<rparr>
        in if rsdp_usable r then Some r else None))"

definition rsdp_tag :: "memory \<Rightarrow> u64 \<Rightarrow> tag \<Rightarrow> rsdp option \<Rightarrow> rsdp option" where
  "rsdp_tag m info t best =
     (if tag_kind t = TAG_ACPI_OLD \<or> tag_kind t = TAG_ACPI_NEW then
        (case parse_rsdp m (info + of_nat (tag_offset t + 8)) (tag_size t - 8) of
           None \<Rightarrow> best
         | Some r \<Rightarrow> if tag_kind t = TAG_ACPI_NEW \<or> best = None then Some r else best)
      else best)"

definition acpi_rsdp :: "memory \<Rightarrow> u64 \<Rightarrow> rsdp option" where
  "acpi_rsdp m info =
     (case info_tags m info of None \<Rightarrow> None | Some ts \<Rightarrow> fold (rsdp_tag m info) ts None)"

section \<open>Laying out tags\<close>

text \<open>
  An information structure written from a list of kinds and bodies: each tag is its kind, its size, its
  body, and padding to a multiple of eight bytes.
\<close>

definition tag_bytes :: "u32 \<times> u8 list \<Rightarrow> u8 list" where
  "tag_bytes = (\<lambda>(kind, body).
     le_bytes 4 kind @ le_bytes 4 (of_nat (8 + length body) :: u32) @ body @
     replicate (round_up_8 (8 + length body) - (8 + length body)) 0)"

definition end_tag :: "u8 list" where
  "end_tag = le_bytes 4 TAG_END @ le_bytes 4 (8 :: u32)"

fun tags_at :: "nat \<Rightarrow> (u32 \<times> u8 list) list \<Rightarrow> tag list" where
  "tags_at offset [] = []"
| "tags_at offset ((kind, body) # ts) =
     \<lparr>tag_kind = kind, tag_offset = offset, tag_size = 8 + length body\<rparr> #
     tags_at (offset + round_up_8 (8 + length body)) ts"

definition info_bytes :: "(u32 \<times> u8 list) list \<Rightarrow> u8 list" where
  "info_bytes ts =
     (let tags = concat (map tag_bytes ts) @ end_tag
      in le_bytes 4 (of_nat (8 + length tags) :: u32) @ le_bytes 4 (0 :: u32) @ tags)"

definition wf_tags :: "(u32 \<times> u8 list) list \<Rightarrow> bool" where
  "wf_tags ts \<longleftrightarrow> list_all (\<lambda>(kind, body). kind \<noteq> TAG_END) ts \<and> length (info_bytes ts) < 0x100000"

lemma length_tag_bytes: "length (tag_bytes (kind, body)) = round_up_8 (8 + length body)"
  using round_up_8_ge [of "8 + length body"] by (simp add: tag_bytes_def)

lemma tags_read_back:
  assumes "placed m (info + of_nat offset) (concat (map tag_bytes ts) @ end_tag)"
    and "list_all (\<lambda>(kind, body). kind \<noteq> TAG_END) ts" "length (concat (map tag_bytes ts)) < 2 ^ 31"
    and "tot = offset + length (concat (map tag_bytes ts) @ end_tag)"
  shows "tags_from m info tot offset = tags_at offset ts"
  using assms
proof (induction ts arbitrary: offset)
  case Nil
  then have "placed m (info + of_nat offset) (le_bytes 4 TAG_END)" by (simp add: end_tag_def)
  then have "at_u32 m info offset = TAG_END" unfolding at_u32_def by (rule read_le_placed) simp
  then show ?case by (subst tags_from.simps) simp
next
  case (Cons t ts)
  obtain kind body where t: "t = (kind, body)" by fastforce
  let ?n = "8 + length body"
  have n: "?n < 2 ^ 32" "unat (of_nat ?n :: u32) = ?n"
  proof -
    have "round_up_8 ?n < 2 ^ 31" using Cons.prems(3) by (simp add: t length_tag_bytes)
    then have "?n < 2 ^ 31" using round_up_8_ge [of ?n] by linarith
    then show "?n < 2 ^ 32" by simp
    then show "unat (of_nat ?n :: u32) = ?n" by (simp only: unsigned_of_nat) (simp add: take_bit_nat_eq_self)
  qed
  have p: "placed m (info + of_nat offset) (le_bytes 4 kind)"
    "placed m (info + of_nat (offset + 4)) (le_bytes 4 (of_nat ?n :: u32))"
    using Cons.prems(1) by (simp_all add: t tag_bytes_def algebra_simps)
  have k: "at_u32 m info offset = kind" unfolding at_u32_def using p(1) by (rule read_le_placed) simp
  have s: "at_u32 m info (offset + 4) = of_nat ?n" unfolding at_u32_def using p(2) by (rule read_le_placed) simp
  have s: "unat (at_u32 m info (offset + 4)) = ?n" using s n(2) by (simp only:)
  have "placed m (info + of_nat offset) (tag_bytes t @ concat (map tag_bytes ts) @ end_tag)"
    using Cons.prems(1) by (simp only: list.map concat.simps append_assoc)
  then have rest: "placed m (info + of_nat (offset + round_up_8 ?n)) (concat (map tag_bytes ts) @ end_tag)"
    unfolding placed_append by (simp add: t length_tag_bytes algebra_simps)
  have "tags_from m info tot (offset + round_up_8 ?n) = tags_at (offset + round_up_8 ?n) ts"
    using Cons.prems by (intro Cons.IH [OF rest]) (simp_all add: t length_tag_bytes)
  moreover have "offset + 8 \<le> tot" using Cons.prems(4) by (simp add: end_tag_def)
  ultimately show ?case
    using Cons.prems(2) by (subst tags_from.simps) (simp add: k s t Let_def)
qed


lemma info_read_back:
  assumes "placed m info (info_bytes ts)" "wf_tags ts" "info \<noteq> 0" "info mod 8 = 0"
  shows "info_tags m info = Some (tags_at 8 ts)"
proof -
  let ?tags = "concat (map tag_bytes ts) @ end_tag"
  let ?n = "8 + length ?tags"
  have l: "length (info_bytes ts) = ?n" by (simp add: info_bytes_def Let_def)
  have n: "16 \<le> ?n" "?n < 0x100000" using assms(2) l by (simp_all add: wf_tags_def end_tag_def)
  have u: "unat (of_nat ?n :: u32) = ?n"
    using n(2) by (simp only: unsigned_of_nat) (simp add: take_bit_nat_eq_self)
  have p: "placed m info (le_bytes 4 (of_nat ?n :: u32))" "placed m (info + of_nat 8) ?tags"
    using assms(1) by (simp_all add: info_bytes_def Let_def algebra_simps)
  have t: "at_u32 m info 0 = of_nat ?n" using read_le_placed [OF p(1)] by (simp add: at_u32_def)
  have b: "16 \<le> at_u32 m info 0" "at_u32 m info 0 < 0x100000" "unat (at_u32 m info 0) = ?n"
    using n u unfolding t word_le_nat_alt word_less_nat_alt u by simp_all
  have "tags_from m info (unat (at_u32 m info 0)) 8 = tags_at 8 ts"
    by (rule tags_read_back [OF p(2)]) (use assms(2) n(2) b(3) in \<open>simp_all add: wf_tags_def end_tag_def\<close>)
  then show ?thesis using assms(3,4) b by (simp add: info_tags_def)
qed

section \<open>A memory map\<close>

text \<open>The entries of a map: base, length and kind of each region.\<close>

definition entry_record :: "u64 \<times> u64 \<times> u32 \<Rightarrow> u8 list" where
  "entry_record = (\<lambda>(start, len, kind). le_bytes 8 start @ le_bytes 8 len @ le_bytes 4 kind @ le_bytes 4 (0 :: u32))"

definition map_body :: "(u64 \<times> u64 \<times> u32) list \<Rightarrow> u8 list" where
  "map_body es = le_bytes 4 (24 :: u32) @ le_bytes 4 (0 :: u32) @ concat (map entry_record es)"

lemma length_entry_record: "length (entry_record x) = 24"
  by (cases x) (simp add: entry_record_def)

lemma map_entries_read:
  assumes "placed m (info + of_nat at) (concat (map entry_record es))"
  shows "map_entries m info 24 (at + 24 * length es) at s = fold (\<lambda>(start, len, kind). add_region len kind) es s"
  using assms
proof (induction es arbitrary: at s)
  case Nil
  show ?case by (subst map_entries.simps) simp
next
  case (Cons x es)
  obtain start len kind where x: "x = (start, len, kind)" by (rule prod_cases3)
  have p: "placed m (info + of_nat (at + 8)) (le_bytes 8 len)" "placed m (info + of_nat (at + 16)) (le_bytes 4 kind)"
    using Cons.prems by (simp_all add: x entry_record_def algebra_simps)
  have "placed m (info + of_nat at) (entry_record x @ concat (map entry_record es))"
    using Cons.prems by (simp only: list.map concat.simps)
  then have rest: "placed m (info + of_nat (at + 24)) (concat (map entry_record es))"
    unfolding placed_append by (simp add: length_entry_record algebra_simps)
  have "at_u64 m info (at + 8) = len" unfolding at_u64_def using p(1) by (rule read_le_placed) simp
  moreover have "at_u32 m info (at + 16) = kind" unfolding at_u32_def using p(2) by (rule read_le_placed) simp
  ultimately show ?case
    using Cons.IH [OF rest, of "add_region len kind s"] by (subst map_entries.simps) (simp add: x algebra_simps)
qed

lemma add_regions:
  "unat (mb_total (fold (\<lambda>(start, len, kind). add_region len kind) es s)) =
     min (unat (mb_total s) + (\<Sum>(start, len, kind)\<leftarrow>es. if kind = MEMORY_AVAILABLE then unat len else 0)) (2 ^ 64 - 1)"
proof (induction es arbitrary: s)
  case Nil
  have "unat (mb_total s) < 2 ^ LENGTH(64)" by (rule unsigned_less)
  then show ?case by simp
next
  case (Cons x es)
  obtain start len kind where x: "x = (start, len, kind)" by (rule prod_cases3)
  have "unat (mb_total (add_region len kind s)) =
      min (unat (mb_total s) + (if kind = MEMORY_AVAILABLE then unat len else 0)) (2 ^ 64 - 1)"
  proof -
    have "unat (mb_total s) < 2 ^ LENGTH(64)" by (rule unsigned_less)
    then show ?thesis by (simp add: add_region_def unat_saturating_add)
  qed
  then show ?case using Cons.IH [of "add_region len kind s"] by (simp add: x)
qed


lemma tags_at_append:
  "tags_at offset (xs @ ys) = tags_at offset xs @ tags_at (offset + length (concat (map tag_bytes xs))) ys"
  by (induction xs arbitrary: offset) (auto simp: length_tag_bytes add.assoc)

lemma tags_at_kinds: "t \<in> set (tags_at offset ts) \<Longrightarrow> tag_kind t \<in> fst ` set ts"
  by (induction offset ts rule: tags_at.induct) auto

lemma fold_idle: "(\<And>x s. x \<in> set xs \<Longrightarrow> f x s = s) \<Longrightarrow> fold f xs s = s"
  by (induction xs arbitrary: s) simp_all

lemma other_tags:
  "TAG_MEMORY_MAP \<notin> fst ` set ts \<Longrightarrow> TAG_BASIC_MEMORY \<notin> fst ` set ts \<Longrightarrow>
    fold (memory_tag m info) (tags_at offset ts) s = s"
proof -
  assume k: "TAG_MEMORY_MAP \<notin> fst ` set ts" "TAG_BASIC_MEMORY \<notin> fst ` set ts"
  show ?thesis
  proof (rule fold_idle)
    fix t s
    assume "t \<in> set (tags_at offset ts)"
    then have "tag_kind t \<noteq> TAG_MEMORY_MAP" "tag_kind t \<noteq> TAG_BASIC_MEMORY" using tags_at_kinds k by metis+
    then show "memory_tag m info t s = s" by (simp add: memory_tag_def)
  qed
qed

section \<open>Properties\<close>




text \<open>
  C38. The copy of the root pointer that is used is the best one: the last valid tag of the new kind, or the
  first valid one of the old kind when there is no valid new one, whatever the order of the tags.
\<close>

theorem best_root_pointer:
  "acpi_rsdp m info =
     (case info_tags m info of
        None \<Rightarrow> None
      | Some ts \<Rightarrow>
          (let read = (\<lambda>kind. List.map_filter (\<lambda>t. if tag_kind t = kind
                 then parse_rsdp m (info + of_nat (tag_offset t + 8)) (tag_size t - 8) else None) ts);
               new = read TAG_ACPI_NEW; old = read TAG_ACPI_OLD
           in if new \<noteq> [] then Some (last new) else if old \<noteq> [] then Some (hd old) else None))"
proof -
  let ?p = "\<lambda>t. parse_rsdp m (info + of_nat (tag_offset t + 8)) (tag_size t - 8)"
  let ?read = "\<lambda>kind ts. List.map_filter (\<lambda>t. if tag_kind t = kind then ?p t else None) ts"
  have d: "TAG_ACPI_NEW \<noteq> TAG_ACPI_OLD" by (simp add: tag_kinds)
  have "fold (rsdp_tag m info) ts best =
      (if ?read TAG_ACPI_NEW ts \<noteq> [] then Some (last (?read TAG_ACPI_NEW ts))
       else if best \<noteq> None then best
       else if ?read TAG_ACPI_OLD ts \<noteq> [] then Some (hd (?read TAG_ACPI_OLD ts)) else None)" for ts best
  proof (induction ts arbitrary: best)
    case (Cons t ts)
    consider "tag_kind t = TAG_ACPI_NEW" | "tag_kind t = TAG_ACPI_OLD" | "tag_kind t \<noteq> TAG_ACPI_NEW" "tag_kind t \<noteq> TAG_ACPI_OLD"
      by blast
    then show ?case
    proof cases
      case 1
      then have "rsdp_tag m info t best = (case ?p t of None \<Rightarrow> best | Some r \<Rightarrow> Some r)"
        by (simp add: rsdp_tag_def split: option.split)
      with 1 d show ?thesis by (cases "?p t") (simp_all add: Cons map_filter_simps)
    next
      case 2
      with d have "rsdp_tag m info t best = (if best = None then ?p t else best)"
        by (simp add: rsdp_tag_def split: option.split)
      with 2 d show ?thesis by (cases "?p t"; cases best) (simp_all add: Cons map_filter_simps)
    next
      case 3
      then have "rsdp_tag m info t best = best" by (simp add: rsdp_tag_def)
      with 3 show ?thesis by (simp add: Cons map_filter_simps)
    qed
  qed (simp add: map_filter_simps)
  then show ?thesis by (simp add: acpi_rsdp_def Let_def split: option.split)
qed

end
