(* ===== verification/Pmu_Leaf.thy ===== *)
theory Pmu_Leaf
  imports NC_Prelude
begin

text \<open>
  \<open>crates/nanochrono-core/src/pmu_leaf.rs\<close>: the CPU's description of its performance counters, and
  readings of them tagged with the type of their core.

  The lemmas show what a leaf decodes to, that only readings of one core type subtract, what the
  difference of two masked readings is, and that an event selector keeps its fields apart.
\<close>

datatype core_type = Uniform | Performance | Efficiency | UnknownCore u8

fun core_type_name :: "core_type \<Rightarrow> string" where
  "core_type_name Uniform = ''uniform''"
| "core_type_name Performance = ''p-core''"
| "core_type_name Efficiency = ''e-core''"
| "core_type_name (UnknownCore _) = ''unknown''"

fun comparable_with :: "core_type \<Rightarrow> core_type \<Rightarrow> bool" where
  "comparable_with Uniform Uniform = True"
| "comparable_with Performance Performance = True"
| "comparable_with Efficiency Efficiency = True"
| "comparable_with (UnknownCore a) (UnknownCore b) = (a = b)"
| "comparable_with _ _ = False"

record pmu_leaf =
  pmu_version :: u8
  general_counters :: u8
  general_width :: u8
  fixed_counters :: u8
  fixed_width :: u8
  events_unavailable :: u32

definition pmu_available :: "pmu_leaf \<Rightarrow> bool" where
  "pmu_available p \<longleftrightarrow> fixed_counters p > 0 \<or> general_counters p > 0"

record reading =
  reading_value :: u64
  reading_core :: core_type

definition delta_since :: "reading \<Rightarrow> reading \<Rightarrow> u64 option" where
  "delta_since r earlier =
     (if comparable_with (reading_core r) (reading_core earlier)
      then Some (reading_value r - reading_value earlier) else None)"

definition classify_core :: "u32 \<Rightarrow> u32 \<Rightarrow> u32 \<Rightarrow> core_type" where
  "classify_core max_leaf leaf7_edx leaf1a_eax =
     (if max_leaf < 7 \<or> leaf7_edx AND shl1 15 = 0 then Uniform
      else if max_leaf < 0x1A then UnknownCore 0
      else (let kind = ucast (drop_bit 24 leaf1a_eax) :: u8
        in if kind = 0x40 then Performance
           else if kind = 0x20 then Efficiency
           else UnknownCore kind))"

definition decode_pmu_leaf :: "u32 \<Rightarrow> u32 \<Rightarrow> u32 \<Rightarrow> pmu_leaf" where
  "decode_pmu_leaf eax ebx edx =
     (let version = ucast (eax AND 0xFF) :: u8
      in \<lparr>pmu_version = version,
          general_counters = ucast (drop_bit 8 eax AND 0xFF),
          general_width = ucast (drop_bit 16 eax AND 0xFF),
          fixed_counters = (if version \<ge> 2 then ucast (edx AND 0x1F) else 0),
          fixed_width = (if version \<ge> 2 then ucast (drop_bit 5 edx AND 0xFF) else 0),
          events_unavailable =
            (let enumerated = drop_bit 24 eax AND 0xFF
             in if enumerated = 0 then 0
                else if enumerated \<ge> 31 then ebx
                else ebx AND (shl1 (unat enumerated) - 1))\<rparr>)"

text \<open>The shift count is taken modulo the width, as the release profile does.\<close>

definition architectural_event_available :: "pmu_leaf \<Rightarrow> u32 \<Rightarrow> bool" where
  "architectural_event_available p index \<longleftrightarrow> events_unavailable p AND shl1 (unat (index mod 32)) = 0"

definition mask_to_width :: "u64 \<Rightarrow> u8 \<Rightarrow> u64" where
  "mask_to_width raw width =
     (if width = 0 \<or> width \<ge> 64 then raw else raw AND (shl1 (unat width) - 1))"

definition amd_event_select :: "u16 \<Rightarrow> u8 \<Rightarrow> u64" where
  "amd_event_select event unit_mask =
     (ucast event AND 0xFF) OR push_bit 24 (ucast event AND 0xF00) OR push_bit 8 (ucast unit_mask)"

section \<open>Lemmas\<close>

lemma comparable_iff [simp]: "comparable_with a b \<longleftrightarrow> a = b"
  by (cases a; cases b) simp_all

lemma shl1_mask: "shl1 n - 1 = (mask n :: 'a::len word)"
  by (simp add: shl1_def mask_eq_exp_minus_1 push_bit_eq_mult)

lemma mask_to_width_take_bit: "mask_to_width raw width = (if width = 0 \<or> width \<ge> 64 then raw else take_bit (unat width) raw)"
  by (simp add: mask_to_width_def shl1_mask take_bit_eq_mask)

lemma shl1_clear: "w AND shl1 i = 0 \<longleftrightarrow> \<not> bit w i" for w :: "'a::len word"
proof -
  have "w AND shl1 i = (if bit w i then shl1 i else 0)"
    by (rule bit_eqI) (auto simp: bit_simps)
  moreover have "shl1 i \<noteq> (0 :: 'a word)" if "bit w i"
    using bit_imp_le_length [OF that] by (metis bit_0_eq bit_shl1_iff bot_apply bot_bool_def)
  ultimately show ?thesis by auto
qed

lemma unavailable_bits:
  "bit (events_unavailable (decode_pmu_leaf eax ebx edx)) i \<longleftrightarrow>
     bit ebx i \<and> (i < unat (drop_bit 24 eax AND 0xFF) \<or> 31 \<le> unat (drop_bit 24 eax AND 0xFF))"
proof -
  define n where "n = drop_bit 24 eax AND 0xFF"
  have l: "bit ebx i \<Longrightarrow> i < 32" using bit_imp_le_length [of ebx i] by simp
  have z: "n = 0 \<longleftrightarrow> unat n = 0" by (simp add: unat_eq_0)
  have g: "n \<ge> 31 \<longleftrightarrow> 31 \<le> unat n" by (simp add: word_le_nat_alt)
  have u: "events_unavailable (decode_pmu_leaf eax ebx edx) = (if n = 0 then 0 else if n \<ge> 31 then ebx else take_bit (unat n) ebx)"
    by (simp add: decode_pmu_leaf_def Let_def shl1_mask take_bit_eq_mask flip: n_def)
  show ?thesis unfolding u n_def [symmetric] using z g l by (auto simp: bit_take_bit_iff)
qed

section \<open>Properties\<close>

text \<open>
  An event counts as unavailable exactly when its bit is set and the leaf enumerates it: the reserved
  bits beyond the enumerated events never disable a counter as long as fewer than 31 are enumerated.
\<close>

theorem event_availability:
  "architectural_event_available (decode_pmu_leaf eax ebx edx) index \<longleftrightarrow>
     \<not> (bit ebx (unat (index mod 32)) \<and>
        (unat (index mod 32) < unat (drop_bit 24 eax AND 0xFF) \<or> 31 \<le> unat (drop_bit 24 eax AND 0xFF)))"
  unfolding architectural_event_available_def shl1_clear unavailable_bits ..

text \<open>
  With exactly 31 events enumerated the mask is not applied, so the reserved bit 31 disables event 31,
  which the leaf does not describe.
\<close>

lemma reserved_bit_disables:
  "\<not> architectural_event_available (decode_pmu_leaf (push_bit 24 31) (shl1 31) 0) 31"
  "architectural_event_available (decode_pmu_leaf (push_bit 24 30) (shl1 31) 0) 31"
  by code_simp+

text \<open>
  What the difference of two masked readings is: for a counter of \<open>w\<close> bits that advanced by \<open>n\<close> between
  two readings on one core type, the difference is \<open>n\<close> as long as the counter did not wrap, and \<open>2 ^ w\<close> less
  modulo \<open>2 ^ 64\<close> when it did; readings of different core types give none.
\<close>

theorem delta_of_masked_readings:
  assumes "0 < unat w" "unat w < 64" "n < 2 ^ unat w"
  shows "delta_since \<lparr>reading_value = mask_to_width (of_nat (c + n)) w, reading_core = b\<rparr>
      \<lparr>reading_value = mask_to_width (of_nat c) w, reading_core = a\<rparr> =
    (if a \<noteq> b then None
     else if c mod 2 ^ unat w + n < 2 ^ unat w then Some (of_nat n) else Some (of_nat n - 2 ^ unat w))"
proof -
  let ?W = "unat w"
  have w: "w \<noteq> 0" "\<not> w \<ge> 64" using assms(1,2) by (auto simp: word_le_nat_alt)
  have m: "mask_to_width (of_nat k) w = of_nat (k mod 2 ^ ?W)" for k :: nat
    using w by (simp add: mask_to_width_take_bit) (metis of_nat_take_bit take_bit_eq_mod)
  let ?r = "c mod 2 ^ ?W"
  have r: "?r < 2 ^ ?W" by simp
  have "(c + n) mod 2 ^ ?W = (if ?r + n < 2 ^ ?W then ?r + n else ?r + n - 2 ^ ?W)"
  proof (cases "?r + n < 2 ^ ?W")
    case True
    then have "(?r + n) mod 2 ^ ?W = ?r + n" by simp
    then show ?thesis using True by (simp add: mod_simps)
  next
    case False
    have "(?r + n - 2 ^ ?W) < 2 ^ ?W" using r assms(3) by linarith
    then have "(?r + n) mod 2 ^ ?W = ?r + n - 2 ^ ?W" using False by (simp add: le_mod_geq)
    then show ?thesis using False by (simp add: mod_simps)
  qed
  then show ?thesis unfolding delta_since_def reading.select_convs m comparable_iff by (auto simp: of_nat_diff)
qed

lemma delta_of_masked_readings_witness:
  "delta_since \<lparr>reading_value = mask_to_width 0x1000000000009 48, reading_core = Performance\<rparr>
     \<lparr>reading_value = mask_to_width 0xFFFFFFFFFFF5 48, reading_core = Performance\<rparr> = Some (20 - 2 ^ 48)"
proof -
  have u: "unat (48 :: u8) = 48" by simp
  have m: "281474976710645 mod 2 ^ 48 + 20 < (2 :: nat) ^ 48 \<longleftrightarrow> False" by simp
  show ?thesis
    using delta_of_masked_readings [of 48 20 281474976710645 Performance Performance] unfolding u m by simp
qed

text \<open>
  The fields of an event selector do not overlap: for a twelve-bit event the low byte, the unit mask and
  the extension read back from their places, and nothing else is set.
\<close>

theorem event_select_fields:
  assumes "event < 0x1000"
  shows "ucast (amd_event_select event unit_mask) = (ucast event :: u8) \<and>
    ucast (drop_bit 8 (amd_event_select event unit_mask)) = unit_mask \<and>
    drop_bit 32 (amd_event_select event unit_mask) = ucast (drop_bit 8 event) \<and>
    take_bit 16 (drop_bit 16 (amd_event_select event unit_mask)) = 0"
proof -
  have e: "bit event i \<Longrightarrow> i < 12" for i
  proof -
    assume b: "bit event i"
    have "unat event < 2 ^ 12" using assms by (simp add: word_less_nat_alt)
    then have "take_bit 12 event = event" by (rule take_bit_small)
    with b show "i < 12" by (metis bit_take_bit_iff)
  qed
  have m: "(0xFF :: u64) = mask 8" by (simp add: mask_eq_exp_minus_1)
  have f: "bit (0xF00 :: u64) i \<longleftrightarrow> 8 \<le> i \<and> i < 12" for i
  proof -
    have "(0xF00 :: u64) = push_bit 8 (mask 4)" by (simp add: mask_eq_exp_minus_1 push_bit_eq_mult)
    then show ?thesis by (simp only: bit_push_bit_iff bit_mask_iff) auto
  qed
  have u: "bit unit_mask i \<Longrightarrow> i < 8" for i using bit_imp_le_length [of unit_mask i] by simp
  have b: "bit (amd_event_select event unit_mask) i \<longleftrightarrow>
      i < 8 \<and> bit event i \<or> 32 \<le> i \<and> i < 36 \<and> bit event (i - 24) \<or> 8 \<le> i \<and> i < 16 \<and> bit unit_mask (i - 8)" for i
  proof -
    have "bit (amd_event_select event unit_mask) i \<longleftrightarrow>
        (bit event i \<and> i < 64) \<and> i < 8 \<or> (24 \<le> i \<and> i < 64) \<and> (bit event (i - 24) \<and> i - 24 < 64) \<and> 8 \<le> i - 24 \<and> i - 24 < 12 \<or>
        (8 \<le> i \<and> i < 64) \<and> bit unit_mask (i - 8) \<and> i - 8 < 64"
      unfolding amd_event_select_def m
      by (simp only: bit_or_iff bit_and_iff bit_push_bit_iff bit_ucast_iff bit_mask_iff f) auto
    moreover have "bit unit_mask (i - 8) \<Longrightarrow> i < 16" using u [of "i - 8"] by linarith
    ultimately show ?thesis by linarith
  qed
  let ?w = "amd_event_select event unit_mask"
  have "ucast ?w = (ucast event :: u8)" by (rule bit_eqI) (simp add: bit_ucast_iff b)
  moreover have "ucast (drop_bit 8 ?w) = unit_mask" by (rule bit_eqI) (simp add: bit_ucast_iff bit_drop_bit_eq b)
  moreover have "drop_bit 32 ?w = ucast (drop_bit 8 event)"
  proof (rule bit_eqI)
    fix n
    have "bit event (n + 8) \<Longrightarrow> n < 4" using e [of "n + 8"] by simp
    then show "bit (drop_bit 32 ?w) n = bit (ucast (drop_bit 8 event) :: u64) n"
      by (auto simp: bit_ucast_iff bit_drop_bit_eq b add.commute)
  qed
  moreover have "take_bit 16 (drop_bit 16 ?w) = 0"
    by (rule bit_eqI) (simp add: bit_drop_bit_eq bit_take_bit_iff b)
  ultimately show ?thesis by blast
qed

lemma event_select_fields_witness:
  "ucast (amd_event_select 0x1C0 0x0F) = (0xC0 :: u8) \<and> drop_bit 32 (amd_event_select 0x1C0 0x0F) = 1"
proof -
  have "(0x1C0 :: u16) < 0x1000" by simp
  from event_select_fields [OF this, where unit_mask = "0x0F"] show ?thesis
    by (simp add: drop_bit_eq_div)
qed

end
