(* ===== verification/Kvm_Clock.thy ===== *)
theory Kvm_Clock
  imports NC_Prelude "HOL-Library.Sublist" "HOL-Library.Monad_Syntax"
begin

text \<open>
  \<open>crates/nanochrono-core/src/kvmclock.rs\<close>: what a guest knows about its host's clock.

  The files under \<open>/sys\<close> are arguments: the text of a file if it can be read, the list of the PTP devices
  with the text of their names, and the answer of the device's query.  The process-wide cache and the
  count of queries are the state of \<open>cached\<close>.  The lemmas show that the host is asked once however
  often the cache is read, and that the offset of a pairing is exact for the times clocks can hold.
\<close>

section \<open>Text\<close>

text \<open>\<open>str::trim\<close> and \<open>to_ascii_lowercase\<close>, on the ASCII text these files hold.\<close>

definition is_blank :: "u8 \<Rightarrow> bool" where
  "is_blank b \<longleftrightarrow> b = 0x20 \<or> 0x09 \<le> b \<and> b \<le> 0x0D"

definition trim_ascii :: "u8 list \<Rightarrow> u8 list" where
  "trim_ascii s = rev (dropWhile is_blank (rev (dropWhile is_blank s)))"

definition to_lower :: "u8 \<Rightarrow> u8" where
  "to_lower b = (if 0x41 \<le> b \<and> b \<le> 0x5A then b + 0x20 else b)"

definition bytes_of :: "string \<Rightarrow> u8 list" where
  "bytes_of s = map of_char s"

fun contains_bytes :: "u8 list \<Rightarrow> u8 list \<Rightarrow> bool" where
  "contains_bytes [] needle = (needle = [])"
| "contains_bytes (b # bs) needle \<longleftrightarrow> take (length needle) (b # bs) = needle \<or> contains_bytes bs needle"

definition names_the_kvm_clock :: "u8 list \<Rightarrow> bool" where
  "names_the_kvm_clock name \<longleftrightarrow>
     (let lowered = map to_lower (trim_ascii name)
      in contains_bytes lowered (bytes_of ''kvm'') \<and> contains_bytes lowered (bytes_of ''ptp''))"

definition PARAVIRTUAL :: "u8 list list" where
  "PARAVIRTUAL = map bytes_of [''kvm-clock'', ''xen'', ''hyperv_clocksource_tsc_page'', ''vmware'']"

definition paravirtual_clocksource :: "u8 list option \<Rightarrow> u8 list option" where
  "paravirtual_clocksource file =
     do {
       content \<leftarrow> file;
       let current = trim_ascii content;
       if current \<in> set PARAVIRTUAL then Some current else None
     }"

section \<open>Finding the device\<close>

text \<open>\<open>u32::from_str\<close>: an optional plus sign and decimal digits within 32 bits.\<close>

fun digits_value :: "u8 list \<Rightarrow> nat \<Rightarrow> nat option" where
  "digits_value [] v = Some v"
| "digits_value (b # bs) v =
     (if 0x30 \<le> b \<and> b \<le> 0x39 then
        (let v = v * 10 + unat (b - 0x30) in if v < 2 ^ 32 then digits_value bs v else None)
      else None)"

definition parse_u32 :: "u8 list \<Rightarrow> u32 option" where
  "parse_u32 s =
     (let digits = (case s of b # bs \<Rightarrow> if b = 0x2B then bs else s | [] \<Rightarrow> s)
      in if digits = [] then None else map_option of_nat (digits_value digits 0))"

definition strip_prefix :: "u8 list \<Rightarrow> u8 list \<Rightarrow> u8 list option" where
  "strip_prefix p s = (if take (length p) s = p then Some (drop (length p) s) else None)"

text \<open>The entries of the directory: the file name, and the text of \<open>clock_name\<close> if it can be read.\<close>

fun kvm_ptp_index :: "(u8 list \<times> u8 list option) list \<Rightarrow> u32 option" where
  "kvm_ptp_index [] = None"
| "kvm_ptp_index ((path, name) # entries) =
     (case name of
        None \<Rightarrow> kvm_ptp_index entries
      | Some name \<Rightarrow>
          if \<not> names_the_kvm_clock name then kvm_ptp_index entries
          else Option.bind (strip_prefix (bytes_of ''ptp'') path) parse_u32)"

section \<open>Pairings\<close>

record ptp_clock_time =
  ptp_sec :: u64
  ptp_nsec :: u32

definition saturating_mul :: "u64 \<Rightarrow> u64 \<Rightarrow> u64" where
  "saturating_mul a b = (if unat a * unat b < 2 ^ 64 then a * b else - 1)"

text \<open>The seconds are a signed number; a negative one counts as zero.\<close>

definition as_ns :: "ptp_clock_time \<Rightarrow> u64" where
  "as_ns t = saturating_add (saturating_mul (if sint (ptp_sec t) < 0 then 0 else ptp_sec t) 1000000000) (ucast (ptp_nsec t))"

record ptp_offset =
  ptp_device :: ptp_clock_time
  sys_realtime :: ptp_clock_time
  sys_monoraw :: ptp_clock_time

record clock_pairing =
  host_ns :: u64
  guest_realtime_ns :: u64
  guest_monotonic_raw_ns :: u64

definition pairing_of :: "ptp_offset \<Rightarrow> clock_pairing" where
  "pairing_of reply =
     \<lparr>host_ns = as_ns (ptp_device reply), guest_realtime_ns = as_ns (sys_realtime reply),
      guest_monotonic_raw_ns = as_ns (sys_monoraw reply)\<rparr>"

text \<open>The difference of two signed readings, wrapping as the release profile does.\<close>

definition host_offset_ns :: "clock_pairing \<Rightarrow> u64" where
  "host_offset_ns p = host_ns p - guest_realtime_ns p"

section \<open>The process-wide synchronisation\<close>

record host_sync =
  sync_clocksource :: "u8 list option"
  sync_pairing :: "clock_pairing option"

record machine_files =
  current_clocksource :: "u8 list option"
  ptp_entries :: "(u8 list \<times> u8 list option) list"

text \<open>The state of the process: the cache and the number of queries; the device is a function of the query's number.\<close>

record sync_state =
  host_queries :: u32
  sync_cache :: "host_sync option"

definition read_pairing :: "machine_files \<Rightarrow> (u32 \<Rightarrow> ptp_offset option) \<Rightarrow> u32 \<Rightarrow> clock_pairing option \<times> u32" where
  "read_pairing files ask queries =
     (case kvm_ptp_index (ptp_entries files) of
        None \<Rightarrow> (None, queries)
      | Some index \<Rightarrow> (map_option pairing_of (ask index), queries + 1))"

definition host_sync_read :: "machine_files \<Rightarrow> (u32 \<Rightarrow> ptp_offset option) \<Rightarrow> u32 \<Rightarrow> host_sync \<times> u32" where
  "host_sync_read files ask queries =
     (case read_pairing files ask queries of
        (pairing, queries) \<Rightarrow>
          (\<lparr>sync_clocksource = paravirtual_clocksource (current_clocksource files), sync_pairing = pairing\<rparr>, queries))"

definition cached :: "machine_files \<Rightarrow> (u32 \<Rightarrow> ptp_offset option) \<Rightarrow> sync_state \<Rightarrow> host_sync \<times> sync_state" where
  "cached files ask st =
     (case sync_cache st of
        Some sync \<Rightarrow> (sync, st)
      | None \<Rightarrow>
          (case host_sync_read files ask (host_queries st) of
             (sync, queries) \<Rightarrow> (sync, \<lparr>host_queries = queries, sync_cache = Some sync\<rparr>)))"

definition monotonic_follows_host :: "host_sync \<Rightarrow> bool" where
  "monotonic_follows_host s \<longleftrightarrow> sync_clocksource s \<noteq> None"

datatype sync_advice = AbsoluteComparable | IntervalsSound | NoHostClock

definition advice :: "host_sync \<Rightarrow> sync_advice" where
  "advice s =
     (if sync_pairing s \<noteq> None then AbsoluteComparable
      else if monotonic_follows_host s then IntervalsSound else NoHostClock)"

section \<open>Properties\<close>

text \<open>A run of readers of the cache, each seeing the files and the device as they are then.\<close>

fun read_all :: "(machine_files \<times> (u32 \<Rightarrow> ptp_offset option)) list \<Rightarrow> sync_state \<Rightarrow> host_sync list \<times> sync_state" where
  "read_all [] st = ([], st)"
| "read_all ((files, ask) # rest) st =
     (case cached files ask st of (sync, st) \<Rightarrow> case read_all rest st of (syncs, st) \<Rightarrow> (sync # syncs, st))"

lemma read_all_cached: "sync_cache st = Some sync \<Longrightarrow> read_all calls st = (replicate (length calls) sync, st)"
  by (induction calls) (auto simp: cached_def)

text \<open>
  The host is asked at most once, and every reader sees the same answer: over any run of calls to the
  cache, whatever happens to the files and the device meanwhile, the count of queries grows by at most one
  and all results equal the first.
\<close>

theorem host_asked_once:
  "case read_all calls \<lparr>host_queries = q, sync_cache = None\<rparr> of
     (syncs, st) \<Rightarrow> (host_queries st = q \<or> host_queries st = q + 1) \<and> (\<exists>s. syncs = replicate (length calls) s)"
proof (cases calls)
  case (Cons c rest)
  obtain files ask where c: "c = (files, ask)" by fastforce
  obtain sync queries where r: "host_sync_read files ask q = (sync, queries)" by fastforce
  have "queries = q \<or> queries = q + 1"
    using r by (auto simp: host_sync_read_def read_pairing_def split: option.splits)
  then show ?thesis
    unfolding Cons c by (auto simp: cached_def r read_all_cached [where sync = sync] intro: exI [of _ sync] simp flip: replicate_Suc)
qed simp

text \<open>
  The offset of a pairing is the exact signed difference of the two clocks, for any pair of times less
  than 292 years apart in either direction.
\<close>

theorem host_offset_exact:
  assumes "\<bar>int (unat (host_ns p)) - int (unat (guest_realtime_ns p))\<bar> < 2 ^ 63"
  shows "sint (host_offset_ns p) = int (unat (host_ns p)) - int (unat (guest_realtime_ns p))"
proof -
  let ?d = "int (unat (host_ns p)) - int (unat (guest_realtime_ns p))"
  have "host_offset_ns p = word_of_int ?d" by (simp add: host_offset_ns_def)
  then have "sint (host_offset_ns p) = signed_take_bit 63 ?d" by (simp only: sint_sbintrunc') simp
  also have "\<dots> = ?d" using assms by (intro signed_take_bit_int_eq_self) auto
  finally show ?thesis .
qed

lemma host_offset_exact_witness:
  "sint (host_offset_ns \<lparr>host_ns = 1000, guest_realtime_ns = 2500, guest_monotonic_raw_ns = 7\<rparr>) = - 1500"
  using host_offset_exact [of "\<lparr>host_ns = 1000, guest_realtime_ns = 2500, guest_monotonic_raw_ns = 7\<rparr>"] by simp

end
