(* ===== verification/Ntp_Client.thy ===== *)
theory Ntp_Client
  imports NC_Prelude
begin

text \<open>
  \<open>crates/nanochrono-core/src/ntp.rs\<close>: the SNTP client.

  The resolver, the socket and the clocks are arguments.  What a peer does with a request is a function of
  the request's bytes: it fails (the send, or the reply does not come in time) or a datagram arrives.  The
  clock readings around an exchange are the fields of the attempt.  The lemmas show that a timestamp is
  converted exactly, that the offset is wrong by no more than half the round trip, which replies are
  accepted and with which error the others are refused, and which reply a query returns.
\<close>

section \<open>Timestamps\<close>

definition NTP_UNIX_DELTA :: u64 where "NTP_UNIX_DELTA = 2208988800"

definition PACKET_LEN :: nat where "PACKET_LEN = 48"

definition DEFAULT_SERVER :: string where "DEFAULT_SERVER = ''pool.ntp.org''"

definition DEFAULT_TIMEOUT_MS :: u32 where "DEFAULT_TIMEOUT_MS = 750"

text \<open>\<open>u32::from_be_bytes\<close>.\<close>

definition be_word :: "u8 list \<Rightarrow> 'a::len word" where
  "be_word bs = le_word (rev bs)"

definition ntp_timestamp_to_unix_ns :: "u8 list \<Rightarrow> u64" where
  "ntp_timestamp_to_unix_ns bytes =
     (if length bytes < 8 then 0
      else let seconds = ucast (be_word (take 4 bytes) :: u32);
               fraction = ucast (be_word (take 4 (drop 4 bytes)) :: u32)
           in if seconds < NTP_UNIX_DELTA then 0
              else (seconds - NTP_UNIX_DELTA) * 1000000000 + drop_bit 32 (fraction * 1000000000))"

section \<open>Samples\<close>

record 'r ntp_sample =
  sample_server :: string
  sample_route :: 'r
  stratum :: u8
  precision_exp :: u8
  leap_indicator :: u8
  version :: u8
  mode :: u8
  cpu_before :: u32
  cpu_after :: u32
  migrated :: bool
  local_send_unix_ns :: u64
  local_recv_unix_ns :: u64
  ntp_transmit_unix_ns :: u64
  offset_ns :: u64
  delay_ns :: u64
  socket_setup_units :: u64
  send_recv_units :: u64
  kernel_timecall_overhead_units :: u64
  api_call_overhead_units :: u64

definition offset_uncertainty_ns :: "'r ntp_sample \<Rightarrow> u64" where
  "offset_uncertainty_ns s = delay_ns s div 2"

datatype why = ReplyShorter | NotFromServer | KissOfDeath | TransmitZero | ClockStepped | NoAddressAnswered

datatype 'e ntp_error = Resolve "'e option" | Io 'e | BadResponse why

section \<open>Judging a reply\<close>

text \<open>
  \<open>finish\<close>: the fields a refused reply has already written do not matter, the sample is dropped with the
  error.  The difference of the two 128-bit numbers keeps its low 64 bits.
\<close>

definition finish :: "'r ntp_sample \<Rightarrow> u8 list \<Rightarrow> 'e ntp_error + 'r ntp_sample" where
  "finish sample packet =
     (let sample = sample\<lparr>leap_indicator := drop_bit 6 (packet ! 0) AND 0x3,
                          version := drop_bit 3 (packet ! 0) AND 0x7,
                          mode := packet ! 0 AND 0x7,
                          stratum := packet ! 1,
                          precision_exp := packet ! 3\<rparr>
      in if mode sample \<noteq> 4 \<and> mode sample \<noteq> 5 then Inl (BadResponse NotFromServer)
         else if stratum sample = 0 then Inl (BadResponse KissOfDeath)
         else let sample = sample\<lparr>ntp_transmit_unix_ns := ntp_timestamp_to_unix_ns (take 8 (drop 40 packet))\<rparr>
              in if ntp_transmit_unix_ns sample = 0 then Inl (BadResponse TransmitZero)
                 else let t1 = local_send_unix_ns sample; t3 = ntp_transmit_unix_ns sample;
                          t4 = local_recv_unix_ns sample
                      in if t4 < t1 then Inl (BadResponse ClockStepped)
                         else let delay = t4 - t1; midpoint = uint t1 + uint (delay div 2)
                              in Inr (sample\<lparr>delay_ns := delay, offset_ns := word_of_int (uint t3 - midpoint)\<rparr>))"

section \<open>Queries\<close>

text \<open>One address of the target, the clocks read around its exchange, and what becomes of a request.\<close>

record 'e attempt =
  is_ipv6 :: bool
  sent_at :: u64
  units_before :: u64
  peer :: "u8 list \<Rightarrow> 'e + u8 list"
  units_after :: u64
  received_at :: u64

text \<open>
  \<open>recv_from(&mut packet)\<close>: a datagram fills the front of the buffer and what does not fit is dropped; the
  result is the number of bytes written.
\<close>

definition recv_from :: "u8 list \<Rightarrow> u8 list \<Rightarrow> nat \<times> u8 list" where
  "recv_from packet datagram =
     (let len = min (length datagram) (length packet) in (len, take len datagram @ drop len packet))"

definition CPU_UNKNOWN :: u32 where "CPU_UNKNOWN = - 1"

definition attempted :: "'e attempt \<Rightarrow> 'r ntp_sample \<Rightarrow> 'r ntp_sample" where
  "attempted a sample =
     sample\<lparr>local_send_unix_ns := sent_at a, local_recv_unix_ns := received_at a,
            send_recv_units := saturating_sub (units_after a) (units_before a)\<rparr>"

fun try_addresses ::
    "u32 \<Rightarrow> u8 list \<Rightarrow> 'e ntp_error option \<Rightarrow> 'r ntp_sample \<Rightarrow> 'e attempt list \<Rightarrow> 'e ntp_error + 'r ntp_sample" where
  "try_addresses cpu packet last_error sample [] =
     Inl (case last_error of Some e \<Rightarrow> e | None \<Rightarrow> BadResponse NoAddressAnswered)"
| "try_addresses cpu packet last_error sample (a # addresses) =
     (let sample = attempted a sample
      in case peer a packet of
           Inl e \<Rightarrow> try_addresses cpu packet (Some (Io e)) sample addresses
         | Inr datagram \<Rightarrow>
             (case recv_from packet datagram of
                (len, packet) \<Rightarrow>
                  if PACKET_LEN \<le> len then
                    (case finish sample packet of
                       Inl e \<Rightarrow> Inl e
                     | Inr sample \<Rightarrow>
                         Inr (sample\<lparr>cpu_after := cpu,
                                     migrated := cpu_before sample \<noteq> CPU_UNKNOWN \<and> cpu \<noteq> CPU_UNKNOWN \<and>
                                                 cpu_before sample \<noteq> cpu\<rparr>))
                  else try_addresses cpu packet (Some (BadResponse ReplyShorter)) sample addresses))"

definition client_request :: "u8 list" where
  "client_request = (replicate PACKET_LEN 0)[0 := 0x23]"

definition server_or_default :: "string \<Rightarrow> string" where
  "server_or_default server = (if server = [] then DEFAULT_SERVER else server)"

definition target_of :: "string \<Rightarrow> string" where
  "target_of server = (if CHR '':'' \<in> set server then server else server @ '':123'')"

definition timeout_or_default :: "u32 \<Rightarrow> u32" where
  "timeout_or_default timeout_ms = (if timeout_ms = 0 then DEFAULT_TIMEOUT_MS else timeout_ms)"

definition empty_sample :: "'r \<Rightarrow> 'r ntp_sample" where
  "empty_sample route =
     \<lparr>sample_server = [], sample_route = route, stratum = 0, precision_exp = 0, leap_indicator = 0, version = 0,
      mode = 0, cpu_before = 0, cpu_after = 0, migrated = False, local_send_unix_ns = 0, local_recv_unix_ns = 0,
      ntp_transmit_unix_ns = 0, offset_ns = 0, delay_ns = 0, socket_setup_units = 0, send_recv_units = 0,
      kernel_timecall_overhead_units = 0, api_call_overhead_units = 0\<rparr>"

text \<open>
  The world of a query: the resolver on a target, the socket's binding and timeouts (the family and the
  milliseconds it is asked for), the processor and the counter at their readings, the two overheads.
\<close>

record 'e network =
  resolve_name :: "string \<Rightarrow> 'e + 'e attempt list"
  bind_socket :: "bool \<Rightarrow> u32 \<Rightarrow> 'e + unit"
  cpu_at_start :: u32
  cpu_at_end :: u32
  setup_start :: u64
  setup_end :: u64
  kernel_overhead :: u64
  api_overhead :: u64

definition open_socket :: "'e network \<Rightarrow> 'e attempt list \<Rightarrow> u32 \<Rightarrow> 'e + unit" where
  "open_socket net addresses timeout_ms =
     bind_socket net (case addresses of a # _ \<Rightarrow> is_ipv6 a | [] \<Rightarrow> False) timeout_ms"

definition query :: "'e network \<Rightarrow> string \<Rightarrow> u32 \<Rightarrow> 'r \<Rightarrow> 'e ntp_error + 'r ntp_sample" where
  "query net server timeout_ms route =
     (let server = server_or_default server;
          sample = (empty_sample route)\<lparr>sample_server := server, cpu_before := cpu_at_start net,
                     kernel_timecall_overhead_units := kernel_overhead net,
                     api_call_overhead_units := api_overhead net\<rparr>
      in case resolve_name net (target_of server) of
           Inl e \<Rightarrow> Inl (Resolve (Some e))
         | Inr addresses \<Rightarrow>
             (case open_socket net addresses (timeout_or_default timeout_ms) of
                Inl e \<Rightarrow> Inl (Io e)
              | Inr _ \<Rightarrow>
                  let sample = sample\<lparr>socket_setup_units := saturating_sub (setup_end net) (setup_start net)\<rparr>
                  in if addresses = [] then Inl (Resolve None)
                     else try_addresses (cpu_at_end net) client_request None sample addresses))"

section \<open>Properties\<close>

definition be_bytes :: "nat \<Rightarrow> 'a::len word \<Rightarrow> u8 list" where
  "be_bytes n w = rev (le_bytes n w)"

lemma length_be_bytes [simp]: "length (be_bytes n w) = n"
  by (simp add: be_bytes_def)

lemma be_word_be_bytes [simp]: "LENGTH('a) \<le> 8 * n \<Longrightarrow> be_word (be_bytes n w) = (w :: 'a::len word)"
  by (simp add: be_word_def be_bytes_def le_word_le_bytes)

lemma unat_u32_less: "unat (w :: u32) < 4294967296"
  using unsigned_less [of w, where 'a = nat] by simp

text \<open>
  A timestamp of the protocol is converted exactly: the 32.32 fixed-point seconds since 1900 become
  the whole nanoseconds since 1970, rounded down, and every timestamp before 1970 - which is where those
  after the rollover of 2036 land as well - becomes zero.
\<close>

theorem ntp_timestamp_exact:
  "unat (ntp_timestamp_to_unix_ns (be_bytes 4 seconds @ be_bytes 4 fraction)) =
     (if unat (seconds :: u32) < 2208988800 then 0
      else ((unat seconds - 2208988800) * 2 ^ 32 + unat (fraction :: u32)) * 10 ^ 9 div 2 ^ 32)"
proof -
  define s f where "s = unat seconds" and "f = unat fraction"
  have s: "s < 4294967296" and f: "f < 4294967296" by (simp_all add: s_def f_def unat_u32_less)
  have us: "unat (ucast seconds :: u64) = s" "unat (ucast fraction :: u64) = f"
    by (simp_all add: s_def f_def unsigned_ucast_eq take_bit_nat_eq_self unat_u32_less [THEN order_less_trans])
  have early: "(ucast seconds :: u64) < NTP_UNIX_DELTA \<longleftrightarrow> s < 2208988800"
    by (simp add: word_less_nat_alt us NTP_UNIX_DELTA_def)
  have d: "unat (ucast seconds - NTP_UNIX_DELTA :: u64) = s - 2208988800" if "\<not> s < 2208988800"
    using that early by (subst unat_sub) (simp_all add: us not_less NTP_UNIX_DELTA_def)
  have p: "unat ((ucast fraction :: u64) * 1000000000) = f * 1000000000"
    by (subst unat_mult_lem [THEN iffD1]) (use f in \<open>simp_all add: us\<close>)
  have r: "unat (drop_bit 32 ((ucast fraction :: u64) * 1000000000)) = f * 1000000000 div 4294967296"
    by (simp only: unat_drop_bit_eq p drop_bit_nat_def) simp
  have rl: "f * 1000000000 div 4294967296 < 1000000000"
    using f by (simp add: div_less_iff_less_mult)
  have "unat ((ucast seconds - NTP_UNIX_DELTA) * 1000000000 + drop_bit 32 (ucast fraction * 1000000000) :: u64) =
      (s - 2208988800) * 1000000000 + f * 1000000000 div 4294967296" if ge: "\<not> s < 2208988800"
  proof -
    have m: "unat ((ucast seconds - NTP_UNIX_DELTA :: u64) * 1000000000) = (s - 2208988800) * 1000000000"
      by (subst unat_mult_lem [THEN iffD1]) (use s ge in \<open>simp_all add: d\<close>)
    have "(s - 2208988800) * 1000000000 + f * 1000000000 div 4294967296 < 2 ^ 64" using s ge rl by simp
    then show ?thesis
      unfolding m [symmetric] r [symmetric] by (intro unat_add_lem [THEN iffD1]) simp
  qed
  moreover have "((s - 2208988800) * 2 ^ 32 + f) * 10 ^ 9 div 2 ^ 32 = (s - 2208988800) * 1000000000 + f * 1000000000 div 4294967296"
  proof -
    have "((s - 2208988800) * 2 ^ 32 + f) * 10 ^ 9 = f * 1000000000 + ((s - 2208988800) * 1000000000) * 4294967296"
      by (simp add: algebra_simps)
    then show ?thesis by (simp only: div_mult_self3) simp
  qed
  ultimately have "unat ((ucast seconds - NTP_UNIX_DELTA) * 1000000000 + drop_bit 32 (ucast fraction * 1000000000) :: u64) =
      ((s - 2208988800) * 2 ^ 32 + f) * 10 ^ 9 div 2 ^ 32" if "\<not> s < 2208988800"
    using that by (simp only: not_False_eq_True)
  then show ?thesis
    unfolding ntp_timestamp_to_unix_ns_def s_def [symmetric] f_def [symmetric]
    by (simp add: early Let_def del: power_numeral mult_numeral_left)
qed


lemma finish_accepted:
  assumes "finish sample packet = Inr result"
  shows "local_send_unix_ns sample \<le> local_recv_unix_ns sample"
    "delay_ns result = local_recv_unix_ns sample - local_send_unix_ns sample"
    "ntp_transmit_unix_ns result = ntp_timestamp_to_unix_ns (take 8 (drop 40 packet))"
    "offset_ns result = word_of_int (uint (ntp_transmit_unix_ns result) -
        (uint (local_send_unix_ns sample) + uint (delay_ns result div 2)))"
  using assms by (auto simp: finish_def Let_def not_less split: if_splits)

text \<open>
  The offset is as good as it says.  If the server stamped its reply at an instant between the request
  leaving and the reply arriving, with its clock ahead of the local one by a given number of nanoseconds
  (fewer than 292 years), then the offset of the sample differs from that number by at most the sample's
  uncertainty, half the round trip, and the nanosecond that halving an odd delay loses.
\<close>

theorem offset_error_bounded:
  assumes "finish sample packet = Inr result"
    and "uint (local_send_unix_ns sample) \<le> stamped" "stamped \<le> uint (local_recv_unix_ns sample)"
    and "uint (ntp_timestamp_to_unix_ns (take 8 (drop 40 packet))) = stamped + ahead"
    and "\<bar>ahead\<bar> + int (unat (delay_ns result)) < 2 ^ 63"
  shows "\<bar>sint (offset_ns result) - ahead\<bar> \<le> int (unat (offset_uncertainty_ns result)) + 1"
proof -
  note r = finish_accepted [OF assms(1)]
  let ?t1 = "uint (local_send_unix_ns sample)" and ?t4 = "uint (local_recv_unix_ns sample)"
  have d: "uint (delay_ns result) = ?t4 - ?t1" using r(1, 2) by (simp add: uint_minus_simple_alt word_le_def)
  define h where "h = uint (delay_ns result div 2)"
  have h: "h = (?t4 - ?t1) div 2" by (simp add: h_def uint_div_distrib d)
  define e where "e = stamped + ahead - (?t1 + h)"
  have near: "\<bar>e - ahead\<bar> \<le> (?t4 - ?t1) - h" using assms(2,3) unfolding e_def h by presburger
  then have bounds: "\<bar>e - ahead\<bar> \<le> h + 1" unfolding h by presburger
  have small: "\<bar>ahead\<bar> + (?t4 - ?t1) < 2 ^ 63" using assms(5) d by simp
  have "?t1 \<le> ?t4" using assms(2,3) by linarith
  then have range: "- (2 ^ 63) \<le> e" "e < 2 ^ 63" using near small unfolding h by linarith+
  have "offset_ns result = word_of_int e" using r(3,4) assms(4) by (simp add: e_def h_def)
  then have "sint (offset_ns result) = signed_take_bit 63 e" by (simp only: sint_sbintrunc') simp
  also have "\<dots> = e" using range by (intro signed_take_bit_int_eq_self) auto
  finally show ?thesis using bounds by (simp add: offset_uncertainty_ns_def h_def)
qed

definition sample_packet :: "u8 list" where
  "sample_packet = [0x24, 2] @ replicate 38 0 @ be_bytes 4 (2208988801 :: u32) @ be_bytes 4 (0x80000000 :: u32)"

definition timed_sample :: "unit ntp_sample" where
  "timed_sample = (empty_sample ())\<lparr>local_send_unix_ns := 1000000000, local_recv_unix_ns := 1000100000\<rparr>"

lemma offset_error_bounded_witness:
  "\<bar>sint (offset_ns (projr (finish timed_sample sample_packet :: unit ntp_error + unit ntp_sample))) - 499960000\<bar> \<le> 50001"
proof -
  let ?r = "finish timed_sample sample_packet :: unit ntp_error + unit ntp_sample"
  have f: "?r = Inr (projr ?r)" by code_simp
  have u: "offset_uncertainty_ns (projr ?r) = 50000" "delay_ns (projr ?r) = 100000" by code_simp+
  have t: "uint (local_send_unix_ns timed_sample) = 1000000000" "uint (local_recv_unix_ns timed_sample) = 1000100000"
    "uint (ntp_timestamp_to_unix_ns (take 8 (drop 40 sample_packet))) = 1500000000" by code_simp+
  show ?thesis
    using offset_error_bounded [OF f, of 1000040000 499960000] unfolding t u by simp
qed

definition failing :: "'e attempt \<Rightarrow> bool" where
  "failing a \<longleftrightarrow> (case peer a client_request of Inl _ \<Rightarrow> True | Inr _ \<Rightarrow> False)"

lemma try_addresses_after_failures:
  assumes "list_all failing failed"
  shows "\<exists>last sample'. sample_server sample' = sample_server sample \<and>
    try_addresses cpu client_request e sample (failed @ a # rest) =
    try_addresses cpu client_request last sample' (a # rest)"
  using assms
proof (induction failed arbitrary: e sample)
  case (Cons b failed)
  then obtain x where "peer b client_request = Inl x" by (auto simp: failing_def split: sum.splits)
  moreover obtain last sample' where "sample_server sample' = sample_server (attempted b sample)"
    "try_addresses cpu client_request (Some (Io x)) (attempted b sample) (failed @ a # rest) =
      try_addresses cpu client_request last sample' (a # rest)"
    using Cons by auto
  ultimately show ?case by (intro exI [of _ last] exI [of _ sample']) (simp add: attempted_def)
qed auto

lemma length_client_request [simp]: "length client_request = 48"
  by (simp add: client_request_def PACKET_LEN_def)

lemma recv_whole: "48 \<le> length d \<Longrightarrow> recv_from client_request d = (48, take 48 d)"
  by (simp add: recv_from_def)

text \<open>
  C36. The reply that counts: when the addresses before one fail, and that one sends a whole reply to the
  client's request, the query returns what that reply is judged to be, and no later address is asked.
\<close>

theorem query_result:
  fixes route :: 'r and net :: "'e network"
  assumes "resolve_name net (target_of (server_or_default server)) = Inr (failed @ a # rest)"
    and "open_socket net (failed @ a # rest) (timeout_or_default timeout_ms) = Inr ()"
    and "list_all failing failed" and "peer a client_request = Inr reply" and "48 \<le> length reply"
  shows "\<exists>sample. local_send_unix_ns sample = sent_at a \<and> local_recv_unix_ns sample = received_at a \<and>
     sample_server sample = server_or_default server \<and>
     (case query net server timeout_ms route of
        Inl e \<Rightarrow> finish sample (take 48 reply) = Inl e
      | Inr result \<Rightarrow> \<exists>judged. finish sample (take 48 reply) = (Inr judged :: 'e ntp_error + 'r ntp_sample) \<and>
          offset_ns result = offset_ns judged \<and> delay_ns result = delay_ns judged)"
proof -
  define s0 :: "'r ntp_sample" where "s0 = (empty_sample route)\<lparr>sample_server := server_or_default server,
     cpu_before := cpu_at_start net, kernel_timecall_overhead_units := kernel_overhead net,
     api_call_overhead_units := api_overhead net,
     socket_setup_units := saturating_sub (setup_end net) (setup_start net)\<rparr>"
  have q: "query net server timeout_ms route = try_addresses (cpu_at_end net) client_request None s0 (failed @ a # rest)"
    using assms(1,2) by (simp add: query_def Let_def s0_def)
  obtain e s where s: "query net server timeout_ms route = try_addresses (cpu_at_end net) client_request e s (a # rest)"
      "sample_server s = server_or_default server"
    using try_addresses_after_failures [OF assms(3), of s0 "cpu_at_end net" None a rest] unfolding q
    by (auto simp: s0_def)
  have r: "try_addresses (cpu_at_end net) client_request e s (a # rest) =
      (case finish (attempted a s) (take 48 reply) of
         Inl e \<Rightarrow> Inl e
       | Inr sample \<Rightarrow> Inr (sample\<lparr>cpu_after := cpu_at_end net,
            migrated := cpu_before sample \<noteq> CPU_UNKNOWN \<and> cpu_at_end net \<noteq> CPU_UNKNOWN \<and>
                        cpu_before sample \<noteq> cpu_at_end net\<rparr>))"
    by (simp add: assms(4,5) recv_whole PACKET_LEN_def Let_def)
  show ?thesis
    by (rule exI [of _ "attempted a s"], cases "finish (attempted a s) (take 48 reply) :: 'e ntp_error + 'r ntp_sample")
      (simp_all only: s r sum.case, simp_all add: attempted_def s)
qed

definition demo_network :: "unit network" where
  "demo_network =
     \<lparr>resolve_name = (\<lambda>_. Inr
        [\<lparr>is_ipv6 = False, sent_at = 0, units_before = 0, peer = (\<lambda>_. Inl ()), units_after = 9, received_at = 9\<rparr>,
         \<lparr>is_ipv6 = False, sent_at = 1000000000, units_before = 10, peer = (\<lambda>_. Inr sample_packet), units_after = 20,
          received_at = 1000100000\<rparr>]),
      bind_socket = (\<lambda>_ _. Inr ()), cpu_at_start = 1, cpu_at_end = 2, setup_start = 0, setup_end = 5,
      kernel_overhead = 3, api_overhead = 4\<rparr>"

lemma query_result_witness:
  "\<exists>sample. local_send_unix_ns sample = 1000000000 \<and> sample_server sample = ''pool.ntp.org'' \<and>
     (case query demo_network [] 0 () of
        Inl e \<Rightarrow> finish sample sample_packet = Inl e
      | Inr result \<Rightarrow> \<exists>judged. finish sample sample_packet = (Inr judged :: unit ntp_error + unit ntp_sample) \<and>
          offset_ns result = offset_ns judged)"
proof -
  let ?b = "\<lparr>is_ipv6 = False, sent_at = 0, units_before = 0, peer = (\<lambda>_. Inl ()), units_after = 9, received_at = 9\<rparr> :: unit attempt"
  let ?a = "\<lparr>is_ipv6 = False, sent_at = 1000000000, units_before = 10, peer = (\<lambda>_. Inr sample_packet), units_after = 20,
          received_at = 1000100000\<rparr> :: unit attempt"
  have p: "take 48 sample_packet = sample_packet" "48 \<le> length sample_packet" by code_simp+
  have h: "resolve_name demo_network (target_of (server_or_default [])) = Inr ([?b] @ ?a # [])"
    "open_socket demo_network ([?b] @ ?a # []) (timeout_or_default 0) = Inr ()"
    "list_all failing [?b]" "peer ?a client_request = Inr sample_packet"
    by (simp_all add: demo_network_def open_socket_def failing_def)
  show ?thesis
    using query_result [OF h p(2), of "()"] unfolding p(1)
    by (cases "query demo_network [] 0 ()") (fastforce simp: server_or_default_def DEFAULT_SERVER_def)+
qed

text \<open>
  A reply that is too short overwrites the front of the request: the next address is sent those bytes and
  not the client's request.
\<close>

lemma short_reply_becomes_request:
  assumes "peer a packet = Inr reply" "length reply < 48" "length packet = 48"
  shows "\<exists>sample'. try_addresses cpu packet e sample (a # rest) =
    try_addresses cpu (reply @ drop (length reply) packet) (Some (BadResponse ReplyShorter)) sample' rest"
proof -
  have "recv_from packet reply = (length reply, reply @ drop (length reply) packet)"
    using assms(2,3) by (simp add: recv_from_def min_def Let_def)
  then show ?thesis using assms(1,2) by (intro exI [of _ "attempted a sample"]) (simp add: PACKET_LEN_def)
qed

end
