(* ===== verification/Input_Events.thy ===== *)
theory Input_Events
  imports I2c_Hid
begin

text \<open>
  \<open>crates/nanochrono-baremetal/src/input.rs\<close>: what the input stacks deliver, turned into events.

  The bytes of the 8042 are keystrokes in one of two scan code sets, which is told from the bytes, or the
  parts of mouse packets; the reports of USB and I2C keyboards are sets of held keys, and the events are the
  differences between them.  The transfers of the USB controller are an argument, and so are the readings of
  the counter.  The lemmas show that packets and set 2 streams are decoded exactly, that the two USB devices
  are served in turn, and that the touchpad is not read more often than its rate.
\<close>

section \<open>Scan codes\<close>

definition SET2_BREAK :: u8 where "SET2_BREAK = 0xF0"

definition SET2_TO_SET1 :: "u8 list" where
  "SET2_TO_SET1 =
     [0xFF, 0x43, 0x41, 0x3F, 0x3D, 0x3B, 0x3C, 0x58, 0x64, 0x44, 0x42, 0x40, 0x3E, 0x0F, 0x29, 0x59, 0x65, 0x38,
     0x2A, 0x70, 0x1D, 0x10, 0x02, 0x5A, 0x66, 0x71, 0x2C, 0x1F, 0x1E, 0x11, 0x03, 0x5B, 0x67, 0x2E, 0x2D, 0x20,
     0x12, 0x05, 0x04, 0x5C, 0x68, 0x39, 0x2F, 0x21, 0x14, 0x13, 0x06, 0x5D, 0x69, 0x31, 0x30, 0x23, 0x22, 0x15,
     0x07, 0x5E, 0x6A, 0x72, 0x32, 0x24, 0x16, 0x08, 0x09, 0x5F, 0x6B, 0x33, 0x25, 0x17, 0x18, 0x0B, 0x0A, 0x60,
     0x6C, 0x34, 0x35, 0x26, 0x27, 0x19, 0x0C, 0x61, 0x6D, 0x73, 0x28, 0x74, 0x1A, 0x0D, 0x62, 0x6E, 0x3A, 0x36,
     0x1C, 0x1B, 0x75, 0x2B, 0x63, 0x76, 0x55, 0x56, 0x77, 0x78, 0x79, 0x7A, 0x0E, 0x7B, 0x7C, 0x4F, 0x7D, 0x4B,
     0x47, 0x7E, 0x7F, 0x6F, 0x52, 0x53, 0x50, 0x4C, 0x4D, 0x48, 0x01, 0x45, 0x57, 0x4E, 0x51, 0x4A, 0x37, 0x49,
     0x46, 0x54, 0x80, 0x81, 0x82, 0x41]"

definition HID_TO_SET1 :: "u8 list" where
  "HID_TO_SET1 =
     [0x1E, 0x30, 0x2E, 0x20, 0x12, 0x21, 0x22, 0x23, 0x17, 0x24, 0x25, 0x26, 0x32, 0x31, 0x18, 0x19, 0x10, 0x13,
     0x1F, 0x14, 0x16, 0x2F, 0x11, 0x2D, 0x15, 0x2C, 0x02, 0x03, 0x04, 0x05, 0x06, 0x07, 0x08, 0x09, 0x0A, 0x0B,
     0x1C, 0x01, 0x0E, 0x0F, 0x39, 0x0C, 0x0D, 0x1A, 0x1B, 0x2B, 0x2B, 0x27, 0x28, 0x29, 0x33, 0x34, 0x35, 0x3A,
     0x3B, 0x3C, 0x3D, 0x3E, 0x3F, 0x40, 0x41, 0x42, 0x43, 0x44, 0x57, 0x58, 0x00, 0x46, 0x00, 0x52, 0x47, 0x49,
     0x53, 0x4F, 0x51, 0x4D, 0x4B, 0x50, 0x48, 0x45]"

definition HID_FIRST_USAGE :: u8 where "HID_FIRST_USAGE = 0x04"

definition get_or :: "u8 list \<Rightarrow> u8 \<Rightarrow> u8 \<Rightarrow> u8" where
  "get_or table i fallback = (case get_at table (unat i) of Some v \<Rightarrow> v | None \<Rightarrow> fallback)"

definition hid_to_scancode :: "u8 \<Rightarrow> u8" where
  "hid_to_scancode usage = get_or HID_TO_SET1 (usage - HID_FIRST_USAGE) 0"

definition translate_set2 :: "u8 \<Rightarrow> u8" where
  "translate_set2 code = get_or SET2_TO_SET1 code code"

section \<open>Events\<close>

datatype pointer_kind = PtrStandard | PtrWheel | PtrFiveButton | PtrUsb | PtrI2cHid | PtrNone

fun pointer_name :: "pointer_kind \<Rightarrow> string" where
  "pointer_name PtrStandard = ''ps/2 (3-byte)''"
| "pointer_name PtrWheel = ''ps/2 wheel (4-byte)''"
| "pointer_name PtrFiveButton = ''ps/2 5-button (4-byte)''"
| "pointer_name PtrUsb = ''usb hid boot''"
| "pointer_name PtrI2cHid = ''i2c-hid touchpad''"
| "pointer_name PtrNone = ''none''"

fun kind_packet_len :: "pointer_kind \<Rightarrow> nat" where
  "kind_packet_len PtrStandard = 3"
| "kind_packet_len PtrWheel = 4"
| "kind_packet_len PtrFiveButton = 4"
| "kind_packet_len PtrUsb = 0"
| "kind_packet_len PtrI2cHid = 0"
| "kind_packet_len PtrNone = 0"

record motion =
  dx :: u32
  dy :: u32
  wheel :: u32
  left :: bool
  right :: bool
  middle :: bool

datatype event = Key u8 bool | Motion motion

section \<open>The state\<close>

record usb_input =
  usb_keyboard :: "nat option"
  usb_pointer :: "nat option"
  previous :: "u8 list"
  next_device :: nat

definition RECENT_BYTES :: nat where "RECENT_BYTES = 8"
definition TOUCHPAD_POLL_HZ :: u64 where "TOUCHPAD_POLL_HZ = 250"

record 'b input =
  pointer :: pointer_kind
  packet :: "u8 list"
  packet_len :: nat
  keyboard :: bool
  usb :: "usb_input option"
  i2c :: "'b i2c_hid option"
  i2c_next :: u64
  i2c_interval :: u64
  recent :: "u8 list"
  recent_len :: nat
  i2c_previous :: "u8 list"
  set2 :: bool
  set2_break :: bool

definition input_new :: "u64 \<Rightarrow> 'b input" where
  "input_new ticks_per_us =
     \<lparr>pointer = PtrNone, packet = replicate 4 0, packet_len = 0, keyboard = False, usb = None, i2c = None,
      i2c_next = 0, i2c_interval = max ticks_per_us 1 * 1000000 div TOUCHPAD_POLL_HZ,
      recent = replicate RECENT_BYTES 0, recent_len = 0, i2c_previous = replicate 8 0,
      set2 = False, set2_break = False\<rparr>"

section \<open>The 8042\<close>

definition remember :: "u8 \<Rightarrow> 'b input \<Rightarrow> 'b input" where
  "remember byte st =
     (if recent_len st = RECENT_BYTES
      then st\<lparr>recent := (rotate1 (recent st))[RECENT_BYTES - 1 := byte]\<rparr>
      else st\<lparr>recent := (recent st)[recent_len st := byte], recent_len := recent_len st + 1\<rparr>)"

definition recent_bytes :: "'b input \<Rightarrow> u8 list" where
  "recent_bytes st = take (recent_len st) (recent st)"

definition keystroke :: "u8 \<Rightarrow> 'b input \<Rightarrow> event option \<times> 'b input" where
  "keystroke byte st =
     (if set2_break st then (Some (Key (translate_set2 byte) False), st\<lparr>set2_break := False\<rparr>)
      else if byte = SET2_BREAK then (None, st\<lparr>set2 := True, set2_break := True\<rparr>)
      else if set2 st then (Some (Key (translate_set2 byte) True), st)
      else (Some (Key (byte AND 0x7F) (byte AND 0x80 = 0)), st))"

definition scancode_set :: "'b input \<Rightarrow> u8" where
  "scancode_set st = (if set2 st then 2 else 1)"

definition sign_extend :: "u8 \<Rightarrow> bool \<Rightarrow> u32" where
  "sign_extend v negative = (if negative then ucast v - 256 else ucast v)"

definition packet_motion :: "pointer_kind \<Rightarrow> u8 list \<Rightarrow> motion" where
  "packet_motion kind bytes =
     (let flags = bytes ! 0;
          z = bytes ! 3 AND 0x0F
      in \<lparr>dx = sign_extend (bytes ! 1) (flags AND 0x10 \<noteq> 0),
          dy = - sign_extend (bytes ! 2) (flags AND 0x20 \<noteq> 0),
          wheel = (if kind = PtrWheel \<or> kind = PtrFiveButton
                   then if z AND 0x08 \<noteq> 0 then ucast z - 16 else ucast z else 0),
          left = (flags AND 0x01 \<noteq> 0), right = (flags AND 0x02 \<noteq> 0), middle = (flags AND 0x04 \<noteq> 0)\<rparr>)"

definition accumulate :: "u8 \<Rightarrow> 'b input \<Rightarrow> event option \<times> 'b input" where
  "accumulate byte st =
     (let len = kind_packet_len (pointer st)
      in if len = 0 then (None, st)
         else if packet_len st = 0 \<and> byte AND 0x08 = 0 then (None, st)
         else let st = st\<lparr>packet := (packet st)[packet_len st := byte], packet_len := packet_len st + 1\<rparr>
              in if packet_len st < len then (None, st)
                 else let st = st\<lparr>packet_len := 0\<rparr>
                      in if packet st ! 0 AND 0xC0 \<noteq> 0 then (None, st)
                         else (Some (Motion (packet_motion (pointer st) (packet st))), st))"

section \<open>USB and I2C\<close>

definition pressed_key :: "u8 list \<Rightarrow> u8 list \<Rightarrow> u8 option" where
  "pressed_key old new =
     find (\<lambda>code. code \<noteq> 0 \<and> code \<notin> set (take 6 (drop 2 old))) (take 6 (drop 2 new))"

definition keys_changed :: "u8 list \<Rightarrow> u8 list \<Rightarrow> event option" where
  "keys_changed old new =
     (case pressed_key old new of
        Some code \<Rightarrow> Some (Key (hid_to_scancode code) True)
      | None \<Rightarrow>
          (case pressed_key new old of
             Some code \<Rightarrow> Some (Key (hid_to_scancode code) False)
           | None \<Rightarrow> None))"

text \<open>The interrupt transfers of the USB controller: the report of a device, if it has one.\<close>

type_synonym 'u usb_reports = "nat \<Rightarrow> 'u \<Rightarrow> u8 list option \<times> 'u"

definition usb_poll_keyboard :: "'u usb_reports \<Rightarrow> usb_input \<Rightarrow> 'u \<Rightarrow> event option \<times> usb_input \<times> 'u" where
  "usb_poll_keyboard reports us u =
     (case usb_keyboard us of
        None \<Rightarrow> (None, us, u)
      | Some device \<Rightarrow>
          (case reports device u of
             (None, u) \<Rightarrow> (None, us, u)
           | (Some report, u) \<Rightarrow> (keys_changed (previous us) report, us\<lparr>previous := report\<rparr>, u)))"

definition usb_motion :: "u8 list \<Rightarrow> motion" where
  "usb_motion report =
     \<lparr>dx = scast (report ! 1), dy = scast (report ! 2), wheel = scast (report ! 3),
      left = (report ! 0 AND 0x01 \<noteq> 0), right = (report ! 0 AND 0x02 \<noteq> 0), middle = (report ! 0 AND 0x04 \<noteq> 0)\<rparr>"

definition usb_poll_pointer :: "'u usb_reports \<Rightarrow> usb_input \<Rightarrow> 'u \<Rightarrow> event option \<times> usb_input \<times> 'u" where
  "usb_poll_pointer reports us u =
     (case usb_pointer us of
        None \<Rightarrow> (None, us, u)
      | Some device \<Rightarrow>
          (case reports device u of
             (None, u) \<Rightarrow> (None, us, u)
           | (Some report, u) \<Rightarrow> (Some (Motion (usb_motion report)), us, u)))"

definition usb_turn :: "'u usb_reports \<Rightarrow> usb_input \<Rightarrow> 'u \<Rightarrow> event option \<times> usb_input \<times> 'u" where
  "usb_turn reports us u =
     (let take_keyboard = (next_device us = 0);
          us = us\<lparr>next_device := next_device us XOR 1\<rparr>
      in if take_keyboard then usb_poll_keyboard reports us u else usb_poll_pointer reports us u)"

definition usb_poll :: "'u usb_reports \<Rightarrow> usb_input \<Rightarrow> 'u \<Rightarrow> event option \<times> usb_input \<times> 'u" where
  "usb_poll reports us u =
     (case usb_turn reports us u of
        (Some e, us, u) \<Rightarrow> (Some e, us, u)
      | (None, us, u) \<Rightarrow> usb_turn reports us u)"

definition still :: movement where
  "still = \<lparr>mv_dx = 0, mv_dy = 0, mv_wheel = 0, mv_left = False, mv_right = False, mv_middle = False\<rparr>"

definition movement_motion :: "movement \<Rightarrow> motion" where
  "movement_motion m =
     \<lparr>dx = mv_dx m, dy = mv_dy m, wheel = mv_wheel m, left = mv_left m, right = mv_right m, middle = mv_middle m\<rparr>"

definition report_event :: "report \<Rightarrow> 'b input \<Rightarrow> event option \<times> 'b input" where
  "report_event r st =
     (case r of
        MotionReport m \<Rightarrow> (if m = still then None else Some (Motion (movement_motion m)), st)
      | KeysReport report \<Rightarrow> (keys_changed (i2c_previous st) report, st\<lparr>i2c_previous := report\<rparr>))"

definition due :: "u64 \<Rightarrow> u64 \<Rightarrow> bool" where
  "due deadline now \<longleftrightarrow> \<not> 0 < sint (deadline - now)"

definition poll_i2c :: "'b bus \<Rightarrow> registers \<Rightarrow> u64 \<Rightarrow> 'b input \<Rightarrow> (event option \<times> 'b input) option" where
  "poll_i2c bus rd now st =
     (if \<not> due (i2c_next st) now then Some (None, st)
      else let st = st\<lparr>i2c_next := now + i2c_interval st\<rparr>
           in case i2c st of
                None \<Rightarrow> Some (None, st)
              | Some device \<Rightarrow>
                  do {
                    (r, device) \<leftarrow> I2c_Hid.poll bus rd device;
                    let st = st\<lparr>i2c := Some device\<rparr>;
                    Some (case r of None \<Rightarrow> (None, st) | Some r \<Rightarrow> report_event r st)
                  })"

section \<open>Polling\<close>

definition STATUS_OUTPUT_FULL :: u8 where "STATUS_OUTPUT_FULL = 0x01"
definition STATUS_AUX_DATA :: u8 where "STATUS_AUX_DATA = 0x20"

text \<open>What a poll reads: the status, the byte behind it, the GPIO registers and the counter.\<close>

record readings =
  status_byte :: u8
  data_byte :: u8
  gpio_now :: registers
  counter_now :: u64

definition poll_usb :: "'u usb_reports \<Rightarrow> 'b input \<Rightarrow> 'u \<Rightarrow> event option \<times> 'b input \<times> 'u" where
  "poll_usb reports st u =
     (case usb st of
        None \<Rightarrow> (None, st, u)
      | Some us \<Rightarrow> (case usb_poll reports us u of (e, us, u) \<Rightarrow> (e, st\<lparr>usb := Some us\<rparr>, u)))"

definition poll_input ::
    "'u usb_reports \<Rightarrow> 'b bus \<Rightarrow> readings \<Rightarrow> 'b input \<Rightarrow> 'u \<Rightarrow> (event option \<times> 'b input \<times> 'u) option" where
  "poll_input reports bus r st u =
     (if status_byte r AND STATUS_OUTPUT_FULL = 0
      then (case poll_usb reports st u of
              (Some e, st, u) \<Rightarrow> Some (Some e, st, u)
            | (None, st, u) \<Rightarrow> map_option (\<lambda>(e, st). (e, st, u)) (poll_i2c bus (gpio_now r) (counter_now r) st))
      else let st = remember (data_byte r) st
           in if status_byte r AND STATUS_AUX_DATA = 0
              then (case keystroke (data_byte r) st of (e, st) \<Rightarrow> Some (e, st, u))
              else (case accumulate (data_byte r) st of (e, st) \<Rightarrow> Some (e, st, u)))"

section \<open>The shape of the state\<close>

text \<open>
  What every index into the arrays of the state relies on: the buffers keep their length, the count of
  remembered bytes and of collected ones stay within them, and a packet under way began with a byte that has
  bit 3 set.
\<close>

definition input_ok :: "'b input \<Rightarrow> bool" where
  "input_ok st \<longleftrightarrow>
     length (packet st) = 4 \<and> length (recent st) = 8 \<and> recent_len st \<le> 8 \<and>
     (packet_len st = 0 \<or> packet_len st < kind_packet_len (pointer st) \<and> packet st ! 0 AND 0x08 \<noteq> 0)"

lemma remember_ok: "input_ok st \<Longrightarrow> input_ok (remember b st)"
  by (auto simp: input_ok_def remember_def RECENT_BYTES_def)

lemma keystroke_ok: "input_ok st \<Longrightarrow> input_ok (snd (keystroke b st))"
  by (auto simp: input_ok_def keystroke_def)

lemma kind_packet_len_le: "kind_packet_len k \<le> 4"
  by (cases k) simp_all

lemma accumulate_ok:
  assumes "input_ok st"
  shows "input_ok (snd (accumulate b st))"
proof (cases "kind_packet_len (pointer st) = 0 \<or> packet_len st = 0 \<and> b AND 0x08 = 0")
  case True
  then show ?thesis using assms by (auto simp: accumulate_def Let_def)
next
  case False
  have "packet_len st < 4" using assms kind_packet_len_le [of "pointer st"] False by (auto simp: input_ok_def)
  with assms False show ?thesis
    by (cases "packet_len st = 0") (auto simp: accumulate_def input_ok_def Let_def)
qed

lemma report_event_ok: "input_ok st \<Longrightarrow> input_ok (snd (report_event r st))"
  by (cases r) (simp_all add: report_event_def input_ok_def)

lemma poll_i2c_ok:
  assumes "poll_i2c bus rd now st = Some (e, st')" "input_ok st"
  shows "input_ok st'"
proof (cases "due (i2c_next st) now \<and> i2c st \<noteq> None")
  case True
  then obtain device where d: "i2c st = Some device" by blast
  obtain r device' where p: "I2c_Hid.poll bus rd device = Some (r, device')"
    using assms(1) True d by (auto simp: poll_i2c_def bind_eq_Some_conv)
  let ?st = "st\<lparr>i2c_next := now + i2c_interval st, i2c := Some device'\<rparr>"
  have "(e, st') = (case r of None \<Rightarrow> (None, ?st) | Some r \<Rightarrow> report_event r ?st)"
    using assms(1) True d p by (simp add: poll_i2c_def Let_def)
  moreover have "input_ok ?st" using assms(2) by (simp add: input_ok_def)
  ultimately show ?thesis using report_event_ok [of ?st] by (cases r) (auto simp: prod_eq_iff)
next
  case False
  then show ?thesis using assms by (auto simp: poll_i2c_def input_ok_def split: if_splits)
qed

lemma poll_input_keeps:
  assumes "poll_input reports bus r st u = Some (e, st', u')" "input_ok st"
  shows "input_ok st'"
proof (cases "status_byte r AND STATUS_OUTPUT_FULL = 0")
  case True
  have usb: "input_ok (fst (snd (poll_usb reports st u)))"
    using assms(2) by (auto simp: poll_usb_def input_ok_def split: option.split prod.split)
  obtain e1 st1 u1 where p: "poll_usb reports st u = (e1, st1, u1)" by (metis prod_cases3)
  show ?thesis
  proof (cases e1)
    case None
    then obtain e2 where "poll_i2c bus (gpio_now r) (counter_now r) st1 = Some (e2, st')"
      using assms(1) True p by (auto simp: poll_input_def)
    then show ?thesis using poll_i2c_ok usb p by fastforce
  next
    case (Some ev)
    then show ?thesis using assms(1) True p usb by (simp add: poll_input_def)
  qed
next
  case False
  then have "st' = snd (keystroke (data_byte r) (remember (data_byte r) st)) \<or> st' = snd (accumulate (data_byte r) (remember (data_byte r) st))"
    using assms(1) by (auto simp: poll_input_def Let_def split: if_splits prod.splits)
  then show ?thesis using keystroke_ok [OF remember_ok [OF assms(2)]] accumulate_ok [OF remember_ok [OF assms(2)]] by blast
qed

section \<open>Runs of bytes\<close>

fun run_bytes :: "(u8 \<Rightarrow> 'b input \<Rightarrow> event option \<times> 'b input) \<Rightarrow> u8 list \<Rightarrow> 'b input \<Rightarrow> event list \<times> 'b input" where
  "run_bytes step [] st = ([], st)"
| "run_bytes step (b # bs) st =
     (case step b st of
        (e, st) \<Rightarrow> (case run_bytes step bs st of
          (es, st) \<Rightarrow> ((case e of Some e \<Rightarrow> e # es | None \<Rightarrow> es), st)))"

lemma run_bytes_append:
  "run_bytes step (as @ bs) st =
     (case run_bytes step as st of (es, st) \<Rightarrow> case run_bytes step bs st of (fs, st) \<Rightarrow> (es @ fs, st))"
  by (induction as arbitrary: st) (simp_all split: prod.split option.split)

text \<open>A movement as a device sends it: nine-bit displacements, a four-bit wheel, three buttons.\<close>

record sent_motion =
  sent_x :: int
  sent_y :: int
  sent_wheel :: int
  sent_left :: bool
  sent_right :: bool
  sent_middle :: bool

definition sendable :: "sent_motion \<Rightarrow> bool" where
  "sendable m \<longleftrightarrow> - 256 \<le> sent_x m \<and> sent_x m < 256 \<and> - 256 \<le> sent_y m \<and> sent_y m < 256 \<and>
     - 8 \<le> sent_wheel m \<and> sent_wheel m < 8"

definition flags_of :: "sent_motion \<Rightarrow> u8" where
  "flags_of m = 0x08 OR (if sent_left m then 0x01 else 0) OR (if sent_right m then 0x02 else 0) OR
     (if sent_middle m then 0x04 else 0) OR (if sent_x m < 0 then 0x10 else 0) OR (if sent_y m < 0 then 0x20 else 0)"

definition packet_bytes :: "pointer_kind \<Rightarrow> sent_motion \<Rightarrow> u8 list" where
  "packet_bytes kind m =
     [flags_of m, word_of_int (sent_x m), word_of_int (sent_y m)] @
     (if kind = PtrStandard then [] else [word_of_int (sent_wheel m) AND 0x0F])"

definition motion_sent :: "pointer_kind \<Rightarrow> sent_motion \<Rightarrow> motion" where
  "motion_sent kind m =
     \<lparr>dx = word_of_int (sent_x m), dy = - word_of_int (sent_y m),
      wheel = (if kind = PtrStandard then 0 else word_of_int (sent_wheel m)),
      left = sent_left m, right = sent_right m, middle = sent_middle m\<rparr>"

definition ps2_pointer :: "pointer_kind \<Rightarrow> bool" where
  "ps2_pointer k \<longleftrightarrow> k = PtrStandard \<or> k = PtrWheel \<or> k = PtrFiveButton"

lemma flags_bits:
  "flags_of m AND 0x08 \<noteq> 0" "flags_of m AND 0xC0 = 0" "flags_of m AND 0x10 \<noteq> 0 \<longleftrightarrow> sent_x m < 0"
  "flags_of m AND 0x20 \<noteq> 0 \<longleftrightarrow> sent_y m < 0" "flags_of m AND 0x01 \<noteq> 0 \<longleftrightarrow> sent_left m"
  "flags_of m AND 0x02 \<noteq> 0 \<longleftrightarrow> sent_right m" "flags_of m AND 0x04 \<noteq> 0 \<longleftrightarrow> sent_middle m"
  by (cases "sent_left m"; cases "sent_right m"; cases "sent_middle m"; cases "sent_x m < 0"; cases "sent_y m < 0";
      simp add: flags_of_def)+

lemma sign_extend_int:
  assumes "- 256 \<le> x" "x < 256"
  shows "sign_extend (word_of_int x) (x < 0) = word_of_int x"
proof -
  have "uint (word_of_int x :: u8) = (if x < 0 then x + 256 else x)"
  proof (cases "x < 0")
    case True
    then have "x mod 256 = (x + 256) mod 256" by simp
    also have "\<dots> = x + 256" using assms True by (intro mod_pos_pos_trivial) auto
    finally show ?thesis using True by (simp add: uint_word_of_int)
  next
    case False
    then show ?thesis using assms by (simp add: uint_word_of_int)
  qed
  then have "(ucast (word_of_int x :: u8) :: u32) = word_of_int (if x < 0 then x + 256 else x)"
    by (simp only: ucast_eq)
  then show ?thesis by (auto simp: sign_extend_def)
qed

lemma wheel_int:
  assumes "- 8 \<le> w" "w < 8"
  shows "(let z = (word_of_int w :: u8) AND 0x0F in if z AND 0x08 \<noteq> 0 then ucast z - 16 else ucast z) = (word_of_int w :: u32)"
proof -
  have "w \<in> {-8, -7, -6, -5, -4, -3, -2, -1, 0, 1, 2, 3, 4, 5, 6, 7}" using assms unfolding insert_iff empty_iff by presburger
  then show ?thesis by (elim insertE emptyE) (simp_all add: Let_def)
qed

lemma packet_bytes_decode:
  assumes "ps2_pointer kind" "sendable m" "take (kind_packet_len kind) bytes = packet_bytes kind m"
  shows "packet_motion kind bytes = motion_sent kind m"
proof -
  have n: "i < kind_packet_len kind \<Longrightarrow> bytes ! i = packet_bytes kind m ! i" for i
    using assms(3) by (metis nth_take)
  have b: "bytes ! 0 = flags_of m" "bytes ! 1 = word_of_int (sent_x m)" "bytes ! 2 = word_of_int (sent_y m)"
    "kind \<noteq> PtrStandard \<Longrightarrow> bytes ! 3 = word_of_int (sent_wheel m) AND 0x0F"
    using assms(1) n [of 0] n [of 1] n [of 2] n [of 3] by (auto simp: ps2_pointer_def packet_bytes_def)
  show ?thesis
    unfolding packet_motion_def Let_def b(1-3)
    using assms(1,2) wheel_int [of "sent_wheel m"] b(4)
    by (auto simp: motion_sent_def flags_bits sign_extend_int sendable_def ps2_pointer_def Let_def)
qed

lemma accumulate_packet:
  assumes "ps2_pointer (pointer st)" "length (packet st) = 4" "packet_len st = 0" "sendable m"
  shows "\<exists>st'. run_bytes accumulate (packet_bytes (pointer st) m) st = ([Motion (motion_sent (pointer st) m)], st') \<and>
    pointer st' = pointer st \<and> length (packet st') = 4 \<and> packet_len st' = 0"
proof -
  obtain p0 p1 p2 p3 where p: "packet st = [p0, p1, p2, p3]"
    using assms(2) by (auto simp: length_Suc_conv numeral_eq_Suc)
  let ?x = "word_of_int (sent_x m) :: u8" and ?y = "word_of_int (sent_y m) :: u8" and ?w = "(word_of_int (sent_wheel m) :: u8) AND 0x0F"
  note d = packet_bytes_decode [OF assms(1,4)]
  show ?thesis
  proof (cases "pointer st = PtrStandard")
    case True
    have "packet_motion PtrStandard [flags_of m, ?x, ?y, p3] = motion_sent PtrStandard m"
      using d [of "[flags_of m, ?x, ?y, p3]"] True by (simp add: packet_bytes_def numeral_3_eq_3)
    then show ?thesis using True assms(3) p flags_bits [of m]
      by (simp add: packet_bytes_def accumulate_def Let_def numeral_3_eq_3 numeral_2_eq_2)
  next
    case False
    then have k: "kind_packet_len (pointer st) = 4" using assms(1) by (auto simp: ps2_pointer_def)
    have "packet_motion (pointer st) [flags_of m, ?x, ?y, ?w] = motion_sent (pointer st) m"
      using d [of "[flags_of m, ?x, ?y, ?w]"] False k by (simp add: packet_bytes_def)
    then show ?thesis using False assms(3) p flags_bits [of m] k
      by (simp add: packet_bytes_def accumulate_def Let_def eval_nat_numeral)
  qed
qed

section \<open>Properties\<close>

text \<open>
  C34. Mouse packets are decoded exactly: the bytes of any row of movements, each with nine-bit
  displacements, a four-bit wheel and three buttons, give back those movements in order - the vertical one
  turned over - and leave the driver ready for the next packet.
\<close>

theorem packets_round_trip:
  assumes "ps2_pointer (pointer st)" "length (packet st) = 4" "packet_len st = 0" "list_all sendable ms"
  shows "\<exists>st'. run_bytes accumulate (concat (map (packet_bytes (pointer st)) ms)) st =
    (map (\<lambda>m. Motion (motion_sent (pointer st) m)) ms, st') \<and> packet_len st' = 0"
  using assms
proof (induction ms arbitrary: st)
  case (Cons m ms)
  then have m: "sendable m" "list_all sendable ms" by simp_all
  obtain st1 where s: "run_bytes accumulate (packet_bytes (pointer st) m) st = ([Motion (motion_sent (pointer st) m)], st1)"
    "pointer st1 = pointer st" "length (packet st1) = 4" "packet_len st1 = 0"
    using accumulate_packet [OF Cons.prems(1-3) m(1)] by blast
  obtain st' where "run_bytes accumulate (concat (map (packet_bytes (pointer st)) ms)) st1 =
      (map (\<lambda>m. Motion (motion_sent (pointer st) m)) ms, st')" "packet_len st' = 0"
    using Cons.IH [of st1] Cons.prems(1) s m(2) by auto
  then show ?case by (simp add: run_bytes_append s(1))
qed simp

definition wheel_mouse :: "unit input" where
  "wheel_mouse = (input_new 3000)\<lparr>pointer := PtrWheel\<rparr>"

lemma packets_round_trip_witness:
  "fst (run_bytes accumulate (concat (map (packet_bytes PtrWheel)
      [\<lparr>sent_x = - 256, sent_y = 255, sent_wheel = - 8, sent_left = True, sent_right = False, sent_middle = False\<rparr>])) wheel_mouse) =
     [Motion \<lparr>dx = - 256, dy = - 255, wheel = - 8, left = True, right = False, middle = False\<rparr>]"
proof -
  let ?m = "\<lparr>sent_x = - 256, sent_y = 255, sent_wheel = - 8, sent_left = True, sent_right = False, sent_middle = False\<rparr>"
  have "ps2_pointer (pointer wheel_mouse)" "length (packet wheel_mouse) = 4" "packet_len wheel_mouse = 0" "list_all sendable [?m]"
    by (simp_all add: wheel_mouse_def input_new_def ps2_pointer_def sendable_def)
  from packets_round_trip [OF this] obtain st' where
    "run_bytes accumulate (concat (map (packet_bytes (pointer wheel_mouse)) [?m])) wheel_mouse =
      (map (\<lambda>m. Motion (motion_sent (pointer wheel_mouse) m)) [?m], st')" by blast
  moreover have "pointer wheel_mouse = PtrWheel" by (simp add: wheel_mouse_def)
  ultimately show ?thesis by (simp add: motion_sent_def)
qed

text \<open>
  C39. Every index into the driver's buffers is in range, whatever the hardware sends: a poll keeps the
  lengths of the buffers and the bounds of the two counters, and a packet is only ever under way after a
  first byte with bit 3 set.
\<close>

theorem poll_keeps_shape:
  assumes "input_ok st" "poll_input reports bus r st u = Some (e, st', u')"
  shows "input_ok st'"
  using assms(2,1) by (rule poll_input_keeps)

definition idle_readings :: "u8 \<Rightarrow> u8 \<Rightarrow> readings" where
  "idle_readings status byte = \<lparr>status_byte = status, data_byte = byte, gpio_now = (\<lambda>_. 0), counter_now = 0\<rparr>"

lemma poll_keeps_shape_witness:
  "\<exists>st'. poll_input (\<lambda>_ u. (None, u)) desk_bus (idle_readings 0x21 0x08) wheel_mouse () = Some (None, st', ()) \<and>
     input_ok st' \<and> packet_len st' = 1"
proof -
  have ok: "input_ok wheel_mouse" by (simp add: input_ok_def wheel_mouse_def input_new_def RECENT_BYTES_def)
  have "\<exists>st'. poll_input (\<lambda>_ u. (None, u)) desk_bus (idle_readings 0x21 0x08) wheel_mouse () = Some (None, st', ()) \<and>
      packet_len st' = 1"
    by (simp add: poll_input_def idle_readings_def STATUS_OUTPUT_FULL_def STATUS_AUX_DATA_def accumulate_def remember_def
        RECENT_BYTES_def wheel_mouse_def input_new_def)
  then obtain st' where st': "poll_input (\<lambda>_ u. (None, u)) desk_bus (idle_readings 0x21 0x08) wheel_mouse () = Some (None, st', ())"
    "packet_len st' = 1" by blast
  from poll_keeps_shape [OF ok st'(1)] st' show ?thesis by blast
qed

text \<open>
  The diagnostic line shows the last eight bytes: after any run of bytes from the start, what is
  remembered is the end of that run, oldest first.
\<close>

lemma remember_shifts:
  assumes "length (recent st) = 8" "recent_len st \<le> 8"
  shows "recent_bytes (remember b st) = drop (length (recent_bytes st) - 7) (recent_bytes st @ [b])"
    "length (recent (remember b st)) = 8" "recent_len (remember b st) \<le> 8"
proof -
  show "length (recent (remember b st)) = 8" "recent_len (remember b st) \<le> 8"
    using assms by (simp_all add: remember_def RECENT_BYTES_def)
  show "recent_bytes (remember b st) = drop (length (recent_bytes st) - 7) (recent_bytes st @ [b])"
  proof (cases "recent_len st = 8")
    case True
    obtain x xs where x: "recent st = x # xs" "length xs = 7" using assms(1) by (cases "recent st") auto
    have "(xs @ [x])[7 := b] = xs @ [b]" using x(2) by (simp add: list_update_append)
    then show ?thesis using True x by (simp add: remember_def recent_bytes_def RECENT_BYTES_def)
  next
    case False
    then have "recent_len st < length (recent st)" using assms by simp
    then show ?thesis using False assms
      by (simp add: remember_def recent_bytes_def RECENT_BYTES_def take_Suc_conv_app_nth)
  qed
qed

theorem recent_is_the_last_eight:
  "recent_bytes (fold remember bs (input_new ticks :: 'b input)) = drop (length bs - 8) bs"
proof -
  have "recent_bytes (fold remember bs (input_new ticks :: 'b input)) = drop (length bs - 8) bs \<and>
      length (recent (fold remember bs (input_new ticks) :: 'b input)) = 8 \<and> recent_len (fold remember bs (input_new ticks) :: 'b input) \<le> 8"
  proof (induction bs rule: rev_induct)
    case Nil
    then show ?case by (simp add: recent_bytes_def input_new_def RECENT_BYTES_def)
  next
    case (snoc b bs)
    let ?st = "fold remember bs (input_new ticks) :: 'b input"
    have s: "length (recent ?st) = 8" "recent_len ?st \<le> 8" "recent_bytes ?st = drop (length bs - 8) bs" using snoc by auto
    have "recent_bytes (remember b ?st) = drop (length bs - 7) (bs @ [b])"
    proof (cases "length bs \<le> 8")
      case True
      then show ?thesis using remember_shifts(1) [OF s(1,2), of b] s(3) by simp
    next
      case False
      then have "length (recent_bytes ?st) - 7 = 1" "length bs - 7 = Suc (length bs - 8)" using s(3) by simp_all
      then show ?thesis using remember_shifts(1) [OF s(1,2), of b] s(3) False by (simp add: drop_Suc tl_drop)
    qed
    then show ?case using remember_shifts(2,3) [OF s(1,2), of b] by simp
  qed
  then show ?thesis by blast
qed

text \<open>
  Keystrokes follow the set that the keyboard speaks.  While no break prefix has been seen, every byte is
  a set 1 code with its release bit; once one has, a stream of set 2 presses and releases is read as exactly
  those presses and releases, in the numbering of set 1.
\<close>

definition set2_bytes :: "u8 \<times> bool \<Rightarrow> u8 list" where
  "set2_bytes k = (if snd k then [fst k] else [SET2_BREAK, fst k])"

theorem keystrokes_follow_the_set:
  assumes "\<not> set2_break st" "if set2 st then list_all (\<lambda>k. fst k \<noteq> SET2_BREAK) keys else SET2_BREAK \<notin> set bytes"
  shows "if set2 st
    then run_bytes keystroke (concat (map set2_bytes keys)) st = (map (\<lambda>(code, pressed). Key (translate_set2 code) pressed) keys, st)
    else run_bytes keystroke bytes st = (map (\<lambda>b. Key (b AND 0x7F) (b AND 0x80 = 0)) bytes, st)"
proof (cases "set2 st")
  case True
  then have k: "list_all (\<lambda>k. fst k \<noteq> SET2_BREAK) keys" using assms(2) by simp
  have one: "run_bytes keystroke (set2_bytes k) st = ([Key (translate_set2 (fst k)) (snd k)], st)" if "fst k \<noteq> SET2_BREAK" for k
    using that True assms(1) by (simp add: set2_bytes_def keystroke_def)
  have "run_bytes keystroke (concat (map set2_bytes keys)) st = (map (\<lambda>(code, pressed). Key (translate_set2 code) pressed) keys, st)"
    using k by (induction keys) (simp_all add: run_bytes_append one case_prod_unfold)
  then show ?thesis using True by simp
next
  case False
  then have b: "SET2_BREAK \<notin> set bytes" using assms(2) by simp
  have "run_bytes keystroke bytes st = (map (\<lambda>b. Key (b AND 0x7F) (b AND 0x80 = 0)) bytes, st)"
    using b by (induction bytes) (use False assms(1) in \<open>auto simp: keystroke_def\<close>)
  then show ?thesis using False by simp
qed

lemma keystrokes_follow_the_set_witness:
  "run_bytes keystroke [0x16, 0xF0, 0x16] (wheel_mouse\<lparr>set2 := True\<rparr>) = ([Key 0x02 True, Key 0x02 False], wheel_mouse\<lparr>set2 := True\<rparr>)"
proof -
  have t: "translate_set2 0x16 = 0x02" by code_simp
  show ?thesis
    using keystrokes_follow_the_set [of "wheel_mouse\<lparr>set2 := True\<rparr>" "[(0x16, True), (0x16, False)]" "[]"] t
    by (simp add: wheel_mouse_def input_new_def set2_bytes_def SET2_BREAK_def)
qed

text \<open>
  The byte is not unheard of in set 1: 0xF0 there is the release of the key numbered 0x70.  It is swallowed,
  the next byte is taken for a release, and from then on the driver reads set 2.
\<close>

lemma set1_release_changes_the_set:
  "\<not> set2_break st \<Longrightarrow> keystroke 0xF0 st = (None, st\<lparr>set2 := True, set2_break := True\<rparr>)"
  by (simp add: keystroke_def SET2_BREAK_def)

text \<open>
  One change of the held keys is one event: two reports that hold the same keys give none; a press names
  a key that is newly held; and a release, given only when none is newly held, names one that was let go.
\<close>

definition held :: "u8 list \<Rightarrow> u8 set" where
  "held report = set (take 6 (drop 2 report)) - {0}"

lemma find_some_holds: "find P xs = Some x \<Longrightarrow> x \<in> set xs \<and> P x"
  by (induction xs) (auto split: if_splits)

theorem keys_changed_event:
  "(case keys_changed old new of
      None \<Rightarrow> held new = held old
    | Some (Key scancode True) \<Rightarrow> \<exists>code \<in> held new - held old. scancode = hid_to_scancode code
    | Some (Key scancode False) \<Rightarrow> held new \<subseteq> held old \<and> (\<exists>code \<in> held old - held new. scancode = hid_to_scancode code)
    | Some (Motion _) \<Rightarrow> False)"
proof -
  have none: "pressed_key a b = None \<longleftrightarrow> held b \<subseteq> held a" for a b
    by (auto simp: pressed_key_def find_None_iff held_def)
  have some: "pressed_key a b = Some c \<Longrightarrow> c \<in> held b - held a" for a b c
    using find_some_holds [of _ "take 6 (drop 2 b)" c] by (auto simp: pressed_key_def held_def)
  show ?thesis
  proof (cases "pressed_key old new")
    case unpressed: None
    then have sub: "held new \<subseteq> held old" by (simp add: none)
    show ?thesis
    proof (cases "pressed_key new old")
      case None
      then have "held old \<subseteq> held new" by (simp add: none)
      with None unpressed sub show ?thesis by (simp add: keys_changed_def)
    next
      case (Some c)
      with unpressed sub some [OF Some] show ?thesis by (auto simp: keys_changed_def)
    qed
  next
    case (Some c)
    then show ?thesis using some by (auto simp: keys_changed_def)
  qed
qed

text \<open>
  Two keys pressed between two reports give one event: the second report is stored with both, so the other
  press is never reported.
\<close>

lemma simultaneous_press_lost:
  "keys_changed (replicate 8 0) [0, 0, 4, 5, 0, 0, 0, 0] = Some (Key 0x1E True)"
  "keys_changed [0, 0, 4, 5, 0, 0, 0, 0] [0, 0, 4, 5, 0, 0, 0, 0] = None"
  by code_simp+

text \<open>
  A touchpad's report of a released button carries no movement and no button, and is dropped for that: the
  press is delivered and the release is not.
\<close>

lemma button_release_dropped: "report_event (MotionReport still) st = (None, st)"
  by (simp add: report_event_def)

text \<open>A controller that notes whom it is asked about.\<close>

definition noting :: "'u usb_reports \<Rightarrow> (nat list \<times> 'u) usb_reports" where
  "noting reports = (\<lambda>device (asked, u). case reports device u of (r, u) \<Rightarrow> (r, asked @ [device], u))"

fun usb_polls :: "'u usb_reports \<Rightarrow> nat \<Rightarrow> usb_input \<Rightarrow> 'u \<Rightarrow> usb_input \<times> 'u" where
  "usb_polls reports 0 us u = (us, u)"
| "usb_polls reports (Suc n) us u = (case usb_poll reports us u of (e, us, u) \<Rightarrow> usb_polls reports n us u)"

text \<open>The two devices in turn, beginning with the given one.\<close>

fun in_turn :: "nat \<Rightarrow> nat \<Rightarrow> nat \<Rightarrow> nat list" where
  "in_turn a b 0 = []"
| "in_turn a b (Suc n) = a # in_turn b a n"

lemma in_turn_append: "in_turn a b (m + n) = in_turn a b m @ (if even m then in_turn a b n else in_turn b a n)"
  by (induction m arbitrary: a b) simp_all

definition next_of :: "nat \<Rightarrow> nat \<Rightarrow> usb_input \<Rightarrow> nat \<times> nat" where
  "next_of kb pt us = (if next_device us = 0 then (kb, pt) else (pt, kb))"

definition both :: "nat \<Rightarrow> nat \<Rightarrow> usb_input \<Rightarrow> bool" where
  "both kb pt us \<longleftrightarrow> usb_keyboard us = Some kb \<and> usb_pointer us = Some pt \<and> next_device us \<le> 1"

lemma usb_turn_asks:
  assumes "both kb pt us" "usb_turn (noting reports) us (asked, u) = (e, us', s)"
  shows "both kb pt us' \<and> next_of kb pt us' = prod.swap (next_of kb pt us) \<and> fst s = asked @ [fst (next_of kb pt us)]"
proof -
  have n: "next_device us = 0 \<or> next_device us = 1" using assms(1) by (auto simp: both_def)
  obtain r v where r: "reports (fst (next_of kb pt us)) u = (r, v)" by (rule prod.exhaust)
  show ?thesis using n
  proof
    assume z: "next_device us = 0"
    with assms r show ?thesis
      by (cases r) (auto simp: both_def next_of_def usb_turn_def usb_poll_keyboard_def noting_def)
  next
    assume z: "next_device us = 1"
    with assms r show ?thesis
      by (cases r) (auto simp: both_def next_of_def usb_turn_def usb_poll_pointer_def noting_def)
  qed
qed

lemma usb_poll_asks:
  assumes "both kb pt us" "usb_poll (noting reports) us (asked, u) = (e, us', s)"
  shows "\<exists>n. both kb pt us' \<and> fst s = asked @ in_turn (fst (next_of kb pt us)) (snd (next_of kb pt us)) n \<and>
    next_of kb pt us' = (if even n then next_of kb pt us else prod.swap (next_of kb pt us))"
proof -
  obtain e1 us1 a1 u1 where t: "usb_turn (noting reports) us (asked, u) = (e1, us1, a1, u1)" by (metis prod_cases3 prod.exhaust)
  note one = usb_turn_asks [OF assms(1) t]
  show ?thesis
  proof (cases e1)
    case None
    then have "usb_turn (noting reports) us1 (a1, u1) = (e, us', s)" using assms(2) t by (simp add: usb_poll_def)
    note two = usb_turn_asks [OF conjunct1 [OF one] this]
    show ?thesis using one two by (intro exI [of _ 2]) (simp add: numeral_2_eq_2)
  next
    case (Some x)
    then show ?thesis using assms(2) t one by (intro exI [of _ 1]) (auto simp: usb_poll_def)
  qed
qed

text \<open>
  Neither USB device starves the other: over any run of polls, the two are asked strictly in turn, so
  between two questions to one there is exactly one to the other.
\<close>

theorem usb_devices_in_turn:
  assumes "usb_keyboard us = Some kb" "usb_pointer us = Some pt" "next_device us \<le> 1"
  shows "case usb_polls (noting reports) n us ([], u) of
    (us', asked, u') \<Rightarrow> asked = (if next_device us = 0 then in_turn kb pt (length asked) else in_turn pt kb (length asked))"
proof -
  have len: "length (in_turn a b k) = k" for a b k by (induction k arbitrary: a b) simp_all
  have "\<exists>k. fst (snd (usb_polls (noting reports) n us (asked, u))) =
      asked @ in_turn (fst (next_of kb pt us)) (snd (next_of kb pt us)) k" if "both kb pt us" for us asked u
    using that
  proof (induction n arbitrary: us asked u)
    case 0
    then show ?case by (intro exI [of _ 0]) simp
  next
    case (Suc n)
    obtain e us1 a1 u1 where p: "usb_poll (noting reports) us (asked, u) = (e, us1, a1, u1)" by (metis prod_cases3 prod.exhaust)
    from usb_poll_asks [OF Suc.prems p] obtain j where j: "both kb pt us1"
      "a1 = asked @ in_turn (fst (next_of kb pt us)) (snd (next_of kb pt us)) j"
      "next_of kb pt us1 = (if even j then next_of kb pt us else prod.swap (next_of kb pt us))" by auto
    from Suc.IH [OF j(1), of a1 u1] obtain k where
      "fst (snd (usb_polls (noting reports) n us1 (a1, u1))) = a1 @ in_turn (fst (next_of kb pt us1)) (snd (next_of kb pt us1)) k" by blast
    then show ?case using p j(2,3) in_turn_append [of "fst (next_of kb pt us)" "snd (next_of kb pt us)" j k]
      by (intro exI [of _ "j + k"]) simp
  qed
  from this [of us "[]" u] assms obtain k where
    "fst (snd (usb_polls (noting reports) n us ([], u))) = in_turn (fst (next_of kb pt us)) (snd (next_of kb pt us)) k"
    by (auto simp: both_def)
  then show ?thesis by (auto simp: case_prod_unfold next_of_def len)
qed

lemma usb_devices_in_turn_witness:
  "fst (snd (usb_polls (noting (\<lambda>d u. (if d = 7 then None else Some [0, 1, 1, 0, 0, 0, 0, 0], u))) 2
     \<lparr>usb_keyboard = Some 7, usb_pointer = Some 9, previous = replicate 8 0, next_device = 0\<rparr> ([], ()))) = [7, 9, 7, 9]"
proof -
  let ?r = "\<lambda>d u. (if d = 7 then None else Some [0, 1, 1, 0, 0, 0, 0, 0 :: u8], u)"
  let ?us = "\<lparr>usb_keyboard = Some 7, usb_pointer = Some 9, previous = replicate 8 0, next_device = 0\<rparr> :: usb_input"
  have "length (fst (snd (usb_polls (noting ?r) 2 ?us ([], ())))) = 4" by code_simp
  then show ?thesis using usb_devices_in_turn [of ?us 7 9 ?r 2 "()"] by (simp add: case_prod_unfold eval_nat_numeral)
qed

lemma not_due:
  assumes "now' - now < interval" "interval < 2 ^ 63"
  shows "\<not> due (now + interval) (now' :: u64)"
proof -
  let ?e = "now' - now"
  have e: "now + interval - now' = interval - ?e" by simp
  have u: "unat interval < 2 ^ 63" using assms(2) by (simp add: word_less_nat_alt)
  have "unat (interval - ?e) = unat interval - unat ?e" using assms(1) by (intro unat_sub) simp
  then have "0 < unat (interval - ?e)" "unat (interval - ?e) < 2 ^ 63" using assms(1) u by (simp_all add: word_less_nat_alt)
  moreover have "uint (interval - ?e) = int (unat (interval - ?e))" by simp
  moreover have "int (unat (interval - ?e)) < 2 ^ 63"
    using calculation(2) by (metis of_nat_less_iff of_nat_numeral of_nat_power)
  ultimately have "0 < uint (interval - ?e)" "uint (interval - ?e) < 2 ^ 63" by linarith+
  then show ?thesis unfolding due_def e by (simp add: sint_uint signed_take_bit_int_eq_self)
qed

text \<open>
  The touchpad is read no faster than its rate: after a poll that was due, every poll made before the
  interval has passed on the counter - counted across its wrap - leaves the bus and the state alone.
\<close>

theorem touchpad_rate_limited:
  assumes "due (i2c_next st) now" "poll_i2c bus rd now st = Some (e, st1)"
    and "i2c_interval st < 2 ^ 63" "now' - now < i2c_interval st"
  shows "poll_i2c bus rd' now' st1 = Some (None, st1)"
proof -
  have k: "i2c_next (snd (report_event r st)) = i2c_next st" for r and st :: "'a input"
    by (cases r) (simp_all add: report_event_def)
  have "i2c_next st1 = now + i2c_interval st"
  proof (cases "i2c st")
    case None
    then show ?thesis using assms(1,2) by (auto simp: poll_i2c_def Let_def)
  next
    case (Some device)
    then obtain r device' where p: "I2c_Hid.poll bus rd device = Some (r, device')"
      using assms(1,2) by (auto simp: poll_i2c_def bind_eq_Some_conv)
    let ?st = "st\<lparr>i2c_next := now + i2c_interval st, i2c := Some device'\<rparr>"
    have "(e, st1) = (case r of None \<Rightarrow> (None, ?st) | Some r \<Rightarrow> report_event r ?st)"
      using assms(1,2) Some p by (simp add: poll_i2c_def Let_def)
    then show ?thesis using k [of _ ?st] by (cases r) (auto simp: prod_eq_iff)
  qed
  then show ?thesis using not_due [OF assms(4,3)] by (simp add: poll_i2c_def)
qed

lemma touchpad_rate_limited_witness:
  "poll_i2c busy_bus (\<lambda>_. 0) 5000 ((input_new 3000 :: unit input)\<lparr>i2c_next := 12000000\<rparr>) =
     Some (None, (input_new 3000)\<lparr>i2c_next := 12000000\<rparr>)"
proof -
  let ?st = "input_new 3000 :: unit input"
  have i: "i2c_interval ?st = 12000000" "i2c_next ?st = 0" by (simp_all add: input_new_def TOUCHPAD_POLL_HZ_def)
  have d: "due (i2c_next ?st) 0" unfolding i by (simp add: due_def)
  have p: "poll_i2c busy_bus (\<lambda>_. 0) 0 ?st = Some (None, ?st\<lparr>i2c_next := 12000000\<rparr>)"
    unfolding poll_i2c_def using d i by (simp add: Let_def) (simp add: input_new_def)
  show ?thesis by (rule touchpad_rate_limited [OF d p]) (simp_all add: i)
qed

end
