(* ===== verification/Xhci_Rings.thy ===== *)
theory Xhci_Rings
  imports Pci_Bus
begin

text \<open>
  \<open>crates/nanochrono-baremetal/src/xhci.rs\<close>, the rings: transfer request blocks, the command ring and the
  transfer rings that the driver writes, and the event ring that it reads.

  Everything the driver does to the outside is a value of \<open>effect\<close>: a register write, a block stored in a
  ring, a word stored in one of the structures the controller reads.  A host says what an effect does to
  the state of the machine and what the reads of registers, of the event ring and of the report buffers
  give.  The addresses of the statics are the linker's and an argument too.

  The lemmas put a controller at the other end, the way the specification of xHCI has it - it follows a
  ring by cycle bits and through the link block - and show that each ring is a queue: however often it
  wraps, the controller gets the blocks in the order they were placed, each once, and the driver gets the
  events in the order they were posted.
\<close>

section \<open>Blocks, statics and effects\<close>

record trb =
  trb_parameter :: u64
  trb_status :: u32
  trb_control :: u32

datatype ring_id = CommandRing | TransferRing nat

datatype symbol_name =
    SymDcbaa | SymScratchpadArray | SymScratchpadPages | SymCommandRing | SymEventRing | SymTransferRings
  | SymErst | SymInputContext | SymDeviceContexts | SymBuffers

datatype effect =
    Write8 u64 u8
  | Write32 u64 u32
  | StoreTrb ring_id nat trb
  | StoreDcbaa nat u64
  | StoreScratchpad nat u64
  | StoreErst u64 u32
  | ClearInput
  | StoreInput nat u32
  | ClearContext nat
  | ClearBuffer nat

record 'd host =
  effect_on :: "effect \<Rightarrow> 'd \<Rightarrow> 'd"
  read8 :: "u64 \<Rightarrow> 'd \<Rightarrow> u8 \<times> 'd"
  read32 :: "u64 \<Rightarrow> 'd \<Rightarrow> u32 \<times> 'd"
  event_load :: "nat \<Rightarrow> 'd \<Rightarrow> trb \<times> 'd"
  buffer_load :: "nat \<Rightarrow> nat \<Rightarrow> 'd \<Rightarrow> u8 list \<times> 'd"
  symbol :: "symbol_name \<Rightarrow> u64"

definition TRB_NORMAL :: u32 where "TRB_NORMAL = 1"
definition TRB_SETUP :: u32 where "TRB_SETUP = 2"
definition TRB_DATA :: u32 where "TRB_DATA = 3"
definition TRB_STATUS :: u32 where "TRB_STATUS = 4"
definition TRB_LINK :: u32 where "TRB_LINK = 6"
definition TRB_ENABLE_SLOT :: u32 where "TRB_ENABLE_SLOT = 9"
definition TRB_ADDRESS_DEVICE :: u32 where "TRB_ADDRESS_DEVICE = 11"
definition TRB_CONFIGURE_ENDPOINT :: u32 where "TRB_CONFIGURE_ENDPOINT = 12"
definition TRB_TRANSFER_EVENT :: u32 where "TRB_TRANSFER_EVENT = 32"
definition TRB_COMMAND_COMPLETION :: u32 where "TRB_COMMAND_COMPLETION = 33"
definition TRB_CYCLE :: u32 where "TRB_CYCLE = 1"
definition TRB_TOGGLE :: u32 where "TRB_TOGGLE = 2"
definition TRB_IOC :: u32 where "TRB_IOC = 0x20"

lemmas trb_kinds =
  TRB_NORMAL_def TRB_SETUP_def TRB_DATA_def TRB_STATUS_def TRB_LINK_def TRB_ENABLE_SLOT_def
  TRB_ADDRESS_DEVICE_def TRB_CONFIGURE_ENDPOINT_def TRB_TRANSFER_EVENT_def TRB_COMMAND_COMPLETION_def

definition RING_LEN :: nat where "RING_LEN = 16"
definition MAX_DEVICES :: nat where "MAX_DEVICES = 2"

section \<open>The driver's state\<close>

record device_slot =
  ds_slot :: u8
  ds_endpoint :: u8
  ds_cycle :: u32
  ds_index :: nat
  ds_queued :: bool
  ds_ready :: bool

definition device_slot_new :: device_slot where
  "device_slot_new = \<lparr>ds_slot = 0, ds_endpoint = 0, ds_cycle = 1, ds_index = 0, ds_queued = False, ds_ready = False\<rparr>"

text \<open>The fields of the driver, and the machine it drives.\<close>

record 'd xhci =
  xhci_base :: u64
  operational :: u64
  doorbell :: u64
  runtime :: u64
  context_size :: nat
  max_ports :: u8
  command_cycle :: u32
  event_cycle :: u32
  command_index :: nat
  event_index :: nat
  xhci_devices :: "device_slot list"
  device_count :: nat
  scratchpad :: nat
  hw :: 'd

definition act :: "'d host \<Rightarrow> effect \<Rightarrow> 'd xhci \<Rightarrow> 'd xhci" where
  "act H e x = x\<lparr>hw := effect_on H e (hw x)\<rparr>"

text \<open>Two halves, the low one first.\<close>

definition write64 :: "'d host \<Rightarrow> u64 \<Rightarrow> u64 \<Rightarrow> 'd xhci \<Rightarrow> 'd xhci" where
  "write64 H a v x = act H (Write32 (a + 4) (ucast (drop_bit 32 v))) (act H (Write32 a (ucast v)) x)"

definition transfer_ring_address :: "'d host \<Rightarrow> nat \<Rightarrow> u64" where
  "transfer_ring_address H i = symbol H SymTransferRings + of_nat (i * 256)"

definition context_address :: "'d host \<Rightarrow> nat \<Rightarrow> u64" where
  "context_address H i = symbol H SymDeviceContexts + of_nat (i * 2048)"

definition buffer_address :: "'d host \<Rightarrow> nat \<Rightarrow> u64" where
  "buffer_address H i = symbol H SymBuffers + of_nat (i * 256)"

section \<open>The rings the driver writes\<close>

definition ring_doorbell :: "'d host \<Rightarrow> u8 \<Rightarrow> u32 \<Rightarrow> 'd xhci \<Rightarrow> 'd xhci" where
  "ring_doorbell H s target x = act H (Write32 (doorbell x + ucast s * 4) target) x"

definition link_trb :: "u64 \<Rightarrow> u32 \<Rightarrow> trb" where
  "link_trb start cycle =
     \<lparr>trb_parameter = start, trb_status = 0, trb_control = push_bit 10 TRB_LINK OR TRB_TOGGLE OR cycle\<rparr>"

definition wrap_command_ring :: "'d host \<Rightarrow> 'd xhci \<Rightarrow> 'd xhci" where
  "wrap_command_ring H x =
     (act H (StoreTrb CommandRing (RING_LEN - 1) (link_trb (symbol H SymCommandRing) (command_cycle x))) x)
       \<lparr>command_index := 0, command_cycle := command_cycle x XOR 1\<rparr>"

definition place_command :: "'d host \<Rightarrow> trb \<Rightarrow> 'd xhci \<Rightarrow> 'd xhci" where
  "place_command H t x =
     (let x = (if RING_LEN - 1 \<le> command_index x then wrap_command_ring H x else x);
          x = act H (StoreTrb CommandRing (command_index x) (t\<lparr>trb_control := trb_control t OR command_cycle x\<rparr>)) x
      in x\<lparr>command_index := command_index x + 1\<rparr>)"

definition set_slot :: "nat \<Rightarrow> (device_slot \<Rightarrow> device_slot) \<Rightarrow> 'd xhci \<Rightarrow> 'd xhci" where
  "set_slot i f x = x\<lparr>xhci_devices := (xhci_devices x)[i := f (xhci_devices x ! i)]\<rparr>"

definition wrap_transfer_ring :: "'d host \<Rightarrow> nat \<Rightarrow> 'd xhci \<Rightarrow> 'd xhci" where
  "wrap_transfer_ring H i x =
     set_slot i (\<lambda>s. s\<lparr>ds_index := 0, ds_cycle := ds_cycle s XOR 1\<rparr>)
       (act H (StoreTrb (TransferRing i) (RING_LEN - 1) (link_trb (transfer_ring_address H i) (ds_cycle (xhci_devices x ! i)))) x)"

definition transfer :: "'d host \<Rightarrow> nat \<Rightarrow> trb \<Rightarrow> 'd xhci \<Rightarrow> 'd xhci" where
  "transfer H i t x =
     (let x = (if RING_LEN - 1 \<le> ds_index (xhci_devices x ! i) then wrap_transfer_ring H i x else x);
          s = xhci_devices x ! i
      in set_slot i (\<lambda>s. s\<lparr>ds_index := ds_index s + 1\<rparr>)
           (act H (StoreTrb (TransferRing i) (ds_index s) (t\<lparr>trb_control := trb_control t OR ds_cycle s\<rparr>)) x))"

section \<open>The ring the driver reads\<close>

record xhci_event =
  event_kind :: u32
  event_completion :: u32
  event_parameter :: u64
  event_slot :: u8

definition event_of :: "trb \<Rightarrow> xhci_event" where
  "event_of t =
     \<lparr>event_kind = drop_bit 10 (trb_control t) AND 0x3F, event_completion = drop_bit 24 (trb_status t) AND 0xFF,
      event_parameter = trb_parameter t, event_slot = ucast (drop_bit 24 (trb_control t))\<rparr>"

definition next_event :: "'d host \<Rightarrow> 'd xhci \<Rightarrow> xhci_event option \<times> 'd xhci" where
  "next_event H x =
     (case event_load H (event_index x) (hw x) of
        (t, d) \<Rightarrow>
          let x = x\<lparr>hw := d\<rparr>
          in if trb_control t AND TRB_CYCLE \<noteq> event_cycle x then (None, x)
             else let x = x\<lparr>event_index := event_index x + 1\<rparr>;
                      x = (if RING_LEN \<le> event_index x then x\<lparr>event_index := 0, event_cycle := event_cycle x XOR 1\<rparr> else x);
                      erdp = symbol H SymEventRing + of_nat (event_index x * 16)
                  in (Some (event_of t), write64 H (runtime x + 0x20 + 0x18) (erdp OR shl1 3) x))"

text \<open>A loop that tries a bounded number of times.\<close>

function poll_loop :: "u32 \<Rightarrow> ('s \<Rightarrow> 'a option \<times> 's) \<Rightarrow> 's \<Rightarrow> 'a option \<times> 's" where
  "poll_loop n f s =
     (if n = 0 then (None, s)
      else case f s of (Some r, s) \<Rightarrow> (Some r, s) | (None, s) \<Rightarrow> poll_loop (n - 1) f s)"
  by auto
termination by (relation "measure (\<lambda>(n, f, s). unat n)") (auto simp: unat_minus_one unat_gt_0)

declare poll_loop.simps [simp del]

lemma poll_loop_keeps:
  assumes "\<And>s. P s \<Longrightarrow> P (snd (f s))" "P s"
  shows "P (snd (poll_loop n f s))"
  using assms
proof (induction n f s rule: poll_loop.induct)
  case (1 n f s)
  show ?case
  proof (cases "n = 0")
    case True
    then show ?thesis using "1.prems"(2) by (subst poll_loop.simps) simp
  next
    case False
    obtain r y where f: "f s = (r, y)" by fastforce
    then have "P y" using "1.prems" by (metis snd_conv)
    then show ?thesis using False f "1.IH" [OF False f [symmetric]] "1.prems"(1)
      by (subst poll_loop.simps) (auto split: option.split)
  qed
qed

lemma poll_loop_first:
  assumes "f s = (Some r, s')" "n \<noteq> 0"
  shows "poll_loop n f s = (Some r, s')"
  using assms by (subst poll_loop.simps) simp

lemma poll_loop_stuck:
  assumes "f s = (None, s)"
  shows "poll_loop n f s = (None, s)"
  using assms
proof (induction n f s rule: poll_loop.induct)
  case (1 n f s)
  then show ?case by (cases "n = 0") (subst poll_loop.simps; simp)+
qed

definition POLLS :: u32 where "POLLS = 10000000"

definition wait_command_event :: "'d host \<Rightarrow> 'd xhci \<Rightarrow> xhci_event option \<times> 'd xhci" where
  "wait_command_event H =
     poll_loop POLLS (\<lambda>x. case next_event H x of
        (Some e, x) \<Rightarrow> (if event_kind e = TRB_COMMAND_COMPLETION then Some e else None, x)
      | (None, x) \<Rightarrow> (None, x))"

definition command :: "'d host \<Rightarrow> u64 \<Rightarrow> u32 \<Rightarrow> u32 \<Rightarrow> 'd xhci \<Rightarrow> xhci_event option \<times> 'd xhci" where
  "command H parameter status control x =
     wait_command_event H (ring_doorbell H 0 0
       (place_command H \<lparr>trb_parameter = parameter, trb_status = status, trb_control = control\<rparr> x))"

definition wait_event :: "'d host \<Rightarrow> u32 \<Rightarrow> 'd xhci \<Rightarrow> (u32 \<times> u64) option \<times> 'd xhci" where
  "wait_event H kind =
     poll_loop POLLS (\<lambda>x. case next_event H x of
        (Some e, x) \<Rightarrow> (if event_kind e = kind then Some (event_completion e, event_parameter e) else None, x)
      | (None, x) \<Rightarrow> (None, x))"

section \<open>A ring as the controller reads it\<close>

text \<open>The type of a block, the cycle bit of it, and the block without that bit.\<close>

definition trb_kind :: "trb \<Rightarrow> u32" where
  "trb_kind t = drop_bit 10 (trb_control t) AND 0x3F"

definition cycle_of :: "trb \<Rightarrow> u32" where
  "cycle_of t = trb_control t AND TRB_CYCLE"

definition without_cycle :: "trb \<Rightarrow> trb" where
  "without_cycle t = t\<lparr>trb_control := trb_control t AND NOT TRB_CYCLE\<rparr>"

definition plain_trb :: "trb \<Rightarrow> bool" where
  "plain_trb t \<longleftrightarrow> cycle_of t = 0 \<and> trb_kind t \<noteq> TRB_LINK"

text \<open>
  A reader at an entry, with the cycle it expects: an entry of another cycle is not there yet, a link block
  leads back to the start and toggles the cycle.
\<close>

definition ring_take :: "u64 \<Rightarrow> trb list \<Rightarrow> nat \<times> u32 \<Rightarrow> (trb \<times> nat \<times> u32) option" where
  "ring_take start mem pos =
     (case pos of (i, c) \<Rightarrow>
        if cycle_of (mem ! i) \<noteq> c then None
        else if trb_kind (mem ! i) \<noteq> TRB_LINK then Some (without_cycle (mem ! i), i + 1, c)
        else if trb_parameter (mem ! i) \<noteq> start then None
        else (let c = (if trb_control (mem ! i) AND TRB_TOGGLE \<noteq> 0 then c XOR 1 else c)
              in if cycle_of (mem ! 0) \<noteq> c then None else Some (without_cycle (mem ! 0), 1, c)))"

text \<open>What placing a block stores, and where it leaves the writer.\<close>

definition ring_push :: "u64 \<Rightarrow> trb \<Rightarrow> nat \<times> u32 \<Rightarrow> (nat \<times> trb) list \<times> nat \<times> u32" where
  "ring_push start t pos =
     (case pos of (i, c) \<Rightarrow>
        if RING_LEN - 1 \<le> i
        then ([(RING_LEN - 1, link_trb start c), (0, t\<lparr>trb_control := trb_control t OR (c XOR 1)\<rparr>)], 1, c XOR 1)
        else ([(i, t\<lparr>trb_control := trb_control t OR c\<rparr>)], i + 1, c))"

definition stored_in :: "(nat \<times> trb) list \<Rightarrow> trb list \<Rightarrow> trb list" where
  "stored_in ss mem = foldl (\<lambda>m (i, t). m[i := t]) mem ss"

text \<open>
  The entries before the writer carry its cycle, the others the opposite one; between the reader and the
  writer lie the blocks not yet taken, in one piece, or in two when the writer has gone through the link.
\<close>

definition ring_ok :: "u64 \<Rightarrow> trb list \<Rightarrow> nat \<times> u32 \<Rightarrow> nat \<times> u32 \<Rightarrow> trb list \<Rightarrow> bool" where
  "ring_ok start mem wr rd pending \<longleftrightarrow>
     (case (wr, rd) of ((p, pc), (q, qc)) \<Rightarrow>
        length mem = 16 \<and> p \<le> 15 \<and> q \<le> 15 \<and> (pc = 0 \<or> pc = 1) \<and>
        (\<forall>i<16. cycle_of (mem ! i) = (if i < p then pc else pc XOR 1)) \<and>
        (\<forall>i<15. trb_kind (mem ! i) \<noteq> TRB_LINK) \<and>
        (if qc = pc then q \<le> p \<and> pending = map (\<lambda>i. without_cycle (mem ! i)) [q..<p]
         else qc = pc XOR 1 \<and> p \<le> q \<and> mem ! 15 = link_trb start qc \<and>
           pending = map (\<lambda>i. without_cycle (mem ! i)) ([q..<15] @ [0..<p])))"

lemma cycle_bits:
  assumes "c = 0 \<or> c = 1" "cycle_of t = 0"
  shows "cycle_of (t\<lparr>trb_control := trb_control t OR c\<rparr>) = c"
    "without_cycle (t\<lparr>trb_control := trb_control t OR c\<rparr>) = t"
    "trb_kind (t\<lparr>trb_control := trb_control t OR c\<rparr>) = trb_kind t"
proof -
  have z: "trb_control t AND 1 = 0" using assms(2) by (simp add: cycle_of_def TRB_CYCLE_def)
  show "cycle_of (t\<lparr>trb_control := trb_control t OR c\<rparr>) = c"
    using assms(1) z by (auto simp: cycle_of_def TRB_CYCLE_def bit.conj_disj_distrib2)
  have n: "trb_control t AND NOT 1 = trb_control t"
    using z by (intro bit_word_eqI) (auto simp: bit_simps and_one_eq bit_0)
  show "without_cycle (t\<lparr>trb_control := trb_control t OR c\<rparr>) = t"
    using assms(1) n by (auto simp: without_cycle_def TRB_CYCLE_def bit.conj_disj_distrib2)
  show "trb_kind (t\<lparr>trb_control := trb_control t OR c\<rparr>) = trb_kind t"
    using assms(1) by (auto simp: trb_kind_def drop_bit_or)
qed

lemma link_bits:
  assumes "c = 0 \<or> c = 1"
  shows "cycle_of (link_trb start c) = c" "trb_kind (link_trb start c) = TRB_LINK"
    "trb_control (link_trb start c) AND TRB_TOGGLE \<noteq> 0" "trb_parameter (link_trb start c) = start"
  using assms by (auto simp: link_trb_def cycle_of_def trb_kind_def TRB_LINK_def TRB_TOGGLE_def TRB_CYCLE_def)

lemma ring_push_ok:
  assumes "ring_ok start mem wr rd pending" "plain_trb t" "length pending < 15"
  shows "case ring_push start t wr of (ss, wr') \<Rightarrow> ring_ok start (stored_in ss mem) wr' rd (pending @ [t])"
proof -
  obtain p pc q qc where w: "wr = (p, pc)" "rd = (q, qc)" by fastforce
  have r: "length mem = 16" "p \<le> 15" "q \<le> 15" "pc = 0 \<or> pc = 1"
    "\<And>i. i < 16 \<Longrightarrow> cycle_of (mem ! i) = (if i < p then pc else pc XOR 1)"
    "\<And>i. i < 15 \<Longrightarrow> trb_kind (mem ! i) \<noteq> TRB_LINK"
    "qc = pc \<and> q \<le> p \<and> pending = map (\<lambda>i. without_cycle (mem ! i)) [q..<p] \<or>
     qc = pc XOR 1 \<and> qc \<noteq> pc \<and> p \<le> q \<and> mem ! 15 = link_trb start qc \<and>
       pending = map (\<lambda>i. without_cycle (mem ! i)) ([q..<15] @ [0..<p])"
    using assms(1) unfolding ring_ok_def w by (auto split: if_splits)
  have flip: "pc XOR 1 = 0 \<or> pc XOR 1 = 1" "pc XOR 1 \<noteq> pc" "pc XOR 1 XOR 1 = pc" using r(4) by auto
  have t: "cycle_of t = 0" "trb_kind t \<noteq> TRB_LINK" using assms(2) by (simp_all add: plain_trb_def)
  note bits = cycle_bits [OF r(4) t(1)] and fbits = cycle_bits [OF flip(1) t(1)]
  show ?thesis
  proof (cases "15 \<le> p")
    case True
    with r(2) have p: "p = 15" by simp
    have q: "qc = pc" "0 < q" "pending = map (\<lambda>i. without_cycle (mem ! i)) [q..<15]"
      using r(7) assms(3) p r(3) by auto
    let ?m = "mem[15 := link_trb start pc, 0 := t\<lparr>trb_control := trb_control t OR (pc XOR 1)\<rparr>]"
    have "cycle_of (?m ! i) = (if i < 1 then pc XOR 1 else pc)" if "i < 16" for i
      using that r(1,5) p by (auto simp: nth_list_update fbits link_bits [OF r(4)])
    moreover have "trb_kind (?m ! i) \<noteq> TRB_LINK" if "i < 15" for i
      using that r(1,6) t(2) by (auto simp: nth_list_update fbits)
    moreover have "pending @ [t] = map (\<lambda>i. without_cycle (?m ! i)) ([q..<15] @ [0..<1])"
      using q(2,3) r(1) by (auto simp: nth_list_update fbits)
    ultimately show ?thesis
      using r(1,3,4) q(1,2) flip(2) unfolding w p ring_push_def ring_ok_def stored_in_def RING_LEN_def by auto
  next
    case False
    let ?m = "mem[p := t\<lparr>trb_control := trb_control t OR pc\<rparr>]"
    have c: "cycle_of (?m ! i) = (if i < p + 1 then pc else pc XOR 1)" if "i < 16" for i
      using that r(1,5) False by (auto simp: nth_list_update bits)
    have k: "trb_kind (?m ! i) \<noteq> TRB_LINK" if "i < 15" for i
      using that r(1,6) t(2) False by (cases "i = p") (simp_all add: bits)
    have n: "?m ! p = t\<lparr>trb_control := trb_control t OR pc\<rparr>" "\<And>i. i \<noteq> p \<Longrightarrow> ?m ! i = mem ! i"
      using r(1) False by auto
    from r(7) have "if qc = pc then q \<le> p + 1 \<and> pending @ [t] = map (\<lambda>i. without_cycle (?m ! i)) [q..<p + 1]
      else qc = pc XOR 1 \<and> p + 1 \<le> q \<and> ?m ! 15 = link_trb start qc \<and>
        pending @ [t] = map (\<lambda>i. without_cycle (?m ! i)) ([q..<15] @ [0..<p + 1])"
    proof
      assume a: "qc = pc \<and> q \<le> p \<and> pending = map (\<lambda>i. without_cycle (mem ! i)) [q..<p]"
      then show ?thesis by (simp add: n bits)
    next
      assume b: "qc = pc XOR 1 \<and> qc \<noteq> pc \<and> p \<le> q \<and> mem ! 15 = link_trb start qc \<and>
        pending = map (\<lambda>i. without_cycle (mem ! i)) ([q..<15] @ [0..<p])"
      then have "p < q" using assms(3) r(3) by auto
      with b show ?thesis using False flip(2) by (simp add: n bits)
    qed
    with c k r(1-4) False show ?thesis
      by (cases "qc = pc") (simp_all add: w ring_push_def ring_ok_def stored_in_def RING_LEN_def)
  qed
qed

lemma ring_take_ok:
  assumes "ring_ok start mem wr rd pending"
  shows "case pending of
      [] \<Rightarrow> ring_take start mem rd = None
    | t # ts \<Rightarrow> \<exists>rd'. ring_take start mem rd = Some (t, rd') \<and> ring_ok start mem wr rd' ts"
proof -
  obtain p pc q qc where w: "wr = (p, pc)" "rd = (q, qc)" by fastforce
  have r: "length mem = 16" "p \<le> 15" "q \<le> 15" "pc = 0 \<or> pc = 1"
    "\<And>i. i < 16 \<Longrightarrow> cycle_of (mem ! i) = (if i < p then pc else pc XOR 1)"
    "\<And>i. i < 15 \<Longrightarrow> trb_kind (mem ! i) \<noteq> TRB_LINK"
    "qc = pc \<and> q \<le> p \<and> pending = map (\<lambda>i. without_cycle (mem ! i)) [q..<p] \<or>
     qc = pc XOR 1 \<and> qc \<noteq> pc \<and> p \<le> q \<and> mem ! 15 = link_trb start qc \<and>
       pending = map (\<lambda>i. without_cycle (mem ! i)) ([q..<15] @ [0..<p])"
    using assms(1) unfolding ring_ok_def w by (auto split: if_splits)
  have flip: "pc XOR 1 = 0 \<or> pc XOR 1 = 1" "pc XOR 1 \<noteq> pc" "pc XOR 1 XOR 1 = pc" using r(4) by auto
  have rest: "ring_ok start mem (p, pc) (q', pc) (map (\<lambda>i. without_cycle (mem ! i)) [q'..<p])" if "q' \<le> p" for q'
    using that r(1-6) by (auto simp: ring_ok_def)
  from r(7) show ?thesis
  proof
    assume a: "qc = pc \<and> q \<le> p \<and> pending = map (\<lambda>i. without_cycle (mem ! i)) [q..<p]"
    show ?thesis
    proof (cases "q < p")
      case True
      then have "pending = without_cycle (mem ! q) # map (\<lambda>i. without_cycle (mem ! i)) [q + 1..<p]"
        using a by (simp add: upt_conv_Cons)
      then show ?thesis using True a r(2,5,6) rest [of "q + 1"] by (simp add: w ring_take_def)
    next
      case False
      then show ?thesis using a r(3,5) flip by (simp add: w ring_take_def)
    qed
  next
    assume b: "qc = pc XOR 1 \<and> qc \<noteq> pc \<and> p \<le> q \<and> mem ! 15 = link_trb start qc \<and>
      pending = map (\<lambda>i. without_cycle (mem ! i)) ([q..<15] @ [0..<p])"
    have cq: "cycle_of (mem ! q) = qc" using b r(3,5) by simp
    show ?thesis
    proof (cases "q < 15")
      case True
      then have "pending = without_cycle (mem ! q) # map (\<lambda>i. without_cycle (mem ! i)) ([q + 1..<15] @ [0..<p])"
        using b by (simp add: upt_conv_Cons)
      moreover have "ring_ok start mem (p, pc) (q + 1, qc) (map (\<lambda>i. without_cycle (mem ! i)) ([q + 1..<15] @ [0..<p]))"
        using True b r(1-6) flip by (auto simp: ring_ok_def)
      ultimately show ?thesis using True r(6) cq by (simp add: w ring_take_def)
    next
      case False
      with r(3) have q: "q = 15" by simp
      have l: "mem ! 15 = link_trb start qc" "qc = 0 \<or> qc = 1" "qc XOR 1 = pc" using b r(4) by auto
      have step: "ring_take start mem rd = (if cycle_of (mem ! 0) \<noteq> pc then None else Some (without_cycle (mem ! 0), 1, pc))"
        using l(3) by (simp add: w q ring_take_def l(1) link_bits [OF l(2)])
      show ?thesis
      proof (cases "0 < p")
        case True
        then have "pending = without_cycle (mem ! 0) # map (\<lambda>i. without_cycle (mem ! i)) [1..<p]"
          using b q by (simp add: upt_conv_Cons)
        then show ?thesis using True r(5) [of 0] rest [of 1] by (simp add: step [unfolded w] w)
      next
        case False
        then show ?thesis using b q r(5) [of 0] flip by (simp add: step)
      qed
    qed
  qed
qed

section \<open>The driver's rings as queues\<close>

text \<open>
  A run of a ring: the writer places blocks as long as fewer than fifteen are not yet taken, the reader
  takes what it sees; \<open>sent\<close> and \<open>got\<close> record both sides.
\<close>

inductive ring_run ::
    "(trb \<Rightarrow> 's \<Rightarrow> 's) \<Rightarrow> ('s \<Rightarrow> trb list) \<Rightarrow> u64 \<Rightarrow> 's \<Rightarrow> 's \<Rightarrow> nat \<times> u32 \<Rightarrow> trb list \<Rightarrow> trb list \<Rightarrow> bool"
  for push memory start s0 where
  ring_fresh: "ring_run push memory start s0 s0 (0, 1) [] []"
| ring_place: "ring_run push memory start s0 s rd sent got \<Longrightarrow> plain_trb t \<Longrightarrow> length sent < length got + 15 \<Longrightarrow>
    ring_run push memory start s0 (push t s) rd (sent @ [t]) got"
| ring_next: "ring_run push memory start s0 s rd sent got \<Longrightarrow> ring_take start (memory s) rd = Some (t, rd') \<Longrightarrow>
    ring_run push memory start s0 s rd' sent (got @ [t])"

definition empty_trb :: trb where
  "empty_trb = \<lparr>trb_parameter = 0, trb_status = 0, trb_control = 0\<rparr>"

definition ring_new :: "trb list" where
  "ring_new = replicate RING_LEN empty_trb"

lemma ring_new_ok: "ring_ok start ring_new (0, 1) (0, 1) []"
  by (simp add: ring_ok_def ring_new_def RING_LEN_def empty_trb_def cycle_of_def trb_kind_def TRB_LINK_def)

text \<open>A writer that stores what \<open>ring_push\<close> says, and keeps its position the way it says.\<close>

locale ring_writer =
  fixes push :: "trb \<Rightarrow> 's \<Rightarrow> 's" and memory :: "'s \<Rightarrow> trb list" and position :: "'s \<Rightarrow> nat \<times> u32"
    and start :: u64 and good :: "'s \<Rightarrow> bool"
  assumes stores: "good s \<Longrightarrow> memory (push t s) = stored_in (fst (ring_push start t (position s))) (memory s)"
    and moves: "good s \<Longrightarrow> position (push t s) = snd (ring_push start t (position s))"
    and keeps: "good s \<Longrightarrow> good (push t s)"
begin

lemma in_order:
  assumes "ring_run push memory start s0 s rd sent got" "good s0" "memory s0 = ring_new" "position s0 = (0, 1)"
  shows "\<exists>pending. sent = got @ pending \<and> ring_ok start (memory s) (position s) rd pending \<and> good s"
  using assms(1)
proof induction
  case ring_fresh
  then show ?case using ring_new_ok assms(2-4) by simp
next
  case (ring_place s rd sent got t)
  then obtain pending where p: "sent = got @ pending" "ring_ok start (memory s) (position s) rd pending" "good s" by blast
  then have "length pending < 15" using ring_place.hyps(3) by simp
  from ring_push_ok [OF p(2) ring_place.hyps(2) this] p show ?case
    by (intro exI [of _ "pending @ [t]"]) (simp add: stores moves keeps case_prod_beta)
next
  case (ring_next s rd sent got t rd')
  then obtain pending where p: "sent = got @ pending" "ring_ok start (memory s) (position s) rd pending" "good s" by blast
  then show ?case using ring_take_ok [OF p(2)] ring_next.hyps(2) by (cases pending) auto
qed

lemma queue:
  assumes "ring_run push memory start s0 s rd sent got" "good s0" "memory s0 = ring_new" "position s0 = (0, 1)"
  shows "\<exists>pending. sent = got @ pending \<and>
    map_option fst (ring_take start (memory s) rd) = (case pending of [] \<Rightarrow> None | t # _ \<Rightarrow> Some t)"
proof -
  from in_order [OF assms] obtain pending where p: "sent = got @ pending" "ring_ok start (memory s) (position s) rd pending" by blast
  from ring_take_ok [OF p(2)] p(1) show ?thesis by (intro exI [of _ pending]) (auto split: list.splits)
qed

end

text \<open>A host that keeps a log of the effects; what the stores of a log leave in a ring.\<close>

definition logging :: "'d host \<Rightarrow> ('d \<times> effect list) host" where
  "logging H =
     \<lparr>effect_on = (\<lambda>e (d, l). (effect_on H e d, l @ [e])),
      read8 = (\<lambda>a (d, l). case read8 H a d of (v, d) \<Rightarrow> (v, d, l)),
      read32 = (\<lambda>a (d, l). case read32 H a d of (v, d) \<Rightarrow> (v, d, l)),
      event_load = (\<lambda>i (d, l). case event_load H i d of (t, d) \<Rightarrow> (t, d, l)),
      buffer_load = (\<lambda>i n (d, l). case buffer_load H i n d of (b, d) \<Rightarrow> (b, d, l)),
      symbol = symbol H\<rparr>"

fun ring_stores :: "ring_id \<Rightarrow> effect list \<Rightarrow> (nat \<times> trb) list" where
  "ring_stores r [] = []"
| "ring_stores r (StoreTrb r' i t # l) = (if r' = r then (i, t) # ring_stores r l else ring_stores r l)"
| "ring_stores r (_ # l) = ring_stores r l"

lemma ring_stores_append [simp]: "ring_stores r (l @ l') = ring_stores r l @ ring_stores r l'"
  by (induction r l rule: ring_stores.induct) simp_all

definition ring_memory :: "ring_id \<Rightarrow> (('d \<times> effect list) xhci) \<Rightarrow> trb list" where
  "ring_memory r x = stored_in (ring_stores r (snd (hw x))) ring_new"

lemma stored_in_append: "stored_in (ss @ ss') mem = stored_in ss' (stored_in ss mem)"
  by (simp add: stored_in_def)

lemma logged_act: "snd (hw (act (logging H) e x)) = snd (hw x) @ [e]"
  by (simp add: act_def logging_def case_prod_beta)

definition transfer_position :: "nat \<Rightarrow> 'd xhci \<Rightarrow> nat \<times> u32" where
  "transfer_position i x = (ds_index (xhci_devices x ! i), ds_cycle (xhci_devices x ! i))"

lemma act_simps [simp]:
  "xhci_devices (act H e x) = xhci_devices x" "command_index (act H e x) = command_index x"
  "command_cycle (act H e x) = command_cycle x" "hw (set_slot i f x) = hw x"
  "length (xhci_devices (set_slot i f x)) = length (xhci_devices x)"
  "i < length (xhci_devices x) \<Longrightarrow> xhci_devices (set_slot i f x) ! i = f (xhci_devices x ! i)"
  by (simp_all add: act_def set_slot_def)

lemma symbol_logged [simp]: "symbol (logging H) = symbol H" "transfer_ring_address (logging H) = transfer_ring_address H"
  by (simp_all add: logging_def transfer_ring_address_def fun_eq_iff)

interpretation transfer_ring:
  ring_writer "transfer (logging H) i" "ring_memory (TransferRing i)" "transfer_position i" "transfer_ring_address H i"
    "\<lambda>x. i < length (xhci_devices x)" for H :: "'d host" and i
proof
  fix x :: "('d \<times> effect list) xhci" and t
  assume i: "i < length (xhci_devices x)"
  show "ring_memory (TransferRing i) (transfer (logging H) i t x) =
      stored_in (fst (ring_push (transfer_ring_address H i) t (transfer_position i x))) (ring_memory (TransferRing i) x)"
    using i by (simp add: ring_memory_def transfer_def wrap_transfer_ring_def Let_def ring_push_def transfer_position_def
        logged_act stored_in_append) (simp add: stored_in_def)
  show "transfer_position i (transfer (logging H) i t x) = snd (ring_push (transfer_ring_address H i) t (transfer_position i x))"
    using i by (simp add: transfer_def wrap_transfer_ring_def Let_def ring_push_def transfer_position_def)
  show "i < length (xhci_devices (transfer (logging H) i t x))"
    using i by (simp add: transfer_def wrap_transfer_ring_def Let_def)
qed

definition command_position :: "'d xhci \<Rightarrow> nat \<times> u32" where
  "command_position x = (command_index x, command_cycle x)"

interpretation command_ring:
  ring_writer "place_command (logging H)" "ring_memory CommandRing" command_position "symbol H SymCommandRing" "\<lambda>_. True" for H :: "'d host"
proof
  fix x :: "('d \<times> effect list) xhci" and t
  show "ring_memory CommandRing (place_command (logging H) t x) =
      stored_in (fst (ring_push (symbol H SymCommandRing) t (command_position x))) (ring_memory CommandRing x)"
    by (simp add: ring_memory_def place_command_def wrap_command_ring_def Let_def ring_push_def command_position_def
        logged_act stored_in_append) (simp add: stored_in_def)
  show "command_position (place_command (logging H) t x) = snd (ring_push (symbol H SymCommandRing) t (command_position x))"
    by (simp add: place_command_def wrap_command_ring_def Let_def ring_push_def command_position_def)
qed simp

text \<open>
  C13. A transfer ring is a queue.  From an empty ring of a new device, and as long as no more than fifteen
  blocks wait, the controller that follows the ring gets exactly the blocks the driver placed, in order, each
  once, and sees nothing when all are taken - through any number of wraps.
\<close>

theorem transfer_ring_is_a_queue:
  assumes "ring_run (transfer (logging H) i) (ring_memory (TransferRing i)) (transfer_ring_address H i) x0 x rd sent got"
    and "i < length (xhci_devices x0)" "xhci_devices x0 ! i = device_slot_new" "ring_memory (TransferRing i) x0 = ring_new"
  shows "\<exists>pending. sent = got @ pending \<and>
    map_option fst (ring_take (transfer_ring_address H i) (ring_memory (TransferRing i) x) rd) =
      (case pending of [] \<Rightarrow> None | t # _ \<Rightarrow> Some t)"
  using assms by (intro transfer_ring.queue) (auto simp: transfer_position_def device_slot_new_def)

text \<open>A host with nothing behind it, and a driver with two new devices.\<close>

definition quiet_host :: "unit host" where
  "quiet_host =
     \<lparr>effect_on = (\<lambda>e d. d), read8 = (\<lambda>a d. (0, d)), read32 = (\<lambda>a d. (0, d)), event_load = (\<lambda>i d. (empty_trb, d)),
      buffer_load = (\<lambda>i n d. (replicate n 0, d)), symbol = (\<lambda>s. case s of SymCommandRing \<Rightarrow> 0x1000 | _ \<Rightarrow> 0x2000)\<rparr>"

definition sample_xhci :: "'d \<Rightarrow> 'd xhci" where
  "sample_xhci d =
     \<lparr>xhci_base = 0xFE000000, operational = 0xFE000020, doorbell = 0xFE000400, runtime = 0xFE000600, context_size = 32,
      max_ports = 4, command_cycle = 1, event_cycle = 1, command_index = 0, event_index = 0,
      xhci_devices = [device_slot_new, device_slot_new], device_count = 0, scratchpad = 0, hw = d\<rparr>"

definition sample_trb :: "u32 \<Rightarrow> trb" where
  "sample_trb kind = \<lparr>trb_parameter = 0x77, trb_status = 8, trb_control = push_bit 10 kind\<rparr>"

lemma transfer_ring_is_a_queue_witness:
  "map_option fst (ring_take 0x2000 (ring_memory (TransferRing 0) (transfer (logging quiet_host) 0 (sample_trb 3)
     (transfer (logging quiet_host) 0 (sample_trb 2) (sample_xhci ((), []))))) (1, 1)) = Some (sample_trb 3)"
proof -
  let ?push = "transfer (logging quiet_host) 0" and ?mem = "ring_memory (TransferRing 0) :: (unit \<times> effect list) xhci \<Rightarrow> trb list"
    and ?x = "sample_xhci ((), []) :: (unit \<times> effect list) xhci" and ?a = "transfer_ring_address quiet_host 0"
  have a: "?a = 0x2000" by code_simp
  have p: "plain_trb (sample_trb 2)" "plain_trb (sample_trb 3)" by code_simp+
  have t: "ring_take ?a (?mem (?push (sample_trb 3) (?push (sample_trb 2) ?x))) (0, 1) = Some (sample_trb 2, 1, 1)"
    unfolding a by code_simp
  have n: "?mem ?x = ring_new" by code_simp
  have "ring_run ?push ?mem ?a ?x (?push (sample_trb 3) (?push (sample_trb 2) ?x)) (0, 1) (([] @ [sample_trb 2]) @ [sample_trb 3]) []"
    by (intro ring_place ring_fresh p) simp_all
  from transfer_ring_is_a_queue [OF ring_run.ring_next [where t = "sample_trb 2" and rd = "(0, 1)" and rd' = "(1, 1)", OF this t]] n show ?thesis unfolding a by (auto simp: sample_xhci_def)
qed

text \<open>
  C31. The command ring is a queue in the same way: however often it wraps through its link block, the
  controller gets the commands in the order they were placed.
\<close>

theorem command_ring_is_a_queue:
  assumes "ring_run (place_command (logging H)) (ring_memory CommandRing) (symbol H SymCommandRing) x0 x rd sent got"
    and "command_position x0 = (0, 1)" "ring_memory CommandRing x0 = ring_new"
  shows "\<exists>pending. sent = got @ pending \<and>
    map_option fst (ring_take (symbol H SymCommandRing) (ring_memory CommandRing x) rd) =
      (case pending of [] \<Rightarrow> None | t # _ \<Rightarrow> Some t)"
  using assms by (intro command_ring.queue) auto

lemma command_ring_is_a_queue_witness:
  "map_option fst (ring_take 0x1000 (ring_memory CommandRing (place_command (logging quiet_host) (sample_trb 9)
     (sample_xhci ((), [])))) (0, 1)) = Some (sample_trb 9)"
proof -
  let ?push = "place_command (logging quiet_host)" and ?mem = "ring_memory CommandRing :: (unit \<times> effect list) xhci \<Rightarrow> trb list"
    and ?x = "sample_xhci ((), []) :: (unit \<times> effect list) xhci" and ?a = "symbol quiet_host SymCommandRing"
  have a: "?a = 0x1000" by code_simp
  have p: "plain_trb (sample_trb 9)" by code_simp
  have n: "?mem ?x = ring_new" "command_position ?x = (0, 1)" by code_simp+
  have "ring_run ?push ?mem ?a ?x (?push (sample_trb 9) ?x) (0, 1) ([] @ [sample_trb 9]) []"
    by (intro ring_place ring_fresh p) simp_all
  from command_ring_is_a_queue [OF this] n show ?thesis unfolding a by auto
qed

section \<open>The event ring\<close>

text \<open>
  A machine whose event ring is a part of its state that no effect of the driver touches, and a run of it:
  the controller posts a block while it sees room, and the driver looks for the next event.
\<close>

definition loads_from :: "'d host \<Rightarrow> ('d \<Rightarrow> trb list) \<Rightarrow> bool" where
  "loads_from H events \<longleftrightarrow>
     (\<forall>i d. event_load H i d = (events d ! i, d)) \<and> (\<forall>e d. events (effect_on H e d) = events d)"

inductive event_run :: "'d host \<Rightarrow> ('d \<Rightarrow> trb list) \<Rightarrow> 'd xhci \<Rightarrow> nat \<times> u32 \<Rightarrow> trb list \<Rightarrow> xhci_event list \<Rightarrow> bool"
  for H events where
  event_fresh: "event_index x = 0 \<Longrightarrow> event_cycle x = 1 \<Longrightarrow> events (hw x) = ring_new \<Longrightarrow> event_run H events x (0, 1) [] []"
| event_post: "event_run H events x (p, c) posted taken \<Longrightarrow> cycle_of t = 0 \<Longrightarrow> length posted < length taken + 16 \<Longrightarrow>
    events d = (events (hw x))[p := t\<lparr>trb_control := trb_control t OR c\<rparr>] \<Longrightarrow>
    event_run H events (x\<lparr>hw := d\<rparr>) (if p = 15 then (0, c XOR 1) else (p + 1, c)) (posted @ [t]) taken"
| event_next: "event_run H events x wr posted taken \<Longrightarrow> next_event H x = (e, x') \<Longrightarrow>
    event_run H events x' wr posted (taken @ (case e of Some e \<Rightarrow> [e] | None \<Rightarrow> []))"

definition event_ok :: "trb list \<Rightarrow> nat \<times> u32 \<Rightarrow> nat \<times> u32 \<Rightarrow> trb list \<Rightarrow> bool" where
  "event_ok mem wr rd pending \<longleftrightarrow>
     (case (wr, rd) of ((p, pc), (q, qc)) \<Rightarrow>
        length mem = 16 \<and> p \<le> 15 \<and> q \<le> 15 \<and> (pc = 0 \<or> pc = 1) \<and>
        (\<forall>i<16. cycle_of (mem ! i) = (if i < p then pc else pc XOR 1)) \<and>
        (if qc = pc then q \<le> p \<and> pending = map (\<lambda>i. without_cycle (mem ! i)) [q..<p]
         else qc = pc XOR 1 \<and> p \<le> q \<and> pending = map (\<lambda>i. without_cycle (mem ! i)) ([q..<16] @ [0..<p])))"

lemma event_ok_cases:
  assumes "event_ok mem (p, pc) (q, qc) pending"
  shows "length mem = 16" "p \<le> 15" "q \<le> 15" "pc = 0 \<or> pc = 1"
    "\<And>i. i < 16 \<Longrightarrow> cycle_of (mem ! i) = (if i < p then pc else pc XOR 1)"
    "qc = pc \<and> q \<le> p \<and> pending = map (\<lambda>i. without_cycle (mem ! i)) [q..<p] \<or>
     qc = pc XOR 1 \<and> qc \<noteq> pc \<and> p \<le> q \<and> pending = map (\<lambda>i. without_cycle (mem ! i)) ([q..<16] @ [0..<p])"
  using assms unfolding event_ok_def by (auto split: if_splits)

lemma event_post_ok:
  assumes "event_ok mem (p, pc) rd pending" "cycle_of t = 0" "length pending < 16"
  shows "event_ok (mem[p := t\<lparr>trb_control := trb_control t OR pc\<rparr>])
    (if p = 15 then (0, pc XOR 1) else (p + 1, pc)) rd (pending @ [t])"
proof -
  obtain q qc where w: "rd = (q, qc)" by fastforce
  note r = event_ok_cases [OF assms(1) [unfolded w]]
  note bits = cycle_bits [OF r(4) assms(2)]
  let ?m = "mem[p := t\<lparr>trb_control := trb_control t OR pc\<rparr>]"
  have c: "cycle_of (?m ! i) = (if i < p + 1 then pc else pc XOR 1)" if "i < 16" for i
    using that r(1,2,5) by (cases "i = p") (simp_all add: bits)
  have n: "?m ! p = t\<lparr>trb_control := trb_control t OR pc\<rparr>" "\<And>i. i \<noteq> p \<Longrightarrow> ?m ! i = mem ! i"
    using r(1,2) by auto
  from r(6) show ?thesis
  proof
    assume a: "qc = pc \<and> q \<le> p \<and> pending = map (\<lambda>i. without_cycle (mem ! i)) [q..<p]"
    then have pd: "pending @ [t] = map (\<lambda>i. without_cycle (?m ! i)) [q..<p + 1]" by (simp add: n bits)
    show ?thesis
    proof (cases "p = 15")
      case True
      then have "cycle_of (?m ! i) = pc" if "i < 16" for i using c that by simp
      with True a pd r(1,3,4) show ?thesis by (auto simp: w event_ok_def)
    next
      case False
      with a pd c r(1-4) show ?thesis by (simp add: w event_ok_def)
    qed
  next
    assume b: "qc = pc XOR 1 \<and> qc \<noteq> pc \<and> p \<le> q \<and> pending = map (\<lambda>i. without_cycle (mem ! i)) ([q..<16] @ [0..<p])"
    then have "p < q" using assms(3) r(3) by auto
    then have "pending @ [t] = map (\<lambda>i. without_cycle (?m ! i)) ([q..<16] @ [0..<p + 1])" using b by (simp add: n bits)
    moreover have "pc XOR 1 \<noteq> pc" using r(4) by auto
    ultimately show ?thesis using \<open>p < q\<close> b c r(1-4) by (simp add: w event_ok_def)
  qed
qed

lemma event_take_ok:
  assumes "event_ok mem wr (q, qc) pending"
  shows "case pending of
      [] \<Rightarrow> cycle_of (mem ! q) \<noteq> qc
    | t # ts \<Rightarrow> cycle_of (mem ! q) = qc \<and> without_cycle (mem ! q) = t \<and>
        event_ok mem wr (if 16 \<le> q + 1 then (0, qc XOR 1) else (q + 1, qc)) ts"
proof -
  obtain p pc where w: "wr = (p, pc)" by fastforce
  note r = event_ok_cases [OF assms [unfolded w]]
  from r(6) show ?thesis
  proof
    assume a: "qc = pc \<and> q \<le> p \<and> pending = map (\<lambda>i. without_cycle (mem ! i)) [q..<p]"
    show ?thesis
    proof (cases "q < p")
      case True
      then show ?thesis using a r by (simp add: w upt_conv_Cons event_ok_def)
    next
      case False
      have "pc XOR 1 \<noteq> pc" using r(4) by auto
      then show ?thesis using a False r(3,5) by simp
    qed
  next
    assume b: "qc = pc XOR 1 \<and> qc \<noteq> pc \<and> p \<le> q \<and> pending = map (\<lambda>i. without_cycle (mem ! i)) ([q..<16] @ [0..<p])"
    show ?thesis
    proof (cases "q = 15")
      case True
      from r(4) show ?thesis by (elim disjE) (use True b r in \<open>simp_all add: w upt_conv_Cons event_ok_def\<close>)
    next
      case False
      with b r show ?thesis by (simp add: w upt_conv_Cons event_ok_def)
    qed
  qed
qed

lemma event_of_without_cycle: "event_of (without_cycle t) = event_of t"
proof -
  have "drop_bit n (trb_control t AND NOT 1) = drop_bit n (trb_control t)" if "0 < n" for n
    using that by (intro bit_word_eqI) (auto simp: bit_simps dest: bit_imp_le_length)
  from this [of 10] this [of 24] show ?thesis by (simp only: event_of_def without_cycle_def TRB_CYCLE_def trb.simps) simp
qed

lemma next_event_eq:
  assumes "loads_from H events"
  shows "fst (next_event H x) = (if cycle_of (events (hw x) ! event_index x) = event_cycle x
      then Some (event_of (events (hw x) ! event_index x)) else None)"
    and "(event_index (snd (next_event H x)), event_cycle (snd (next_event H x))) =
      (if cycle_of (events (hw x) ! event_index x) \<noteq> event_cycle x then (event_index x, event_cycle x)
       else if 16 \<le> event_index x + 1 then (0, event_cycle x XOR 1) else (event_index x + 1, event_cycle x))"
    and "events (hw (snd (next_event H x))) = events (hw x)"
  using assms by (auto simp: loads_from_def next_event_def Let_def cycle_of_def write64_def act_def RING_LEN_def)

lemma event_run_ok:
  assumes "event_run H events x wr posted taken" "loads_from H events"
  shows "\<exists>past pending. posted = past @ pending \<and> taken = map event_of past \<and>
    event_ok (events (hw x)) wr (event_index x, event_cycle x) pending"
  using assms(1)
proof induction
  case (event_fresh x)
  then show ?case
    by (intro exI [of _ "[]"]) (simp add: event_ok_def ring_new_def RING_LEN_def empty_trb_def cycle_of_def)
next
  case (event_post x p c posted taken t d)
  then obtain past pending where o: "posted = past @ pending" "taken = map event_of past"
    "event_ok (events (hw x)) (p, c) (event_index x, event_cycle x) pending" by blast
  then have "length pending < 16" using event_post.hyps(3) by simp
  from event_post_ok [OF o(3) event_post.hyps(2) this] o event_post.hyps(4) show ?case
    by (intro exI [of _ past] exI [of _ "pending @ [t]"]) simp
next
  case (event_next x wr posted taken e x')
  then obtain past pending where o: "posted = past @ pending" "taken = map event_of past"
    "event_ok (events (hw x)) wr (event_index x, event_cycle x) pending" by blast
  have x': "e = fst (next_event H x)" "x' = snd (next_event H x)" using event_next.hyps(2) by simp_all
  note n = next_event_eq [OF assms(2), of x, folded x']
  show ?case
  proof (cases pending)
    case Nil
    then show ?thesis using event_take_ok [OF o(3)] n o by (intro exI [of _ past] exI [of _ "[]"]) simp
  next
    case (Cons t ts)
    then have "e = Some (event_of t)" "event_ok (events (hw x')) wr (event_index x', event_cycle x') ts"
      using event_take_ok [OF o(3)] n event_of_without_cycle by (auto split: if_splits)
    then show ?thesis using o Cons by (intro exI [of _ "past @ [t]"] exI [of _ ts]) simp
  qed
qed

text \<open>
  C8. The driver takes the events in the order the controller posts them, each once.  On a run in which the
  controller never has more than sixteen events not yet taken, what the driver has taken is the beginning of
  what was posted, and it sees an event exactly when one is left.
\<close>

theorem events_in_order:
  assumes "event_run H events x wr posted taken" "loads_from H events"
  shows "\<exists>pending. map event_of posted = taken @ map event_of pending \<and>
    fst (next_event H x) = (case pending of [] \<Rightarrow> None | t # _ \<Rightarrow> Some (event_of t))"
proof -
  from event_run_ok [OF assms] obtain past pending where o: "posted = past @ pending" "taken = map event_of past"
    "event_ok (events (hw x)) wr (event_index x, event_cycle x) pending" by blast
  from event_take_ok [OF o(3)] have "fst (next_event H x) = (case pending of [] \<Rightarrow> None | t # _ \<Rightarrow> Some (event_of t))"
    unfolding next_event_eq(1) [OF assms(2)] using event_of_without_cycle by (auto split: list.splits)
  with o(1,2) show ?thesis by auto
qed

definition posting_host :: "trb list host" where
  "posting_host =
     \<lparr>effect_on = (\<lambda>e d. d), read8 = (\<lambda>a d. (0, d)), read32 = (\<lambda>a d. (0, d)), event_load = (\<lambda>i d. (d ! i, d)),
      buffer_load = (\<lambda>i n d. (replicate n 0, d)), symbol = (\<lambda>s. 0)\<rparr>"

lemma posting_host_loads: "loads_from posting_host (\<lambda>d. d)"
  by (simp add: loads_from_def posting_host_def)

lemma events_in_order_witness:
  "fst (next_event posting_host (sample_xhci (ring_new[0 := (sample_trb 32)\<lparr>trb_control := trb_control (sample_trb 32) OR 1\<rparr>]))) =
     Some (event_of (sample_trb 32))"
proof -
  let ?x = "sample_xhci ring_new"
  let ?d = "ring_new[0 := (sample_trb 32)\<lparr>trb_control := trb_control (sample_trb 32) OR 1\<rparr>]"
  have e: "event_run posting_host (\<lambda>d. d) ?x (0, 1) [] []" by (rule event_fresh) (simp_all add: sample_xhci_def)
  have "cycle_of (sample_trb 32) = 0" by code_simp
  then have "event_run posting_host (\<lambda>d. d) (?x\<lparr>hw := ?d\<rparr>) (if (0::nat) = 15 then (0, 1 XOR 1) else (0 + 1, 1)) ([] @ [sample_trb 32]) []"
    by (intro event_post [OF e]) (simp_all add: sample_xhci_def)
  from events_in_order [OF this posting_host_loads] obtain pending where
    "[event_of (sample_trb 32)] = map event_of pending"
    "fst (next_event posting_host (?x\<lparr>hw := ?d\<rparr>)) = (case pending of [] \<Rightarrow> None | t # _ \<Rightarrow> Some (event_of t))" by force
  then have "fst (next_event posting_host (?x\<lparr>hw := ?d\<rparr>)) = Some (event_of (sample_trb 32))" by (cases pending) auto
  then show ?thesis by (simp add: sample_xhci_def)
qed

end
