(* ===== verification/Xhci_Driver.thy ===== *)
theory Xhci_Driver
  imports Xhci_Rings
begin

text \<open>
  \<open>crates/nanochrono-baremetal/src/xhci.rs\<close>, the driver: taking the controller from the firmware, bringing it
  up, the ports, enumerating a device, and the poll for its reports.

  A wait is a loop of ten million looks at the hardware, as in the source; the delays between two looks are
  nothing to the model.  The lemmas show that enumeration stays inside the structures it writes, what a
  successful one has established, that the walk over a configuration descriptor finds the first interrupt
  endpoint of a HID interface, and that a report is given out exactly when its transfer has completed, with
  no transfer in flight that could write the buffer.
\<close>

section \<open>Registers\<close>

definition XHCI_CAPLENGTH :: u64 where "XHCI_CAPLENGTH = 0x00"
definition XHCI_HCSPARAMS1 :: u64 where "XHCI_HCSPARAMS1 = 0x04"
definition XHCI_HCSPARAMS2 :: u64 where "XHCI_HCSPARAMS2 = 0x08"
definition XHCI_HCCPARAMS1 :: u64 where "XHCI_HCCPARAMS1 = 0x10"
definition XHCI_DBOFF :: u64 where "XHCI_DBOFF = 0x14"
definition XHCI_RTSOFF :: u64 where "XHCI_RTSOFF = 0x18"
definition XHCI_USBCMD :: u64 where "XHCI_USBCMD = 0x00"
definition XHCI_USBSTS :: u64 where "XHCI_USBSTS = 0x04"
definition XHCI_CRCR :: u64 where "XHCI_CRCR = 0x18"
definition XHCI_DCBAAP :: u64 where "XHCI_DCBAAP = 0x30"
definition XHCI_CONFIG :: u64 where "XHCI_CONFIG = 0x38"
definition XHCI_PORTSC :: u64 where "XHCI_PORTSC = 0x400"
definition XECP_ID_LEGACY :: u32 where "XECP_ID_LEGACY = 1"
definition XECP_BIOS_SEM :: u64 where "XECP_BIOS_SEM = 0x02"
definition XECP_OS_SEM :: u64 where "XECP_OS_SEM = 0x03"
definition XHCI_CMD_RS :: u32 where "XHCI_CMD_RS = 1"
definition XHCI_CMD_HCRST :: u32 where "XHCI_CMD_HCRST = 2"
definition XHCI_STS_HCH :: u32 where "XHCI_STS_HCH = 1"
definition XHCI_STS_CNR :: u32 where "XHCI_STS_CNR = 0x800"
definition PORTSC_CCS :: u32 where "PORTSC_CCS = 1"
definition PORTSC_PED :: u32 where "PORTSC_PED = 2"
definition PORTSC_PR :: u32 where "PORTSC_PR = 0x10"
definition PORTSC_PP :: u32 where "PORTSC_PP = 0x200"
definition PORTSC_CHANGE_MASK :: u32 where "PORTSC_CHANGE_MASK = shl1 17 OR shl1 18 OR shl1 20 OR shl1 21 OR shl1 22"
definition PORTSC_RW_MASK :: u32 where "PORTSC_RW_MASK = NOT (PORTSC_CHANGE_MASK OR PORTSC_PED)"
definition CC_SUCCESS :: u32 where "CC_SUCCESS = 1"
definition CC_SHORT_PACKET :: u32 where "CC_SHORT_PACKET = 13"
definition MAX_SCRATCHPAD :: nat where "MAX_SCRATCHPAD = 64"
definition SCRATCHPAD_PAGE :: nat where "SCRATCHPAD_PAGE = 4096"
definition HANDOFF_POLLS :: nat where "HANDOFF_POLLS = 50"
definition MAX_SLOTS :: nat where "MAX_SLOTS = 8"

definition rd8 :: "'d host \<Rightarrow> u64 \<Rightarrow> 'd xhci \<Rightarrow> u8 \<times> 'd xhci" where
  "rd8 H a x = (case read8 H a (hw x) of (v, d) \<Rightarrow> (v, x\<lparr>hw := d\<rparr>))"

definition rd32 :: "'d host \<Rightarrow> u64 \<Rightarrow> 'd xhci \<Rightarrow> u32 \<times> 'd xhci" where
  "rd32 H a x = (case read32 H a (hw x) of (v, d) \<Rightarrow> (v, x\<lparr>hw := d\<rparr>))"

definition wait_for :: "('d xhci \<Rightarrow> bool \<times> 'd xhci) \<Rightarrow> 'd xhci \<Rightarrow> bool \<times> 'd xhci" where
  "wait_for check x =
     (case poll_loop POLLS (\<lambda>x. case check x of (ok, x) \<Rightarrow> (if ok then Some () else None, x)) x of
        (r, x) \<Rightarrow> (r \<noteq> None, x))"

section \<open>Before the reset\<close>

definition scratchpad_wanted :: "u32 \<Rightarrow> nat" where
  "scratchpad_wanted hcs2 = unat ((drop_bit 16 hcs2 AND 0x3E0) OR (drop_bit 27 hcs2 AND 0x1F))"

definition first_capability :: "u32 \<Rightarrow> u64" where
  "first_capability hcc1 = ucast (drop_bit 16 hcc1 AND 0xFFFF) * 4"

definition next_capability :: "u32 \<Rightarrow> u64" where
  "next_capability header = ucast (drop_bit 8 header AND 0xFF) * 4"

fun survey_walk :: "'d host \<Rightarrow> u64 \<Rightarrow> nat \<Rightarrow> u64 \<Rightarrow> 'd \<Rightarrow> bool \<times> 'd" where
  "survey_walk H start 0 offset d = (False, d)"
| "survey_walk H start (Suc n) offset d =
     (if offset = 0 then (False, d)
      else case read32 H (start + offset) d of
        (header, d) \<Rightarrow>
          if header = 0 \<or> header = - 1 then (False, d)
          else if header AND 0xFF = XECP_ID_LEGACY
          then (case read8 H (start + offset + XECP_BIOS_SEM) d of (v, d) \<Rightarrow> (v \<noteq> 0, d))
          else if next_capability header = 0 then (False, d)
          else survey_walk H start n (offset + next_capability header) d)"

definition survey_usb :: "'d host \<Rightarrow> pci_device \<Rightarrow> 'd \<Rightarrow> (nat \<times> bool) \<times> 'd" where
  "survey_usb H device d =
     (if bar0 device = 0 then ((0, False), d)
      else case read32 H (bar0 device + XHCI_HCSPARAMS2) d of
        (hcs2, d) \<Rightarrow> (case read32 H (bar0 device + XHCI_HCCPARAMS1) d of
          (hcc1, d) \<Rightarrow> (case survey_walk H (bar0 device) 64 (first_capability hcc1) d of
            (owned, d) \<Rightarrow> ((scratchpad_wanted hcs2, owned), d))))"

fun handoff_wait :: "'d host \<Rightarrow> u64 \<Rightarrow> nat \<Rightarrow> 'd xhci \<Rightarrow> 'd xhci" where
  "handoff_wait H a 0 x = x"
| "handoff_wait H a (Suc n) x = (case rd8 H a x of (v, x) \<Rightarrow> if v = 0 then x else handoff_wait H a n x)"

fun handoff_walk :: "'d host \<Rightarrow> nat \<Rightarrow> u64 \<Rightarrow> 'd xhci \<Rightarrow> 'd xhci" where
  "handoff_walk H 0 offset x = x"
| "handoff_walk H (Suc n) offset x =
     (if offset = 0 then x
      else case rd32 H (xhci_base x + offset) x of
        (header, x) \<Rightarrow>
          if header = 0 \<or> header = - 1 then x
          else if header AND 0xFF = XECP_ID_LEGACY
          then (case rd8 H (xhci_base x + offset + XECP_BIOS_SEM) x of
                  (v, x) \<Rightarrow>
                    if v = 0 then x
                    else handoff_wait H (xhci_base x + offset + XECP_BIOS_SEM) HANDOFF_POLLS
                           (act H (Write8 (xhci_base x + offset + XECP_OS_SEM) 1) x))
          else handoff_walk H n (offset + next_capability header) x)"

definition take_from_firmware :: "'d host \<Rightarrow> u32 \<Rightarrow> 'd xhci \<Rightarrow> 'd xhci" where
  "take_from_firmware H hcc1 x = handoff_walk H 64 (first_capability hcc1) x"

section \<open>Bring-up\<close>

definition configure_scratchpad :: "'d host \<Rightarrow> 'd xhci \<Rightarrow> 'd xhci" where
  "configure_scratchpad H x =
     (case rd32 H (xhci_base x + XHCI_HCSPARAMS2) x of
        (hcs2, x) \<Rightarrow>
          let x = x\<lparr>scratchpad := min (scratchpad_wanted hcs2) MAX_SCRATCHPAD\<rparr>
          in if scratchpad x = 0 then x
             else act H (StoreDcbaa 0 (symbol H SymScratchpadArray))
                    (fold (\<lambda>i. act H (StoreScratchpad i (symbol H SymScratchpadPages + of_nat (i * SCRATCHPAD_PAGE))))
                       [0..<scratchpad x] x))"

definition xhci_reset :: "'d host \<Rightarrow> 'd xhci \<Rightarrow> bool \<times> 'd xhci" where
  "xhci_reset H x =
     (case rd32 H (operational x + XHCI_USBCMD) x of
        (cmd, x) \<Rightarrow>
          let x = act H (Write32 (operational x + XHCI_USBCMD) (cmd AND NOT XHCI_CMD_RS)) x
          in case wait_for (\<lambda>x. case rd32 H (operational x + XHCI_USBSTS) x of (v, x) \<Rightarrow> (v AND XHCI_STS_HCH \<noteq> 0, x)) x of
               (False, x) \<Rightarrow> (False, x)
             | (True, x) \<Rightarrow>
                 let x = act H (Write32 (operational x + XHCI_USBCMD) XHCI_CMD_HCRST) x
                 in case wait_for (\<lambda>x. case rd32 H (operational x + XHCI_USBCMD) x of (v, x) \<Rightarrow> (v AND XHCI_CMD_HCRST = 0, x)) x of
                      (False, x) \<Rightarrow> (False, x)
                    | (True, x) \<Rightarrow>
                        wait_for (\<lambda>x. case rd32 H (operational x + XHCI_USBSTS) x of (v, x) \<Rightarrow> (v AND XHCI_STS_CNR = 0, x)) x)"

definition configure_rings :: "'d host \<Rightarrow> u32 \<Rightarrow> 'd xhci \<Rightarrow> 'd xhci" where
  "configure_rings H hcs1 x =
     (let x = act H (Write32 (operational x + XHCI_CONFIG) (min (hcs1 AND 0xFF) (of_nat MAX_SLOTS))) x;
          x = write64 H (operational x + XHCI_DCBAAP) (symbol H SymDcbaa) x;
          x = write64 H (operational x + XHCI_CRCR) (symbol H SymCommandRing OR 1) x;
          x = act H (StoreErst (symbol H SymEventRing) (of_nat RING_LEN)) x;
          interrupter = runtime x + 0x20;
          x = act H (Write32 (interrupter + 0x08) 1) x;
          x = write64 H (interrupter + 0x18) (symbol H SymEventRing) x
      in write64 H (interrupter + 0x10) (symbol H SymErst) x)"

definition xhci_run :: "'d host \<Rightarrow> 'd xhci \<Rightarrow> 'd xhci" where
  "xhci_run H x =
     (case rd32 H (operational x + XHCI_USBCMD) x of
        (cmd, x) \<Rightarrow>
          snd (wait_for (\<lambda>x. case rd32 H (operational x + XHCI_USBSTS) x of (v, x) \<Rightarrow> (v AND XHCI_STS_HCH = 0, x))
            (act H (Write32 (operational x + XHCI_USBCMD) (cmd OR XHCI_CMD_RS)) x)))"

text \<open>The driver before the controller is touched, from the capability registers.\<close>

definition xhci_attach :: "'d host \<Rightarrow> u64 \<Rightarrow> 'd \<Rightarrow> (u32 \<times> u32) \<times> 'd xhci" where
  "xhci_attach H start d =
     (case read8 H (start + XHCI_CAPLENGTH) d of (caplength, d) \<Rightarrow>
      case read32 H (start + XHCI_HCSPARAMS1) d of (hcs1, d) \<Rightarrow>
      case read32 H (start + XHCI_HCCPARAMS1) d of (hcc1, d) \<Rightarrow>
      case read32 H (start + XHCI_DBOFF) d of (dboff, d) \<Rightarrow>
      case read32 H (start + XHCI_RTSOFF) d of (rtsoff, d) \<Rightarrow>
        ((hcs1, hcc1),
         \<lparr>xhci_base = start, operational = start + ucast caplength, doorbell = start + (ucast dboff AND NOT 0x3),
          runtime = start + (ucast rtsoff AND NOT 0x1F), context_size = (if hcc1 AND shl1 2 \<noteq> 0 then 64 else 32),
          max_ports = ucast (drop_bit 24 hcs1), command_cycle = 1, event_cycle = 1, command_index = 0, event_index = 0,
          xhci_devices = replicate MAX_DEVICES device_slot_new, device_count = 0, scratchpad = 0, hw = d\<rparr>))"

definition xhci_new :: "'d host \<Rightarrow> pci_device \<Rightarrow> 'd \<Rightarrow> 'd xhci option" where
  "xhci_new H device enabled =
     (if bar0 device = 0 then None
      else case xhci_attach H (bar0 device) enabled of
        ((hcs1, hcc1), x) \<Rightarrow>
          (case xhci_reset H (take_from_firmware H hcc1 x) of
             (False, x) \<Rightarrow> None
           | (True, x) \<Rightarrow> Some (xhci_run H (configure_rings H hcs1 (configure_scratchpad H x)))))"

section \<open>Ports\<close>

definition portsc_at :: "u8 \<Rightarrow> 'd xhci \<Rightarrow> u64" where
  "portsc_at port x = operational x + XHCI_PORTSC + (ucast port - 1) * 0x10"

definition port_status :: "'d host \<Rightarrow> u8 \<Rightarrow> 'd xhci \<Rightarrow> u32 \<times> 'd xhci" where
  "port_status H port x = rd32 H (portsc_at port x) x"

fun ports_connected :: "'d host \<Rightarrow> u8 list \<Rightarrow> 'd xhci \<Rightarrow> u8 list \<times> 'd xhci" where
  "ports_connected H [] x = ([], x)"
| "ports_connected H (p # ps) x =
     (case port_status H p x of
        (v, x) \<Rightarrow> (case ports_connected H ps x of
          (rest, x) \<Rightarrow> (if v AND PORTSC_CCS \<noteq> 0 then p # rest else rest, x)))"

definition connected_ports :: "'d host \<Rightarrow> 'd xhci \<Rightarrow> u8 list \<times> 'd xhci" where
  "connected_ports H x = ports_connected H (map of_nat [1..<unat (max_ports x) + 1]) x"

definition port_reset :: "'d host \<Rightarrow> u8 \<Rightarrow> 'd xhci \<Rightarrow> bool \<times> 'd xhci" where
  "port_reset H port x =
     (let offset = portsc_at port x
      in case rd32 H offset x of
           (status, x) \<Rightarrow>
             let x = (if status AND PORTSC_PP = 0 then act H (Write32 offset ((status AND PORTSC_RW_MASK) OR PORTSC_PP)) x else x)
             in case rd32 H offset x of
                  (status, x) \<Rightarrow>
                    let x = act H (Write32 offset ((status AND PORTSC_RW_MASK) OR PORTSC_PR)) x
                    in case wait_for (\<lambda>x. case rd32 H offset x of (v, x) \<Rightarrow> (v AND PORTSC_PR = 0, x)) x of
                         (False, x) \<Rightarrow> (False, x)
                       | (True, x) \<Rightarrow> (case rd32 H offset x of (v, x) \<Rightarrow> (v AND PORTSC_PED \<noteq> 0, x)))"

section \<open>Configuration descriptors\<close>

datatype usb_hid_kind = HidKeyboard | HidPointer | HidOther

fun usb_hid_kind_name :: "usb_hid_kind \<Rightarrow> string" where
  "usb_hid_kind_name HidKeyboard = ''keyboard''"
| "usb_hid_kind_name HidPointer = ''pointer''"
| "usb_hid_kind_name HidOther = ''hid (unread)''"

record parsed_configuration =
  pc_configuration :: u8
  pc_interface :: u8
  pc_endpoint :: u8
  pc_max_packet :: u16
  pc_kind :: usb_hid_kind

definition interface_kind :: "u8 \<Rightarrow> usb_hid_kind" where
  "interface_kind protocol = (if protocol = 1 then HidKeyboard else if protocol = 2 then HidPointer else HidOther)"

function parse_records :: "u8 list \<Rightarrow> u8 \<Rightarrow> nat \<Rightarrow> usb_hid_kind option \<Rightarrow> u8 \<Rightarrow> parsed_configuration option" where
  "parse_records buf configuration offset kind interface =
     (if offset + 2 \<le> length buf then
        (let len = unat (buf ! offset); what = buf ! (offset + 1)
         in if len < 2 \<or> length buf < offset + len then None
            else if what = 4 \<and> 9 \<le> len then
              (if buf ! (offset + 5) = 3
               then parse_records buf configuration (offset + len) (Some (interface_kind (buf ! (offset + 7)))) (buf ! (offset + 2))
               else parse_records buf configuration (offset + len) None interface)
            else if what = 5 \<and> 7 \<le> len \<and> kind \<noteq> None \<and>
                buf ! (offset + 3) AND 0x03 = 0x03 \<and> buf ! (offset + 2) AND 0x80 \<noteq> 0
            then Some \<lparr>pc_configuration = configuration, pc_interface = interface, pc_endpoint = buf ! (offset + 2),
                       pc_max_packet = le_word [buf ! (offset + 4), buf ! (offset + 5)] AND 0x7FF, pc_kind = the kind\<rparr>
            else parse_records buf configuration (offset + len) kind interface)
      else None)"
  by auto
termination by (relation "measure (\<lambda>(buf, c, offset, k, i). length buf - offset)") auto

declare parse_records.simps [simp del]

definition parse_configuration :: "u8 list \<Rightarrow> parsed_configuration option" where
  "parse_configuration buf =
     (if length buf < 9 \<or> buf ! 1 \<noteq> 2 then None else parse_records buf (buf ! 5) 0 None 0)"

section \<open>Enumeration\<close>

record usb_setup =
  request_type :: u8
  request :: u8
  setup_value :: u16
  setup_index :: u16
  setup_length :: u16

definition setup_word :: "usb_setup \<Rightarrow> u64" where
  "setup_word s =
     ucast (request_type s) OR push_bit 8 (ucast (request s)) OR push_bit 16 (ucast (setup_value s)) OR
     push_bit 32 (ucast (setup_index s)) OR push_bit 48 (ucast (setup_length s))"

definition REQ_GET_DESCRIPTOR :: u8 where "REQ_GET_DESCRIPTOR = 6"
definition REQ_SET_CONFIGURATION :: u8 where "REQ_SET_CONFIGURATION = 9"
definition REQ_SET_PROTOCOL :: u8 where "REQ_SET_PROTOCOL = 0x0B"
definition DESC_DEVICE :: u16 where "DESC_DEVICE = 0x0100"
definition DESC_CONFIGURATION :: u16 where "DESC_CONFIGURATION = 0x0200"

record usb_hid_device =
  uh_kind :: usb_hid_kind
  uh_vendor :: u16
  uh_product :: u16
  uh_report_len :: u16

definition port_speed :: "'d host \<Rightarrow> u8 \<Rightarrow> 'd xhci \<Rightarrow> u8 \<times> 'd xhci" where
  "port_speed H port x = (case port_status H port x of (v, x) \<Rightarrow> (ucast (drop_bit 10 v AND 0xF), x))"

definition packet_for_speed :: "u8 \<Rightarrow> u16" where
  "packet_for_speed speed = (if speed = 1 then 8 else if speed = 2 then 8 else if speed = 3 then 64 else 512)"

definition default_max_packet :: "'d host \<Rightarrow> u8 \<Rightarrow> 'd xhci \<Rightarrow> u16 \<times> 'd xhci" where
  "default_max_packet H port x = (case port_speed H port x of (speed, x) \<Rightarrow> (packet_for_speed speed, x))"

text \<open>A word, and a double word, of the context that starts at a byte offset of the input context.\<close>

definition write_ctx :: "'d host \<Rightarrow> nat \<Rightarrow> nat \<Rightarrow> u32 \<Rightarrow> 'd xhci \<Rightarrow> 'd xhci" where
  "write_ctx H start i v x = act H (StoreInput (start + i * 4) v) x"

definition write_ctx64 :: "'d host \<Rightarrow> nat \<Rightarrow> nat \<Rightarrow> u64 \<Rightarrow> 'd xhci \<Rightarrow> 'd xhci" where
  "write_ctx64 H start i v x = write_ctx H start (i + 1) (ucast (drop_bit 32 v)) (write_ctx H start i (ucast v) x)"

definition command_ok :: "xhci_event option \<times> 'd xhci \<Rightarrow> bool \<times> 'd xhci" where
  "command_ok r = (case r of (e, x) \<Rightarrow> (case e of None \<Rightarrow> False | Some e \<Rightarrow> event_completion e = CC_SUCCESS, x))"

definition address_device :: "'d host \<Rightarrow> u8 \<Rightarrow> nat \<Rightarrow> 'd xhci \<Rightarrow> bool \<times> 'd xhci" where
  "address_device H port i x =
     (let cs = context_size x; s = ds_slot (xhci_devices x ! i);
          x = act H ClearInput x;
          x = write_ctx H 0 1 3 x
      in case port_speed H port x of
           (speed, x) \<Rightarrow>
             let x = write_ctx H cs 0 (push_bit 20 (ucast speed) OR shl1 27) x;
                 x = write_ctx H cs 1 (push_bit 16 (ucast port)) x
             in case default_max_packet H port x of
                  (max_packet, x) \<Rightarrow>
                    let x = write_ctx H (cs * 2) 1 (push_bit 3 4 OR push_bit 1 3 OR push_bit 16 (ucast max_packet)) x;
                        x = write_ctx64 H (cs * 2) 2 (transfer_ring_address H i OR 1) x;
                        x = write_ctx H (cs * 2) 4 8 x;
                        x = act H (ClearContext i) x
                    in if MAX_SLOTS < unat s then (False, x)
                       else let x = act H (StoreDcbaa (unat s) (context_address H i)) x
                            in command_ok (command H (symbol H SymInputContext) 0
                                 (push_bit 10 TRB_ADDRESS_DEVICE OR push_bit 24 (ucast s)) x))"

definition endpoint_index :: "u8 \<Rightarrow> nat" where
  "endpoint_index endpoint = unat (endpoint AND 0x0F) * 2 + 1"

definition configure_endpoint :: "'d host \<Rightarrow> nat \<Rightarrow> u8 \<Rightarrow> u16 \<Rightarrow> 'd xhci \<Rightarrow> bool \<times> 'd xhci" where
  "configure_endpoint H i endpoint max_packet x =
     (let n = endpoint_index endpoint; cs = context_size x; s = ds_slot (xhci_devices x ! i);
          x = act H ClearInput x;
          x = write_ctx H 0 1 (1 OR shl1 n) x;
          x = write_ctx H cs 0 (push_bit 27 (of_nat n)) x;
          ep = cs * (n + 1);
          x = write_ctx H ep 1 (push_bit 3 7 OR push_bit 1 3 OR push_bit 16 (ucast max_packet)) x;
          x = write_ctx64 H ep 2 (transfer_ring_address H i OR 1) x;
          x = write_ctx H ep 4 (ucast max_packet) x;
          x = write_ctx H ep 0 (push_bit 16 8) x
      in command_ok (command H (symbol H SymInputContext) 0
           (push_bit 10 TRB_CONFIGURE_ENDPOINT OR push_bit 24 (ucast s)) x))"

definition transfer_done :: "(u32 \<times> u64) option \<times> 'd xhci \<Rightarrow> bool \<times> 'd xhci" where
  "transfer_done r = (case r of (e, x) \<Rightarrow> (case e of None \<Rightarrow> False | Some (code, _) \<Rightarrow> code = CC_SUCCESS, x))"

definition block :: "u64 \<Rightarrow> u32 \<Rightarrow> u32 \<Rightarrow> trb" where
  "block parameter status control = \<lparr>trb_parameter = parameter, trb_status = status, trb_control = control\<rparr>"

definition control_in :: "'d host \<Rightarrow> nat \<Rightarrow> usb_setup \<Rightarrow> u16 \<Rightarrow> 'd xhci \<Rightarrow> bool \<times> 'd xhci" where
  "control_in H i setup len x =
     (let x = act H (ClearBuffer i) x;
          x = transfer H i (block (setup_word setup) 8 (push_bit 10 TRB_SETUP OR push_bit 16 3 OR shl1 6)) x;
          x = transfer H i (block (buffer_address H i) (ucast len) (push_bit 10 TRB_DATA OR shl1 16)) x;
          x = transfer H i (block 0 0 (push_bit 10 TRB_STATUS OR TRB_IOC)) x;
          x = ring_doorbell H (ds_slot (xhci_devices x ! i)) 1 x
      in transfer_done (wait_event H TRB_TRANSFER_EVENT x))"

definition control_out :: "'d host \<Rightarrow> nat \<Rightarrow> usb_setup \<Rightarrow> 'd xhci \<Rightarrow> bool \<times> 'd xhci" where
  "control_out H i setup x =
     (let x = transfer H i (block (setup_word setup) 8 (push_bit 10 TRB_SETUP OR shl1 6)) x;
          x = transfer H i (block 0 0 (push_bit 10 TRB_STATUS OR TRB_IOC OR shl1 16)) x;
          x = ring_doorbell H (ds_slot (xhci_devices x ! i)) 1 x
      in transfer_done (wait_event H TRB_TRANSFER_EVENT x))"

definition buffer_copy :: "'d host \<Rightarrow> nat \<Rightarrow> nat \<Rightarrow> 'd xhci \<Rightarrow> u8 list \<times> 'd xhci" where
  "buffer_copy H i n x = (case buffer_load H i n (hw x) of (b, d) \<Rightarrow> (b, x\<lparr>hw := d\<rparr>))"

definition get_descriptor :: "u16 \<Rightarrow> u16 \<Rightarrow> usb_setup" where
  "get_descriptor what len =
     \<lparr>request_type = 0x80, request = REQ_GET_DESCRIPTOR, setup_value = what, setup_index = 0, setup_length = len\<rparr>"

text \<open>The slot that the controller gives.\<close>

definition enable_slot :: "'d host \<Rightarrow> 'd xhci \<Rightarrow> u8 option \<times> 'd xhci" where
  "enable_slot H x =
     (case command H 0 0 (push_bit 10 TRB_ENABLE_SLOT) x of
        (e, x) \<Rightarrow>
          (case e of
             None \<Rightarrow> None
           | Some e \<Rightarrow> if event_completion e \<noteq> CC_SUCCESS \<or> event_slot e = 0 then None else Some (event_slot e), x))"

definition select_configuration :: "'d host \<Rightarrow> nat \<Rightarrow> parsed_configuration \<Rightarrow> 'd xhci \<Rightarrow> bool \<times> 'd xhci" where
  "select_configuration H i parsed x =
     (case control_out H i \<lparr>request_type = 0x00, request = REQ_SET_CONFIGURATION,
             setup_value = ucast (pc_configuration parsed), setup_index = 0, setup_length = 0\<rparr> x of
        (False, x) \<Rightarrow> (False, x)
      | (True, x) \<Rightarrow>
          let x = snd (control_out H i \<lparr>request_type = 0x21, request = REQ_SET_PROTOCOL, setup_value = 0,
                         setup_index = ucast (pc_interface parsed), setup_length = 0\<rparr> x);
              x = set_slot i (\<lambda>s. s\<lparr>ds_endpoint := pc_endpoint parsed\<rparr>) x
          in configure_endpoint H i (pc_endpoint parsed) (pc_max_packet parsed) x)"

definition xhci_enumerate :: "'d host \<Rightarrow> u8 \<Rightarrow> 'd xhci \<Rightarrow> (nat \<times> usb_hid_device) option \<times> 'd xhci" where
  "xhci_enumerate H port x =
     (let i = device_count x
      in if MAX_DEVICES \<le> i then (None, x)
         else case enable_slot H x of
           (None, x) \<Rightarrow> (None, x)
         | (Some s, x) \<Rightarrow>
             let x = set_slot i (\<lambda>_. device_slot_new\<lparr>ds_slot := s\<rparr>) x
             in case address_device H port i x of
                  (False, x) \<Rightarrow> (None, x)
                | (True, x) \<Rightarrow>
                    (case control_in H i (get_descriptor DESC_DEVICE 18) 18 x of
                       (False, x) \<Rightarrow> (None, x)
                     | (True, x) \<Rightarrow>
                         (case buffer_copy H i 18 x of
                            (device, x) \<Rightarrow>
                              (case control_in H i (get_descriptor DESC_CONFIGURATION 64) 64 x of
                                 (False, x) \<Rightarrow> (None, x)
                               | (True, x) \<Rightarrow>
                                   (case buffer_copy H i 64 x of
                                      (configuration, x) \<Rightarrow>
                                        (case parse_configuration configuration of
                                           None \<Rightarrow> (None, x)
                                         | Some parsed \<Rightarrow>
                                             (case select_configuration H i parsed x of
                                                (False, x) \<Rightarrow> (None, x)
                                              | (True, x) \<Rightarrow>
                                                  (Some (i, \<lparr>uh_kind = pc_kind parsed, uh_vendor = le_word [device ! 8, device ! 9],
                                                             uh_product = le_word [device ! 10, device ! 11],
                                                             uh_report_len = pc_max_packet parsed\<rparr>),
                                                   x\<lparr>device_count := i + 1\<rparr>))))))))"

section \<open>Reports\<close>

definition device_of_slot :: "u8 \<Rightarrow> 'd xhci \<Rightarrow> nat option" where
  "device_of_slot s x = find (\<lambda>i. ds_slot (xhci_devices x ! i) = s) [0..<device_count x]"

definition complete_transfer :: "xhci_event \<Rightarrow> 'd xhci \<Rightarrow> 'd xhci" where
  "complete_transfer e x =
     (if event_kind e \<noteq> TRB_TRANSFER_EVENT then x
      else case device_of_slot (event_slot e) x of
        None \<Rightarrow> x
      | Some i \<Rightarrow>
          let x = set_slot i (\<lambda>s. s\<lparr>ds_queued := False\<rparr>) x
          in if event_completion e = CC_SUCCESS \<or> event_completion e = CC_SHORT_PACKET
             then set_slot i (\<lambda>s. s\<lparr>ds_ready := True\<rparr>) x else x)"

fun drain_loop :: "'d host \<Rightarrow> nat \<Rightarrow> 'd xhci \<Rightarrow> 'd xhci" where
  "drain_loop H 0 x = x"
| "drain_loop H (Suc n) x =
     (case next_event H x of
        (None, x) \<Rightarrow> x
      | (Some e, x) \<Rightarrow> drain_loop H n (complete_transfer e x))"

definition drain_events :: "'d host \<Rightarrow> 'd xhci \<Rightarrow> 'd xhci" where
  "drain_events H x = drain_loop H RING_LEN x"

definition arm :: "'d host \<Rightarrow> nat \<Rightarrow> nat \<Rightarrow> 'd xhci \<Rightarrow> 'd xhci" where
  "arm H i len x =
     (if ds_queued (xhci_devices x ! i) then x
      else let x = transfer H i (block (buffer_address H i) (of_nat (min len 64)) (push_bit 10 TRB_NORMAL OR TRB_IOC)) x;
               s = xhci_devices x ! i;
               target = ucast (ds_endpoint s AND 0x0F) * 2 + 1
           in set_slot i (\<lambda>s. s\<lparr>ds_queued := True\<rparr>) (ring_doorbell H (ds_slot s) target x))"

definition poll_report :: "'d host \<Rightarrow> nat \<Rightarrow> nat \<Rightarrow> 'd xhci \<Rightarrow> u8 list option \<times> 'd xhci" where
  "poll_report H i len x =
     (if device_count x \<le> i then (None, x)
      else let x = drain_events H x
           in if \<not> ds_ready (xhci_devices x ! i) then (None, arm H i len x)
              else let x = set_slot i (\<lambda>s. s\<lparr>ds_ready := False\<rparr>) x
                   in case buffer_copy H i 64 x of
                        (report, x) \<Rightarrow> (Some (take (min len 64) report), arm H i len x))"

section \<open>The walk over a configuration descriptor\<close>

text \<open>
  The records of a configuration, each as long as its first byte says; an interface, and the interrupt
  endpoints into the host that belong to a HID interface, each with that interface.
\<close>

definition usb_record :: "u8 list \<Rightarrow> bool" where
  "usb_record r \<longleftrightarrow> 2 \<le> length r \<and> length r < 256 \<and> r ! 0 = of_nat (length r)"

definition interface_record :: "u8 list \<Rightarrow> bool" where
  "interface_record r \<longleftrightarrow> r ! 1 = 4 \<and> 9 \<le> length r"

definition interrupt_in :: "u8 list \<Rightarrow> bool" where
  "interrupt_in r \<longleftrightarrow> r ! 1 = 5 \<and> 7 \<le> length r \<and> r ! 3 AND 0x03 = 0x03 \<and> r ! 2 AND 0x80 \<noteq> 0"

fun hid_endpoints :: "u8 list option \<Rightarrow> u8 list list \<Rightarrow> (u8 list \<times> u8 list) list" where
  "hid_endpoints cur [] = []"
| "hid_endpoints cur (r # rs) =
     (if interface_record r then hid_endpoints (Some r) rs
      else (case cur of
              Some i \<Rightarrow> if i ! 5 = 3 \<and> interrupt_in r then [(i, r)] else []
            | None \<Rightarrow> []) @ hid_endpoints cur rs)"

definition parsed_as :: "u8 \<Rightarrow> u8 list \<times> u8 list \<Rightarrow> parsed_configuration" where
  "parsed_as configuration pair =
     (case pair of (i, e) \<Rightarrow>
       \<lparr>pc_configuration = configuration, pc_interface = i ! 2, pc_endpoint = e ! 2,
        pc_max_packet = le_word [e ! 4, e ! 5] AND 0x7FF, pc_kind = interface_kind (i ! 7)\<rparr>)"

definition leading :: "'a list \<Rightarrow> 'a option" where
  "leading xs = (case xs of [] \<Rightarrow> None | x # _ \<Rightarrow> Some x)"

lemma parse_records_walk:
  assumes "list_all usb_record rs" "kind = Option.bind cur (\<lambda>i. if i ! 5 = 3 then Some (interface_kind (i ! 7)) else None)"
    and "\<forall>i. cur = Some i \<longrightarrow> i ! 5 = 3 \<longrightarrow> interface = i ! 2"
  shows "parse_records (pre @ concat rs @ replicate k 0) configuration (length pre) kind interface =
    map_option (parsed_as configuration) (leading (hid_endpoints cur rs))"
  using assms
proof (induction rs arbitrary: pre kind cur interface)
  case Nil
  have "parse_records (pre @ replicate k 0) configuration (length pre) kind interface = None"
    by (subst parse_records.simps) (auto simp: nth_append)
  then show ?case by (simp add: leading_def)
next
  case (Cons r rs)
  define buf and start where "buf = pre @ concat (r # rs) @ replicate k 0" and "start = length pre"
  have r: "2 \<le> length r" "unat (r ! 0) = length r"
    using Cons.prems(1) by (simp_all add: usb_record_def unsigned_of_nat take_bit_nat_eq_self)
  have at: "buf ! (start + j) = r ! j" if "j < length r" for j
    using that by (simp add: nth_append buf_def start_def)
  have "r \<noteq> []" using r(1) by auto
  then have at0: "buf ! start = r ! 0" "buf ! Suc start = r ! 1" using at [of 0] at [of 1] r(1) by simp_all
  have len: "start + 2 \<le> length buf" "\<not> length buf < start + length r" using r(1) by (simp_all add: buf_def start_def)
  have IH: "parse_records buf configuration (start + length r) kind' interface' =
      map_option (parsed_as configuration) (leading (hid_endpoints cur' rs))"
    if "kind' = Option.bind cur' (\<lambda>i. if i ! 5 = 3 then Some (interface_kind (i ! 7)) else None)"
      "\<forall>i. cur' = Some i \<longrightarrow> i ! 5 = 3 \<longrightarrow> interface' = i ! 2" for kind' cur' interface'
    using Cons.IH [of kind' cur' interface' "pre @ r"] Cons.prems(1) that by (simp add: buf_def start_def)
  have "parse_records buf configuration start kind interface =
      map_option (parsed_as configuration) (leading (hid_endpoints cur (r # rs)))"
  proof (cases "interface_record r")
    case True
    then have i: "r ! 1 = 4" "9 \<le> length r" by (simp_all add: interface_record_def)
    then have b: "buf ! (start + 5) = r ! 5" "buf ! (start + 7) = r ! 7" "buf ! Suc (Suc start) = r ! 2"
      using at [of 5] at [of 7] at [of 2] by simp_all
    show ?thesis using True i r len
      by (subst parse_records.simps) (simp add: Let_def at0 b IH [where cur' = "Some r"])
  next
    case False
    let ?hit = "\<exists>i. cur = Some i \<and> i ! 5 = 3 \<and> interrupt_in r"
    have b: "7 \<le> length r \<Longrightarrow> buf ! Suc (Suc start) = r ! 2 \<and> buf ! (start + 3) = r ! 3 \<and>
      buf ! (start + 4) = r ! 4 \<and> buf ! (start + 5) = r ! 5"
      using at [of 2] at [of 3] at [of 4] at [of 5] by simp
    show ?thesis
    proof (cases ?hit)
      case hit: True
      then obtain i where i: "cur = Some i" "i ! 5 = 3" "interrupt_in r" by blast
      then have e: "r ! 1 = 5" "7 \<le> length r" "r ! 3 AND 0x03 = 0x03" "r ! 2 AND 0x80 \<noteq> 0" by (simp_all add: interrupt_in_def)
      show ?thesis using False i e r len b Cons.prems(2,3)
        by (subst parse_records.simps) (simp add: Let_def at0 leading_def parsed_as_def)
    next
      case miss: False
      have "parse_records buf configuration start kind interface =
          parse_records buf configuration (start + length r) kind interface"
        using False miss r len b Cons.prems(2)
        by (subst parse_records.simps) (auto simp: Let_def at0 interface_record_def interrupt_in_def split: bind_splits)
      also have "\<dots> = map_option (parsed_as configuration) (leading (hid_endpoints cur rs))"
        using Cons.prems(2,3) by (intro IH) simp_all
      also have "hid_endpoints cur rs = hid_endpoints cur (r # rs)" using False miss by (auto split: option.split)
      finally show ?thesis .
    qed
  qed
  then show ?case unfolding buf_def start_def .
qed

text \<open>
  C20. The walk finds the first interrupt endpoint of a HID interface.  For a configuration of any records,
  padded with zeros as the buffer is, the parser gives the first of all pairs of a HID interface and an
  interrupt endpoint of it, decoded, and nothing when there is none: endpoints of other interfaces, bulk and
  outgoing endpoints and records of any other type are passed over.
\<close>

theorem configuration_first_endpoint:
  assumes "list_all usb_record (header # rs)" "9 \<le> length header" "header ! 1 = 2"
  shows "parse_configuration (concat (header # rs) @ replicate k 0) =
    map_option (parsed_as (header ! 5)) (leading (hid_endpoints None rs))"
proof -
  let ?buf = "concat (header # rs) @ replicate k 0"
  have "?buf ! 1 = 2" "?buf ! 5 = header ! 5" "9 \<le> length ?buf" using assms(2,3) by (simp_all add: nth_append)
  then have "parse_configuration ?buf = parse_records ?buf (header ! 5) 0 None 0"
    by (simp add: parse_configuration_def del: concat.simps)
  also have "\<dots> = map_option (parsed_as (header ! 5)) (leading (hid_endpoints None (header # rs)))"
    using parse_records_walk [of "header # rs" None None 0 "[]" k "header ! 5"] assms(1) by simp
  also have "hid_endpoints None (header # rs) = hid_endpoints None rs"
    using assms(3) by (simp add: interface_record_def)
  finally show ?thesis .
qed

text \<open>A composite device: a serial interface with an interrupt endpoint of its own, then a keyboard.\<close>

definition composite :: "u8 list list" where
  "composite =
     [[9, 4, 0, 0, 1, 2, 2, 1, 0], [7, 5, 0x81, 3, 16, 0, 10],
      [9, 4, 1, 0, 1, 3, 1, 1, 0], [9, 0x21, 0x11, 1, 0, 1, 0x22, 65, 0], [7, 5, 0x02, 3, 8, 0, 10], [7, 5, 0x83, 3, 8, 0, 10]]"

lemma configuration_first_endpoint_witness:
  "parse_configuration (concat ([9, 2, 57, 0, 2, 1, 0, 0xA0, 50] # composite) @ replicate 7 0) =
     Some \<lparr>pc_configuration = 1, pc_interface = 1, pc_endpoint = 0x83, pc_max_packet = 8, pc_kind = HidKeyboard\<rparr>"
proof -
  have "list_all usb_record ([9, 2, 57, 0, 2, 1, 0, 0xA0, 50] # composite)" by (simp add: composite_def usb_record_def)
  from configuration_first_endpoint [OF this] have "parse_configuration (concat ([9, 2, 57, 0, 2, 1, 0, 0xA0, 50] # composite) @ replicate 7 0) =
      map_option (parsed_as 1) (leading (hid_endpoints None composite))" by simp
  also have "\<dots> = Some \<lparr>pc_configuration = 1, pc_interface = 1, pc_endpoint = 0x83, pc_max_packet = 8, pc_kind = HidKeyboard\<rparr>"
    by code_simp
  finally show ?thesis .
qed

section \<open>Reports\<close>

text \<open>
  The events that a drain takes, those among them that end a transfer of a device, and those that end it
  well.
\<close>

fun drained :: "'d host \<Rightarrow> nat \<Rightarrow> 'd xhci \<Rightarrow> xhci_event list" where
  "drained H 0 x = []"
| "drained H (Suc n) x =
     (case next_event H x of
        (None, x) \<Rightarrow> []
      | (Some e, x) \<Rightarrow> e # drained H n (complete_transfer e x))"

definition ends_transfer :: "nat \<Rightarrow> 'd xhci \<Rightarrow> xhci_event \<Rightarrow> bool" where
  "ends_transfer i x e \<longleftrightarrow> event_kind e = TRB_TRANSFER_EVENT \<and> device_of_slot (event_slot e) x = Some i"

definition ends_well :: "xhci_event \<Rightarrow> bool" where
  "ends_well e \<longleftrightarrow> event_completion e = CC_SUCCESS \<or> event_completion e = CC_SHORT_PACKET"

definition in_bounds :: "'d xhci \<Rightarrow> bool" where
  "in_bounds x \<longleftrightarrow> device_count x \<le> length (xhci_devices x)"

lemma act_keeps [simp]:
  "device_count (act H e x) = device_count x" "device_count (set_slot i f x) = device_count x"
  "device_count (write64 H a v x) = device_count x" "xhci_devices (write64 H a v x) = xhci_devices x"
  "device_count (ring_doorbell H s t x) = device_count x" "xhci_devices (ring_doorbell H s t x) = xhci_devices x"
  by (simp_all add: act_def set_slot_def write64_def ring_doorbell_def)

lemma slot_of_set_slot:
  "xhci_devices (set_slot i f x) ! j = (if j = i \<and> i < length (xhci_devices x) then f (xhci_devices x ! i) else xhci_devices x ! j)"
  by (cases "i < length (xhci_devices x)") (simp_all add: set_slot_def nth_list_update list_update_beyond)

lemma next_event_keeps [simp]:
  "next_event H x = (e, x') \<Longrightarrow> xhci_devices x' = xhci_devices x"
  "next_event H x = (e, x') \<Longrightarrow> device_count x' = device_count x"
  by (auto simp: next_event_def Let_def split: prod.splits if_splits)

lemma complete_transfer_keeps [simp]:
  "device_count (complete_transfer e x) = device_count x"
  "length (xhci_devices (complete_transfer e x)) = length (xhci_devices x)"
  "hw (complete_transfer e x) = hw x"
  by (auto simp: complete_transfer_def Let_def split: option.split)

lemma device_of_slot_bound:
  assumes "device_of_slot s x = Some i"
  shows "i < device_count x" "ds_slot (xhci_devices x ! i) = s"
  using assms by (auto simp: device_of_slot_def find_Some_iff)

lemma complete_transfer_slot:
  assumes "in_bounds x"
  shows "xhci_devices (complete_transfer e x) ! i =
    (if ends_transfer i x e
     then (xhci_devices x ! i)\<lparr>ds_queued := False, ds_ready := ds_ready (xhci_devices x ! i) \<or> ends_well e\<rparr>
     else xhci_devices x ! i)"
proof (cases "event_kind e = TRB_TRANSFER_EVENT")
  case True
  show ?thesis
  proof (cases "device_of_slot (event_slot e) x")
    case (Some j)
    then have "j < length (xhci_devices x)" using device_of_slot_bound(1) assms by (fastforce simp: in_bounds_def)
    then show ?thesis using True Some
      by (simp add: complete_transfer_def ends_transfer_def ends_well_def Let_def slot_of_set_slot)
  qed (simp add: complete_transfer_def ends_transfer_def)
qed (simp add: complete_transfer_def ends_transfer_def)

lemma device_of_slot_cong:
  assumes "device_count y = device_count x" "\<And>i. ds_slot (xhci_devices y ! i) = ds_slot (xhci_devices x ! i)"
  shows "device_of_slot s y = device_of_slot s x"
  using assms by (simp add: device_of_slot_def)

lemma complete_transfer_ends [simp]:
  "in_bounds x \<Longrightarrow> ends_transfer i (complete_transfer e x) e' = ends_transfer i x e'"
  by (simp add: ends_transfer_def device_of_slot_cong [of "complete_transfer e x" x] complete_transfer_slot)

lemma next_event_ends:
  "next_event H x = (e, y) \<Longrightarrow> ends_transfer i y e' = ends_transfer i x e'"
  by (simp add: ends_transfer_def device_of_slot_cong [of y x])

lemma next_event_in_bounds: "next_event H x = (e, y) \<Longrightarrow> in_bounds y = in_bounds x"
  by (simp add: in_bounds_def)

lemma complete_transfer_in_bounds [simp]: "in_bounds (complete_transfer e x) = in_bounds x"
  by (simp add: in_bounds_def)

lemma drain_loop_keeps [simp]:
  "device_count (drain_loop H n x) = device_count x"
  "length (xhci_devices (drain_loop H n x)) = length (xhci_devices x)"
  by (induction n arbitrary: x) (simp_all split: prod.split option.split)

lemma drain_loop_slot:
  assumes "in_bounds x"
  shows "xhci_devices (drain_loop H n x) ! i =
    (let es = filter (ends_transfer i x) (drained H n x); s = xhci_devices x ! i
     in if es = [] then s else s\<lparr>ds_queued := False, ds_ready := ds_ready s \<or> list_ex ends_well es\<rparr>)"
  using assms
proof (induction n arbitrary: x)
  case (Suc n)
  obtain e y where n: "next_event H x = (e, y)" by fastforce
  show ?case
  proof (cases e)
    case None
    then show ?thesis using n by simp
  next
    case (Some e)
    let ?z = "complete_transfer e y"
    have b: "in_bounds y" using next_event_in_bounds [OF n] Suc.prems by simp
    then have "ends_transfer i ?z = ends_transfer i x"
      using next_event_ends [OF n] by (simp add: fun_eq_iff)
    moreover have "xhci_devices (drain_loop H (Suc n) x) ! i = xhci_devices (drain_loop H n ?z) ! i"
      "drained H (Suc n) x = e # drained H n ?z" using n Some by simp_all
    moreover have "xhci_devices ?z ! i = (if ends_transfer i x e
        then (xhci_devices x ! i)\<lparr>ds_queued := False, ds_ready := ds_ready (xhci_devices x ! i) \<or> ends_well e\<rparr>
        else xhci_devices x ! i)"
      using complete_transfer_slot [OF b] next_event_ends [OF n] n by simp
    ultimately show ?thesis using Suc.IH [of ?z] b by (simp add: Let_def disj_ac)
  qed
qed simp

text \<open>What a device keeps through the placing of a block.\<close>

definition lane :: "device_slot \<Rightarrow> u8 \<times> u8 \<times> bool \<times> bool" where
  "lane s = (ds_slot s, ds_endpoint s, ds_queued s, ds_ready s)"

lemma lane_index [simp]: "lane (s\<lparr>ds_index := n\<rparr>) = lane s" "lane (s\<lparr>ds_index := n, ds_cycle := c\<rparr>) = lane s"
  by (simp_all add: lane_def)

lemma set_slot_lane:
  assumes "\<And>s. lane (f s) = lane s"
  shows "lane (xhci_devices (set_slot i f x) ! j) = lane (xhci_devices x ! j)"
  using assms by (simp add: slot_of_set_slot)

lemma wrap_keeps [simp]:
  "device_count (wrap_transfer_ring H i x) = device_count x"
  "length (xhci_devices (wrap_transfer_ring H i x)) = length (xhci_devices x)"
  "lane (xhci_devices (wrap_transfer_ring H i x) ! j) = lane (xhci_devices x ! j)"
  "j \<noteq> i \<Longrightarrow> xhci_devices (wrap_transfer_ring H i x) ! j = xhci_devices x ! j"
  unfolding wrap_transfer_ring_def by (simp_all add: set_slot_lane) (simp add: slot_of_set_slot)

lemma transfer_keeps [simp]:
  "device_count (transfer H i t x) = device_count x"
  "length (xhci_devices (transfer H i t x)) = length (xhci_devices x)"
  "lane (xhci_devices (transfer H i t x) ! j) = lane (xhci_devices x ! j)"
  "j \<noteq> i \<Longrightarrow> xhci_devices (transfer H i t x) ! j = xhci_devices x ! j"
  by (simp_all add: transfer_def Let_def set_slot_lane) (simp add: slot_of_set_slot)

lemma transfer_keeps_flags [simp]:
  "ds_slot (xhci_devices (transfer H i t x) ! j) = ds_slot (xhci_devices x ! j)"
  "ds_queued (xhci_devices (transfer H i t x) ! j) = ds_queued (xhci_devices x ! j)"
  "ds_ready (xhci_devices (transfer H i t x) ! j) = ds_ready (xhci_devices x ! j)"
  using transfer_keeps(3) [of H i t x j] by (simp_all add: lane_def)

lemma arm_keeps [simp]:
  "device_count (arm H i len x) = device_count x"
  "length (xhci_devices (arm H i len x)) = length (xhci_devices x)"
  "ds_slot (xhci_devices (arm H i len x) ! j) = ds_slot (xhci_devices x ! j)"
  "ds_ready (xhci_devices (arm H i len x) ! j) = ds_ready (xhci_devices x ! j)"
  by (auto simp: arm_def Let_def slot_of_set_slot)

lemma arm_queued:
  "i < length (xhci_devices x) \<Longrightarrow> ds_queued (xhci_devices (arm H i len x) ! j) = (j = i \<or> ds_queued (xhci_devices x ! j))"
  by (auto simp: arm_def Let_def slot_of_set_slot)

lemma buffer_copy_keeps [simp]:
  "buffer_copy H i n x = (b, y) \<Longrightarrow> xhci_devices y = xhci_devices x"
  "buffer_copy H i n x = (b, y) \<Longrightarrow> device_count y = device_count x"
  by (auto simp: buffer_copy_def split: prod.splits)

lemma poll_report_slots:
  assumes "poll_report H i len x = (r, x')" "in_bounds x" "i < device_count x"
  shows "r \<noteq> None \<longleftrightarrow> ds_ready (xhci_devices (drain_events H x) ! i)"
    "ds_queued (xhci_devices x' ! i)" "\<not> ds_ready (xhci_devices x' ! i)"
    "j \<noteq> i \<Longrightarrow> xhci_devices x' ! j = xhci_devices (drain_events H x) ! j"
proof -
  let ?d = "drain_events H x"
  have d: "i < length (xhci_devices ?d)"
    using assms(2,3) by (simp add: drain_events_def in_bounds_def)
  have other: "j \<noteq> i \<Longrightarrow> xhci_devices (arm H i len y) ! j = xhci_devices y ! j" for y :: "'a xhci"
    by (simp add: arm_def Let_def slot_of_set_slot)
  have "(r \<noteq> None \<longleftrightarrow> ds_ready (xhci_devices ?d ! i)) \<and> ds_queued (xhci_devices x' ! i) \<and> \<not> ds_ready (xhci_devices x' ! i) \<and>
      (j \<noteq> i \<longrightarrow> xhci_devices x' ! j = xhci_devices ?d ! j)"
  proof (cases "ds_ready (xhci_devices ?d ! i)")
    case False
    then have "r = None" "x' = arm H i len ?d" using assms(1,3) by (simp_all add: poll_report_def Let_def)
    then show ?thesis using False d other [of ?d] by (auto simp: arm_queued)
  next
    case True
    let ?y = "set_slot i (\<lambda>s. s\<lparr>ds_ready := False\<rparr>) ?d"
    obtain b z where c: "buffer_copy H i 64 ?y = (b, z)" by fastforce
    then have "r = Some (take (min len 64) b)" "x' = arm H i len z"
      using assms(1,3) True by (simp_all add: poll_report_def Let_def)
    then show ?thesis using True d c other [of z] by (auto simp: arm_queued slot_of_set_slot)
  qed
  then show "r \<noteq> None \<longleftrightarrow> ds_ready (xhci_devices ?d ! i)"
    "ds_queued (xhci_devices x' ! i)" "\<not> ds_ready (xhci_devices x' ! i)"
    "j \<noteq> i \<Longrightarrow> xhci_devices x' ! j = xhci_devices ?d ! j" by simp_all
qed

text \<open>
  C15. A poll gives a report out exactly when a transfer of that device has ended well: in an earlier poll,
  when the event was seen while another device was asked, or in the events this poll drains.  A transfer that
  failed gives nothing.  Afterwards a transfer is in flight again and no report waits; the state of the other
  devices is what the drained events make it.
\<close>

theorem report_iff_completed:
  assumes "poll_report H i len x = (r, x')" "in_bounds x" "i < device_count x"
  shows "(r \<noteq> None \<longleftrightarrow> ds_ready (xhci_devices x ! i) \<or> (\<exists>e. e \<in> set (drained H RING_LEN x) \<and> ends_transfer i x e \<and> ends_well e)) \<and>
    ds_queued (xhci_devices x' ! i) \<and> \<not> ds_ready (xhci_devices x' ! i) \<and>
    (j = i \<or> xhci_devices x' ! j = xhci_devices (drain_events H x) ! j)"
  using poll_report_slots [OF assms] drain_loop_slot [OF assms(2), of H RING_LEN i]
  by (auto simp: drain_events_def Let_def list_ex_iff filter_empty_conv)

text \<open>A driver with one device in slot 1, and a transfer event for it at the front of the event ring.\<close>

definition sample_event :: "u32 \<Rightarrow> trb" where
  "sample_event code =
     \<lparr>trb_parameter = 0, trb_status = push_bit 24 code, trb_control = push_bit 24 1 OR push_bit 10 TRB_TRANSFER_EVENT OR TRB_CYCLE\<rparr>"

definition sample_polled :: "u32 \<Rightarrow> trb list xhci" where
  "sample_polled code =
     (sample_xhci (ring_new[0 := sample_event code]))
       \<lparr>xhci_devices := [device_slot_new\<lparr>ds_slot := 1, ds_endpoint := 0x81, ds_queued := True\<rparr>, device_slot_new], device_count := 1\<rparr>"

lemma report_iff_completed_witness:
  "fst (poll_report posting_host 0 8 (sample_polled 13)) \<noteq> None \<and> fst (poll_report posting_host 0 8 (sample_polled 4)) = None"
proof -
  have e: "drained posting_host RING_LEN (sample_polled 13) = [event_of (sample_event 13)]"
    "drained posting_host RING_LEN (sample_polled 4) = [event_of (sample_event 4)]" by code_simp+
  have w: "in_bounds (sample_polled 13)" "in_bounds (sample_polled 4)" "0 < device_count (sample_polled 13)"
    "0 < device_count (sample_polled 4)" "\<not> ds_ready (xhci_devices (sample_polled 4) ! 0)" by code_simp+
  have f: "ends_transfer 0 (sample_polled 13) (event_of (sample_event 13))" "ends_well (event_of (sample_event 13))"
    "\<not> ends_well (event_of (sample_event 4))" by code_simp+
  show ?thesis
    using report_iff_completed [OF prod.collapse [symmetric], of "sample_polled 13" 0 posting_host 8 0]
      report_iff_completed [OF prod.collapse [symmetric], of "sample_polled 4" 0 posting_host 8 0] e w f by simp
qed

text \<open>
  A run of polls of the devices in any order, with the events drained and the devices that gave a report; the
  blocks placed on the ring of a device, the link blocks aside.
\<close>

inductive poll_run :: "'d host \<Rightarrow> 'd xhci \<Rightarrow> 'd xhci \<Rightarrow> xhci_event list \<Rightarrow> nat list \<Rightarrow> bool"
  for H x0 where
  poll_none: "poll_run H x0 x0 [] []"
| poll_some: "poll_run H x0 x events given \<Longrightarrow> i < device_count x \<Longrightarrow> poll_report H i len x = (r, x') \<Longrightarrow>
    poll_run H x0 x' (events @ drained H RING_LEN x) (given @ (case r of None \<Rightarrow> [] | Some b \<Rightarrow> [i]))"

definition blocks_placed :: "nat \<Rightarrow> ('d \<times> effect list) xhci \<Rightarrow> nat" where
  "blocks_placed i x = length (filter (\<lambda>(k, t). k < RING_LEN - 1) (ring_stores (TransferRing i) (snd (hw x))))"

lemma placed_act:
  "blocks_placed i (act (logging H) e x) = blocks_placed i x + (case e of StoreTrb (TransferRing j) k t \<Rightarrow> (if j = i \<and> k < RING_LEN - 1 then 1 else 0) | _ \<Rightarrow> 0)"
  by (simp add: blocks_placed_def logged_act split: effect.split ring_id.split)

lemma placed_keeps [simp]:
  "blocks_placed i (set_slot j f x) = blocks_placed i x" "blocks_placed i (write64 (logging H) a v x) = blocks_placed i x"
  "blocks_placed i (ring_doorbell (logging H) s t x) = blocks_placed i x" "blocks_placed i (complete_transfer e x) = blocks_placed i x"
  by (simp_all add: write64_def ring_doorbell_def placed_act) (simp_all add: blocks_placed_def)

lemma logged_event_load: "event_load (logging H) i d = (t, d') \<Longrightarrow> snd d' = snd d"
  by (auto simp: logging_def case_prod_beta)

lemma placed_next_event [simp]: "next_event (logging H) x = (e, y) \<Longrightarrow> blocks_placed i y = blocks_placed i x"
  by (auto simp: next_event_def Let_def split: prod.splits if_splits dest!: logged_event_load) (simp_all add: blocks_placed_def)

lemma placed_buffer_copy [simp]: "buffer_copy (logging H) j n x = (b, y) \<Longrightarrow> blocks_placed i y = blocks_placed i x"
  by (auto simp: buffer_copy_def logging_def blocks_placed_def case_prod_beta)

lemma placed_drain_loop [simp]: "blocks_placed i (drain_loop (logging H) n x) = blocks_placed i x"
  by (induction n arbitrary: x) (simp_all split: prod.split option.split)

lemma placed_wrap [simp]: "blocks_placed i (wrap_transfer_ring (logging H) j x) = blocks_placed i x"
  by (simp add: wrap_transfer_ring_def placed_act)

lemma wrap_index:
  "j < length (xhci_devices x) \<Longrightarrow> ds_index (xhci_devices (wrap_transfer_ring H j x) ! j) = 0"
  by (simp add: wrap_transfer_ring_def)

lemma placed_transfer:
  "j < length (xhci_devices x) \<Longrightarrow> blocks_placed i (transfer (logging H) j t x) = blocks_placed i x + (if j = i then 1 else 0)"
  by (cases "j = i") (simp_all add: transfer_def Let_def placed_act wrap_index RING_LEN_def)

lemma placed_arm:
  "j < length (xhci_devices x) \<Longrightarrow>
    blocks_placed i (arm (logging H) j len x) = blocks_placed i x + (if j = i \<and> \<not> ds_queued (xhci_devices x ! j) then 1 else 0)"
  by (simp add: arm_def Let_def placed_transfer)

lemma poll_report_cases:
  assumes "poll_report H i len x = (r, x')" "i < device_count x"
  obtains "r = None" "x' = arm H i len (drain_events H x)" "\<not> ds_ready (xhci_devices (drain_events H x) ! i)"
  | b y where "r = Some (take (min len 64) b)" "x' = arm H i len y" "ds_ready (xhci_devices (drain_events H x) ! i)"
    "buffer_copy H i 64 (set_slot i (\<lambda>s. s\<lparr>ds_ready := False\<rparr>) (drain_events H x)) = (b, y)"
  using assms by (auto simp: poll_report_def Let_def split: if_splits prod.splits)

lemma poll_report_placed:
  assumes "poll_report (logging H) j len x = (r, x')" "in_bounds x" "j < device_count x"
  shows "blocks_placed i x' = blocks_placed i x + (if j = i \<and> \<not> ds_queued (xhci_devices (drain_events (logging H) x) ! i) then 1 else 0)"
proof -
  have "j < length (xhci_devices (drain_events (logging H) x))" using assms(2,3) by (simp add: drain_events_def in_bounds_def)
  then show ?thesis
    using assms(1,3) by (elim poll_report_cases) (auto simp: placed_arm drain_events_def slot_of_set_slot)
qed

lemma poll_report_keeps:
  assumes "poll_report H j len x = (r, x')" "j < device_count x" "in_bounds x"
  shows "device_count x' = device_count x" "in_bounds x'" "ends_transfer i x' = ends_transfer i x"
proof -
  have j: "j < length (xhci_devices (drain_events H x))" using assms(2,3) by (simp add: drain_events_def in_bounds_def)
  have d: "ds_slot (xhci_devices (drain_events H x) ! k) = ds_slot (xhci_devices x ! k)" for k
    using drain_loop_slot [OF assms(3)] by (simp add: drain_events_def Let_def)
  from assms(1,2) show c: "device_count x' = device_count x"
    by (elim poll_report_cases) (simp_all add: drain_events_def)
  from assms(1,2) have "length (xhci_devices x') = length (xhci_devices x)"
    by (elim poll_report_cases) (simp_all add: drain_events_def)
  with c assms(3) show "in_bounds x'" by (simp add: in_bounds_def)
  from assms(1,2) d have "ds_slot (xhci_devices x' ! k) = ds_slot (xhci_devices x ! k)" for k
    by (elim poll_report_cases) (simp_all add: slot_of_set_slot)
  then show "ends_transfer i x' = ends_transfer i x"
    using c by (simp add: fun_eq_iff ends_transfer_def device_of_slot_cong [of x' x])
qed

text \<open>The two budgets of a run: transfers placed against transfers ended, reports given against transfers ended well.\<close>

definition transfers_ended :: "nat \<Rightarrow> 'd xhci \<Rightarrow> xhci_event list \<Rightarrow> nat" where
  "transfers_ended i x events = length (filter (ends_transfer i x) events)"

definition transfers_ended_well :: "nat \<Rightarrow> 'd xhci \<Rightarrow> xhci_event list \<Rightarrow> nat" where
  "transfers_ended_well i x events = length (filter (\<lambda>e. ends_transfer i x e \<and> ends_well e) events)"

lemma poll_run_budget:
  assumes "poll_run (logging H) x0 x events given" "in_bounds x0"
    and "\<not> ds_queued (xhci_devices x0 ! i)" "\<not> ds_ready (xhci_devices x0 ! i)"
  shows "in_bounds x \<and> device_count x = device_count x0 \<and> ends_transfer i x = ends_transfer i x0 \<and>
    blocks_placed i x \<le> blocks_placed i x0 + transfers_ended i x0 events + (if ds_queued (xhci_devices x ! i) then 1 else 0) \<and>
    count_list given i + (if ds_ready (xhci_devices x ! i) then 1 else 0) \<le> transfers_ended_well i x0 events"
  using assms(1)
proof induction
  case poll_none
  then show ?case using assms(2-4) by (simp add: transfers_ended_def transfers_ended_well_def)
next
  case (poll_some x events given j len r x')
  let ?H = "logging H"
  have b: "in_bounds x" and e: "ends_transfer i x = ends_transfer i x0" using poll_some.IH by simp_all
  note keeps = poll_report_keeps [OF poll_some.hyps(3,2) b]
  let ?d = "drain_events ?H x" and ?es = "filter (ends_transfer i x0) (drained ?H RING_LEN x)"
  have s: "xhci_devices ?d ! i = (let s = xhci_devices x ! i in if ?es = [] then s
      else s\<lparr>ds_queued := False, ds_ready := ds_ready s \<or> list_ex ends_well ?es\<rparr>)"
    using drain_loop_slot [OF b, of ?H RING_LEN i] by (simp add: drain_events_def e Let_def)
  have w: "list_ex ends_well ?es \<Longrightarrow> 1 \<le> transfers_ended_well i x0 (drained ?H RING_LEN x)"
    by (auto simp: transfers_ended_well_def list_ex_iff Suc_le_eq filter_empty_conv)
  have n: "?es \<noteq> [] \<Longrightarrow> 1 \<le> transfers_ended i x0 (drained ?H RING_LEN x)"
    by (simp add: transfers_ended_def Suc_le_eq)
  have placed_d: "blocks_placed i x + (if ds_queued (xhci_devices ?d ! i) then 0 else 1) \<le>
      blocks_placed i x0 + transfers_ended i x0 (events @ drained ?H RING_LEN x) + 1"
    using poll_some.IH s n by (auto simp: Let_def transfers_ended_def split: if_splits)
  have given_d: "count_list given i + (if ds_ready (xhci_devices ?d ! i) then 1 else 0) \<le>
      transfers_ended_well i x0 (events @ drained ?H RING_LEN x)"
    using poll_some.IH s w by (auto simp: Let_def transfers_ended_well_def split: if_splits)
  note r = poll_report_slots [OF poll_some.hyps(3) b poll_some.hyps(2)]
  note p = poll_report_placed [OF poll_some.hyps(3) b poll_some.hyps(2), of i]
  show ?case
  proof (cases "j = i")
    case True
    then show ?thesis using poll_some.IH keeps placed_d given_d r p by (auto split: option.splits if_splits)
  next
    case False
    then show ?thesis using poll_some.IH keeps placed_d given_d r p by (auto split: option.splits if_splits)
  qed
qed

text \<open>
  C7. A device never has more than one transfer in flight, and a report is given out at most once.  In a run of
  polls of all devices in any order, the blocks placed for a device are at most one more than the transfers of
  it that have ended, and the reports given are at most the transfers of it that ended well.
\<close>

theorem one_transfer_in_flight:
  assumes "poll_run (logging H) x0 x events given" "in_bounds x0"
    and "\<not> ds_queued (xhci_devices x0 ! i)" "\<not> ds_ready (xhci_devices x0 ! i)"
  shows "blocks_placed i x \<le> blocks_placed i x0 + transfers_ended i x0 events + 1 \<and>
    count_list given i \<le> transfers_ended_well i x0 events"
  using poll_run_budget [OF assms] by (auto split: if_splits)

text \<open>The sample driver on a logging host, before its first poll; an event of an earlier transfer waits.\<close>

definition sample_running :: "(trb list \<times> effect list) xhci" where
  "sample_running =
     (sample_xhci (ring_new[0 := sample_event 13], []))
       \<lparr>xhci_devices := [device_slot_new\<lparr>ds_slot := 1, ds_endpoint := 0x81\<rparr>, device_slot_new], device_count := 1\<rparr>"

lemma one_transfer_in_flight_witness:
  "blocks_placed 0 (snd (poll_report (logging posting_host) 0 8 sample_running)) \<le> 2 \<and>
   blocks_placed 0 (snd (poll_report (logging posting_host) 0 8 sample_running)) = 1 \<and> count_list [0::nat] 0 \<le> 1"
proof -
  let ?H = "logging posting_host" and ?x = sample_running
  let ?p = "poll_report ?H 0 8 ?x"
  have e: "drained ?H RING_LEN ?x = [event_of (sample_event 13)]" by code_simp
  have w: "in_bounds ?x" "0 < device_count ?x" "\<not> ds_queued (xhci_devices ?x ! 0)" "\<not> ds_ready (xhci_devices ?x ! 0)"
    "blocks_placed 0 ?x = 0" "transfers_ended 0 ?x [event_of (sample_event 13)] = 1"
    "transfers_ended_well 0 ?x [event_of (sample_event 13)] = 1" "fst ?p = Some (replicate 8 0)" "blocks_placed 0 (snd ?p) = 1" by code_simp+
  have p: "?p = (Some (replicate 8 0), snd ?p)" using w(8) by (simp add: prod_eq_iff)
  have "poll_run ?H ?x (snd ?p) ([] @ drained ?H RING_LEN ?x) ([] @ (case Some (replicate 8 (0::u8)) of None \<Rightarrow> [] | Some b \<Rightarrow> [0]))"
    by (rule poll_some [OF poll_none w(2) p])
  from one_transfer_in_flight [OF this w(1,3,4)] show ?thesis unfolding e using w by simp
qed

section \<open>Enumeration\<close>

text \<open>The effects that stay inside the structures they write to, for the context size of the driver.\<close>

fun effect_inside :: "nat \<Rightarrow> effect \<Rightarrow> bool" where
  "effect_inside cs (StoreTrb CommandRing k t) = (k < RING_LEN)"
| "effect_inside cs (StoreTrb (TransferRing i) k t) = (i < MAX_DEVICES \<and> k < RING_LEN)"
| "effect_inside cs (StoreDcbaa k a) = (k \<le> MAX_SLOTS)"
| "effect_inside cs (StoreScratchpad k a) = (k < MAX_SCRATCHPAD)"
| "effect_inside cs (StoreInput k v) = (k mod 4 = 0 \<and> k + 4 \<le> 33 * cs)"
| "effect_inside cs (ClearContext i) = (i < MAX_DEVICES)"
| "effect_inside cs (ClearBuffer i) = (i < MAX_DEVICES)"
| "effect_inside cs e = True"

text \<open>The driver as it is between operations: two devices, and every index of a ring inside it.\<close>

definition indices_ok :: "'d xhci \<Rightarrow> bool" where
  "indices_ok x \<longleftrightarrow>
     length (xhci_devices x) = MAX_DEVICES \<and> list_all (\<lambda>s. ds_index s < RING_LEN) (xhci_devices x) \<and>
     command_index x < RING_LEN \<and> event_index x < RING_LEN \<and> device_count x \<le> MAX_DEVICES \<and>
     context_size x mod 4 = 0 \<and> 32 \<le> context_size x"

lemma context_size_keeps [simp]:
  "context_size (act H e x) = context_size x" "context_size (set_slot i f x) = context_size x"
  "context_size (write_ctx H start k v x) = context_size x" "context_size (snd (rd32 H a x)) = context_size x"
  by (simp_all add: act_def set_slot_def write_ctx_def rd32_def split: prod.split)

lemma devices_keep [simp]:
  "xhci_devices (write_ctx H start k v x) = xhci_devices x" "xhci_devices (snd (rd32 H a x)) = xhci_devices x"
  by (simp_all add: write_ctx_def rd32_def split: prod.split)

lemma snd_port_speed: "snd (port_speed H port x) = snd (rd32 H (portsc_at port x) x)"
  by (simp add: port_speed_def port_status_def split: prod.split)

lemma snd_default_max_packet: "snd (default_max_packet H port x) = snd (rd32 H (portsc_at port x) x)"
  by (simp add: default_max_packet_def snd_port_speed [symmetric] split: prod.split)

lemma snd_command_ok [simp]: "snd (command_ok r) = snd r"
  by (cases r) (simp add: command_ok_def)

lemma endpoint_index_bounds: "endpoint_index e \<le> 31" "1 \<le> endpoint_index e"
proof -
  have "unat (e AND 0x0F) \<le> 15" using word_le_nat_alt [of "e AND 0x0F" "0x0F"] word_and_le1 [of e "0x0F"] by simp
  then show "endpoint_index e \<le> 31" "1 \<le> endpoint_index e" by (simp_all add: endpoint_index_def)
qed

text \<open>
  What the operations of an enumeration need of a predicate to keep it: it stands the effects inside the
  structures, the loads, and every move of a ring index inside its ring.
\<close>

definition loads :: "'d host \<Rightarrow> 'd \<Rightarrow> 'd \<Rightarrow> bool" where
  "loads H d d' \<longleftrightarrow>
     (\<exists>a. d' = snd (read8 H a d)) \<or> (\<exists>a. d' = snd (read32 H a d)) \<or> (\<exists>k. d' = snd (event_load H k d)) \<or>
     (\<exists>k n. d' = snd (buffer_load H k n d))"

locale driver_step =
  fixes H :: "'d host" and i :: nat and P :: "'d xhci \<Rightarrow> bool"
  assumes device: "P x \<Longrightarrow> i < MAX_DEVICES"
    and indices: "P x \<Longrightarrow> indices_ok x"
    and effects: "P x \<Longrightarrow> effect_inside (context_size x) e \<Longrightarrow> P (act H e x)"
    and loaded: "P x \<Longrightarrow> loads H (hw x) d \<Longrightarrow> P (x\<lparr>hw := d\<rparr>)"
    and events: "P x \<Longrightarrow> k < RING_LEN \<Longrightarrow> P (x\<lparr>event_index := k, event_cycle := c\<rparr>)"
    and commands: "P x \<Longrightarrow> k < RING_LEN \<Longrightarrow> P (x\<lparr>command_index := k, command_cycle := c\<rparr>)"
    and ring: "P x \<Longrightarrow> k < RING_LEN \<Longrightarrow> P (set_slot i (\<lambda>s. s\<lparr>ds_index := k, ds_cycle := c\<rparr>) x)"
begin

lemma in_range:
  assumes "P x"
  shows "i < length (xhci_devices x)" "ds_index (xhci_devices x ! i) < RING_LEN" "command_index x < RING_LEN"
    "event_index x < RING_LEN" "context_size x mod 4 = 0" "32 \<le> context_size x"
  using indices [OF assms] device [OF assms] by (auto simp: indices_ok_def list_all_length)

lemma plain_effect:
  assumes "P x" "\<And>cs. effect_inside cs e"
  shows "P (act H e x)"
  using effects assms by blast

lemma writes: "P x \<Longrightarrow> P (write64 H a v x)" "P x \<Longrightarrow> P (ring_doorbell H s t x)"
  unfolding write64_def ring_doorbell_def by (simp_all add: plain_effect)

lemma next_event: "P x \<Longrightarrow> P (snd (next_event H x))"
proof -
  assume x: "P x"
  obtain t d where t: "event_load H (event_index x) (hw x) = (t, d)" by fastforce
  then have "loads H (hw x) d" unfolding loads_def by (metis snd_conv)
  with x have y: "P (x\<lparr>hw := d\<rparr>)" by (rule loaded)
  have a: "P (x\<lparr>hw := d, event_index := 0, event_cycle := c\<rparr>)" for c
    using events [OF y, of 0 c] by (simp add: RING_LEN_def)
  have b: "P (x\<lparr>hw := d, event_index := k\<rparr>)" if "k < RING_LEN" for k
    using events [OF y that, of "event_cycle x"] by simp
  show ?thesis using a b y by (simp add: next_event_def t Let_def writes)
qed

lemma waits: "P x \<Longrightarrow> P (snd (wait_command_event H x))" "P x \<Longrightarrow> P (snd (wait_event H kind x))"
proof -
  have n: "P y \<Longrightarrow> next_event H y = (e, z) \<Longrightarrow> P z" for y e z using next_event [of y] by simp
  show "P x \<Longrightarrow> P (snd (wait_command_event H x))" "P x \<Longrightarrow> P (snd (wait_event H kind x))"
    unfolding wait_command_event_def wait_event_def
    by (rule poll_loop_keeps; auto simp: n split: prod.split option.split)+
qed

lemma registers: "P x \<Longrightarrow> P (snd (rd32 H a x))" "P x \<Longrightarrow> P (snd (buffer_copy H k n x))"
  by (auto simp: rd32_def buffer_copy_def loads_def split: prod.split intro!: loaded) (metis snd_conv)+

lemma placing:
  assumes x: "P x"
  shows "P (place_command H t x)"
proof -
  have w: "P (wrap_command_ring H y)" if "P y" for y
    unfolding wrap_command_ring_def by (intro commands plain_effect that) (simp_all add: RING_LEN_def)
  have n: "P (y\<lparr>command_index := k\<rparr>)" if "P y" "k < RING_LEN" for y k
    using commands [OF that, of "command_cycle y"] by simp
  have p: "P (let y = act H (StoreTrb CommandRing (command_index y) t') y in y\<lparr>command_index := command_index y + 1\<rparr>)"
    if "P y" "command_index y < RING_LEN - 1" for y t'
    unfolding Let_def using that by (intro n plain_effect) (simp_all add: RING_LEN_def)
  show ?thesis
  proof (cases "RING_LEN - 1 \<le> command_index x")
    case True
    have "command_index (wrap_command_ring H x) = 0" by (simp add: wrap_command_ring_def)
    then show ?thesis using True p [OF w [OF x]] by (simp add: place_command_def Let_def RING_LEN_def)
  next
    case False
    then show ?thesis using p [OF x] by (simp add: place_command_def Let_def RING_LEN_def)
  qed
qed

lemma command: "P x \<Longrightarrow> P (snd (command H a s c x))"
  unfolding command_def by (intro waits writes placing)

lemma ring_moves:
  assumes "P x" "f (xhci_devices x ! i) = (xhci_devices x ! i)\<lparr>ds_index := k, ds_cycle := c\<rparr>" "k < RING_LEN"
  shows "P (set_slot i f x)"
proof -
  have "set_slot i f x = set_slot i (\<lambda>s. s\<lparr>ds_index := k, ds_cycle := c\<rparr>) x" using assms(2) by (simp add: set_slot_def)
  then show ?thesis using ring [OF assms(1,3)] by simp
qed

lemma transferring:
  assumes x: "P x"
  shows "P (transfer H i t x)"
proof -
  have w: "P (wrap_transfer_ring H i y)" if "P y" for y
    unfolding wrap_transfer_ring_def
  proof (rule ring_moves [where k = 0 and c = "ds_cycle (xhci_devices y ! i) XOR 1"])
    show "P (act H (StoreTrb (TransferRing i) (RING_LEN - 1) (link_trb (transfer_ring_address H i) (ds_cycle (xhci_devices y ! i)))) y)"
      using that device [OF that] by (intro plain_effect) (simp_all add: RING_LEN_def)
  qed (simp_all add: RING_LEN_def)
  have p: "P (set_slot i (\<lambda>s. s\<lparr>ds_index := ds_index s + 1\<rparr>) (act H (StoreTrb (TransferRing i) (ds_index (xhci_devices y ! i)) t') y))"
    if "P y" "ds_index (xhci_devices y ! i) < RING_LEN - 1" for y t'
  proof (rule ring_moves [where k = "ds_index (xhci_devices y ! i) + 1" and c = "ds_cycle (xhci_devices y ! i)"])
    show "P (act H (StoreTrb (TransferRing i) (ds_index (xhci_devices y ! i)) t') y)"
      using that device [OF that(1)] by (intro plain_effect) (simp_all add: RING_LEN_def)
  qed (use that in \<open>simp_all add: RING_LEN_def\<close>)
  show ?thesis
  proof (cases "RING_LEN - 1 \<le> ds_index (xhci_devices x ! i)")
    case True
    then show ?thesis using p [OF w [OF x]] wrap_index [OF in_range(1) [OF x]]
      by (simp add: transfer_def Let_def RING_LEN_def)
  next
    case False
    then show ?thesis using p [OF x] by (simp add: transfer_def Let_def RING_LEN_def)
  qed
qed

lemma controls: "P x \<Longrightarrow> P (snd (control_in H i setup n x))" "P x \<Longrightarrow> P (snd (control_out H i setup x))"
proof -
  have d: "P (snd r) \<Longrightarrow> P (snd (transfer_done r))" for r :: "(u32 \<times> u64) option \<times> 'd xhci"
    by (cases r) (simp add: transfer_done_def)
  show "P x \<Longrightarrow> P (snd (control_in H i setup n x))" "P x \<Longrightarrow> P (snd (control_out H i setup x))"
    unfolding control_in_def control_out_def Let_def
    by (intro d waits writes transferring plain_effect; simp add: device)+
qed

lemma input_words:
  assumes "P x" "context_size x = cs" "start mod 4 = 0" "start + 4 * k + 4 \<le> 33 * cs"
  shows "P (write_ctx H start k v x)"
  using effects [OF assms(1)] assms(2-4) by (simp add: write_ctx_def mod_add_eq [symmetric])

lemma addressing:
  assumes x: "P x"
  shows "P (snd (address_device H port i x))"
proof -
  define cs where "cs = context_size x"
  have cs: "cs mod 4 = 0" "(cs * 2) mod 4 = 0" "32 \<le> cs" using in_range [OF x] by (auto simp: cs_def mod_mult_left_eq [symmetric])
  have w: "P (write_ctx H start k v y)"
    if "P y" "context_size y = cs" "start = 0 \<or> start = cs \<or> start = cs * 2" "k < 6" for start k v y
    using that(3) by (elim disjE; intro input_words [OF that(1,2)]) (use cs that(4) in auto)
  note [simp] = w registers plain_effect snd_port_speed snd_default_max_packet device command
  show ?thesis
    using x by (simp add: address_device_def Let_def write_ctx64_def case_prod_beta MAX_SLOTS_def cs_def [symmetric])
qed

lemma configuring:
  assumes x: "P x"
  shows "P (snd (configure_endpoint H i e n x))"
proof -
  define cs where "cs = context_size x"
  define ep where "ep = cs * Suc (endpoint_index e)"
  have cs: "cs mod 4 = 0" "32 \<le> cs" "ep mod 4 = 0"
    using in_range [OF x] by (auto simp: cs_def ep_def mod_mult_left_eq [symmetric])
  have "ep \<le> cs * 32" unfolding ep_def using endpoint_index_bounds(1) [of e] by (intro mult_le_mono2) simp
  then have w: "P (write_ctx H start k v y)"
    if "P y" "context_size y = cs" "start = 0 \<or> start = cs \<or> start = ep" "k < 6" for start k v y
    using that(3) by (elim disjE; intro input_words [OF that(1,2)]) (use cs that(4) in auto)
  note [simp] = w plain_effect command
  show ?thesis
    using x by (simp add: configure_endpoint_def Let_def write_ctx64_def cs_def [symmetric] ep_def [symmetric] del: mult_Suc_right)
qed

lemma enabling: "P x \<Longrightarrow> P (snd (enable_slot H x))"
  by (simp add: enable_slot_def case_prod_beta command)

end

text \<open>Two such predicates: every effect so far lies inside, and all but the rings of one device is as it was.\<close>

definition inside :: "nat \<Rightarrow> nat \<Rightarrow> ('d \<times> effect list) xhci \<Rightarrow> bool" where
  "inside i cs x \<longleftrightarrow> i < MAX_DEVICES \<and> indices_ok x \<and> context_size x = cs \<and> list_all (effect_inside cs) (snd (hw x))"

definition framed :: "nat \<Rightarrow> 'd xhci \<Rightarrow> 'd xhci \<Rightarrow> bool" where
  "framed i x0 x \<longleftrightarrow>
     i < MAX_DEVICES \<and> indices_ok x \<and> device_count x = device_count x0 \<and> context_size x = context_size x0 \<and>
     lane (xhci_devices x ! i) = lane (xhci_devices x0 ! i) \<and> (\<forall>j. j = i \<or> xhci_devices x ! j = xhci_devices x0 ! j)"

lemma indices_ok_set_slot:
  assumes "indices_ok x" "i < MAX_DEVICES" "ds_index (f (xhci_devices x ! i)) < RING_LEN"
  shows "indices_ok (set_slot i f x)"
  using assms by (auto simp: indices_ok_def set_slot_def list_all_length nth_list_update)

lemma indices_ok_act: "indices_ok x \<Longrightarrow> indices_ok (act H e x)"
  by (simp add: indices_ok_def act_def)

lemma loads_logged: "loads (logging H) d d' \<Longrightarrow> snd d' = snd d"
  by (auto simp: loads_def logging_def case_prod_beta)

interpretation inside: driver_step "logging H" i "inside i cs" for H :: "'d host" and i cs
proof
  fix x :: "('d \<times> effect list) xhci" and d e k and c :: u32
  assume x: "inside i cs x"
  show "i < MAX_DEVICES" "indices_ok x" using x by (simp_all add: inside_def)
  show "effect_inside (context_size x) e \<Longrightarrow> inside i cs (act (logging H) e x)"
    using x by (simp add: inside_def logged_act indices_ok_act)
  show "loads (logging H) (hw x) d \<Longrightarrow> inside i cs (x\<lparr>hw := d\<rparr>)"
    using x by (auto simp: inside_def loads_logged indices_ok_def)
  show "k < RING_LEN \<Longrightarrow> inside i cs (x\<lparr>event_index := k, event_cycle := c\<rparr>)"
    "k < RING_LEN \<Longrightarrow> inside i cs (x\<lparr>command_index := k, command_cycle := c\<rparr>)"
    using x by (auto simp: inside_def indices_ok_def)
  show "k < RING_LEN \<Longrightarrow> inside i cs (set_slot i (\<lambda>s. s\<lparr>ds_index := k, ds_cycle := c\<rparr>) x)"
    using x by (simp add: inside_def indices_ok_set_slot)
qed

interpretation steady: driver_step H 0 indices_ok for H :: "'d host"
  by unfold_locales
    (auto simp: MAX_DEVICES_def indices_ok_act intro!: indices_ok_set_slot, auto simp: indices_ok_def)

interpretation framed: driver_step H i "framed i x0" for H :: "'d host" and i x0
proof
  fix x :: "'d xhci" and d e k and c :: u32
  assume x: "framed i x0 x"
  show "i < MAX_DEVICES" "indices_ok x" using x by (simp_all add: framed_def)
  show "framed i x0 (act H e x)" using x by (simp add: framed_def indices_ok_act)
  show "framed i x0 (x\<lparr>hw := d\<rparr>)" using x by (auto simp: framed_def indices_ok_def)
  show "k < RING_LEN \<Longrightarrow> framed i x0 (x\<lparr>event_index := k, event_cycle := c\<rparr>)"
    "k < RING_LEN \<Longrightarrow> framed i x0 (x\<lparr>command_index := k, command_cycle := c\<rparr>)"
    using x by (auto simp: framed_def indices_ok_def)
  show "k < RING_LEN \<Longrightarrow> framed i x0 (set_slot i (\<lambda>s. s\<lparr>ds_index := k, ds_cycle := c\<rparr>) x)"
    using x by (auto simp: framed_def indices_ok_set_slot slot_of_set_slot lane_def)
qed

lemma inside_set_slot:
  assumes "inside i cs x" "ds_index (f (xhci_devices x ! i)) < RING_LEN"
  shows "inside i cs (set_slot i f x)"
  using assms by (simp add: inside_def indices_ok_set_slot)

lemma selecting_inside:
  assumes "inside i cs x"
  shows "inside i cs (snd (select_configuration (logging H) i parsed x))"
proof -
  obtain ok y where o: "control_out (logging H) i \<lparr>request_type = 0x00, request = REQ_SET_CONFIGURATION,
      setup_value = ucast (pc_configuration parsed), setup_index = 0, setup_length = 0\<rparr> x = (ok, y)" by fastforce
  then have y: "inside i cs y" using inside.controls(2) [OF assms] by (metis snd_conv)
  let ?p = "\<lparr>request_type = 0x21, request = REQ_SET_PROTOCOL, setup_value = 0,
    setup_index = ucast (pc_interface parsed), setup_length = 0\<rparr>"
  have z: "inside i cs (snd (control_out (logging H) i ?p y))" by (rule inside.controls(2) [OF y])
  have "inside i cs (set_slot i (\<lambda>s. s\<lparr>ds_endpoint := pc_endpoint parsed\<rparr>) (snd (control_out (logging H) i ?p y)))"
    by (rule inside_set_slot [OF z]) (use inside.in_range(2) [OF z] in simp)
  then show ?thesis using o y by (cases ok) (simp_all add: select_configuration_def Let_def inside.configuring)
qed

lemma counted_inside:
  assumes "inside i cs x"
  shows "inside i cs (x\<lparr>device_count := Suc i\<rparr>)"
  using assms by (auto simp: inside_def indices_ok_def MAX_DEVICES_def)

lemma enumerating_inside:
  assumes "inside i cs x" "i = device_count x"
  shows "inside i cs (snd (xhci_enumerate (logging H) port x))"
proof -
  have s: "inside i cs (set_slot i (\<lambda>_. device_slot_new\<lparr>ds_slot := s\<rparr>) (snd (enable_slot (logging H) x)))" for s
    by (rule inside_set_slot [OF inside.enabling [OF assms(1)]]) (simp add: device_slot_new_def RING_LEN_def)
  note [simp] = assms(1) inside.enabling s inside.addressing inside.controls(1) inside.registers(2) selecting_inside counted_inside
  show ?thesis
    by (simp add: xhci_enumerate_def Let_def case_prod_beta assms(2) [symmetric] split: option.split bool.split)
qed



text \<open>
  The input context of the source has 2048 bytes.  Contexts of 32 bytes fit; of the 33 of 64 bytes the last,
  that of endpoint 15, does not.
\<close>

lemma narrow_contexts_fit: "effect_inside 32 (StoreInput k v) \<Longrightarrow> k + 4 \<le> 2048"
  by simp

lemma wide_context_past_the_end:
  "context_size x = 64 \<Longrightarrow>
    snd (hw (write_ctx (logging H) (context_size x * (endpoint_index 0x8F + 1)) 1 v x)) = snd (hw x) @ [StoreInput 2052 v]"
  by (simp add: write_ctx_def logged_act endpoint_index_def)

lemma parsed_endpoint:
  assumes "parse_records buf c k kind interface = Some parsed"
  shows "pc_endpoint parsed AND 0x80 \<noteq> 0" "unat (pc_max_packet parsed) < 2048"
proof -
  have m: "unat (w AND 0x7FF) < 2048" for w :: u16
    using word_and_le1 [of w "0x7FF"] by (simp add: word_le_nat_alt)
  have "pc_endpoint parsed AND 0x80 \<noteq> 0 \<and> unat (pc_max_packet parsed) < 2048"
    using assms
  proof (induction buf c k kind interface rule: parse_records.induct)
    case (1 buf c k kind interface)
    note p = "1.prems" [unfolded parse_records.simps [of buf c k kind interface]]
    show ?case
      using p "1.IH" m by (auto simp: Let_def split: if_splits)
  qed
  then show "pc_endpoint parsed AND 0x80 \<noteq> 0" "unat (pc_max_packet parsed) < 2048" by simp_all
qed

lemma addressed_slot:
  "fst (address_device H port i x) \<Longrightarrow> unat (ds_slot (xhci_devices x ! i)) \<le> MAX_SLOTS"
  by (rule ccontr) (simp add: address_device_def Let_def case_prod_beta write_ctx64_def snd_port_speed snd_default_max_packet)

lemma enabled_slot: "fst (enable_slot H x) = Some s \<Longrightarrow> s \<noteq> 0"
  by (auto simp: enable_slot_def case_prod_beta split: option.splits if_splits)

lemma framed_refl: "indices_ok x \<Longrightarrow> i < MAX_DEVICES \<Longrightarrow> framed i x x"
  by (simp add: framed_def)

lemma selecting_framed:
  assumes "framed i x0 x" "fst (select_configuration H i parsed x)"
  shows "lane (xhci_devices (snd (select_configuration H i parsed x)) ! i) =
      (ds_slot (xhci_devices x0 ! i), pc_endpoint parsed, ds_queued (xhci_devices x0 ! i), ds_ready (xhci_devices x0 ! i))"
    and "j \<noteq> i \<Longrightarrow> xhci_devices (snd (select_configuration H i parsed x)) ! j = xhci_devices x0 ! j"
proof -
  let ?c = "\<lparr>request_type = 0x00, request = REQ_SET_CONFIGURATION,
      setup_value = ucast (pc_configuration parsed), setup_index = 0, setup_length = 0\<rparr>"
  let ?p = "\<lparr>request_type = 0x21, request = REQ_SET_PROTOCOL, setup_value = 0,
    setup_index = ucast (pc_interface parsed), setup_length = 0\<rparr>"
  let ?z = "snd (control_out H i ?p (snd (control_out H i ?c x)))"
  let ?u = "set_slot i (\<lambda>s. s\<lparr>ds_endpoint := pc_endpoint parsed\<rparr>) ?z"
  have z: "framed i x0 ?z" by (intro framed.controls assms(1))
  have "indices_ok ?u" "i < MAX_DEVICES"
    using z framed.in_range(2) [OF z] by (simp_all add: framed_def indices_ok_set_slot)
  then have u: "framed i ?u (snd (configure_endpoint H i (pc_endpoint parsed) (pc_max_packet parsed) ?u))"
    by (intro framed.configuring framed_refl)
  have s: "snd (select_configuration H i parsed x) = snd (configure_endpoint H i (pc_endpoint parsed) (pc_max_packet parsed) ?u)"
    using assms(2) by (simp add: select_configuration_def Let_def case_prod_beta split: bool.splits)
  show "lane (xhci_devices (snd (select_configuration H i parsed x)) ! i) =
      (ds_slot (xhci_devices x0 ! i), pc_endpoint parsed, ds_queued (xhci_devices x0 ! i), ds_ready (xhci_devices x0 ! i))"
    using u z framed.in_range(1) [OF z] by (simp add: s framed_def lane_def)
  have f: "framed i a b \<Longrightarrow> j \<noteq> i \<Longrightarrow> xhci_devices b ! j = xhci_devices a ! j" for a b :: "'a xhci"
    by (auto simp: framed_def)
  show "j \<noteq> i \<Longrightarrow> xhci_devices (snd (select_configuration H i parsed x)) ! j = xhci_devices x0 ! j"
    using f [OF u] f [OF z] by (simp add: s slot_of_set_slot)
qed

definition beside :: "nat \<Rightarrow> 'd xhci \<Rightarrow> 'd xhci \<Rightarrow> bool" where
  "beside i x0 x \<longleftrightarrow>
     i < MAX_DEVICES \<and> indices_ok x \<and> device_count x = device_count x0 \<and> (\<forall>j. j = i \<or> xhci_devices x ! j = xhci_devices x0 ! j)"

lemma beside_set_slot:
  assumes "beside i x0 x" "ds_index (f (xhci_devices x ! i)) < RING_LEN"
  shows "beside i x0 (set_slot i f x)"
  using assms by (auto simp: beside_def indices_ok_set_slot slot_of_set_slot)

interpretation beside: driver_step H i "beside i x0" for H :: "'d host" and i x0
proof
  fix x :: "'d xhci" and d e k and c :: u32
  assume x: "beside i x0 x"
  show "i < MAX_DEVICES" "indices_ok x" using x by (simp_all add: beside_def)
  show "beside i x0 (act H e x)" using x by (simp add: beside_def indices_ok_act)
  show "beside i x0 (x\<lparr>hw := d\<rparr>)" using x by (auto simp: beside_def indices_ok_def)
  show "k < RING_LEN \<Longrightarrow> beside i x0 (x\<lparr>event_index := k, event_cycle := c\<rparr>)"
    "k < RING_LEN \<Longrightarrow> beside i x0 (x\<lparr>command_index := k, command_cycle := c\<rparr>)"
    using x by (auto simp: beside_def indices_ok_def)
  show "k < RING_LEN \<Longrightarrow> beside i x0 (set_slot i (\<lambda>s. s\<lparr>ds_index := k, ds_cycle := c\<rparr>) x)"
    using x by (simp add: beside_set_slot)
qed

lemma selecting_beside:
  assumes "beside i x0 x"
  shows "beside i x0 (snd (select_configuration H i parsed x))"
proof -
  have s: "beside i x0 (set_slot i (\<lambda>s. s\<lparr>ds_endpoint := e\<rparr>) y)" if "beside i x0 y" for y e
    by (rule beside_set_slot [OF that]) (use beside.in_range(2) [OF that] in simp)
  note [simp] = assms beside.controls(2) beside.configuring s
  show ?thesis by (simp add: select_configuration_def Let_def case_prod_beta split: bool.split)
qed

lemma enumerating_beside:
  assumes "indices_ok x" "xhci_enumerate H port x = (r, x')"
  shows "device_count x' = device_count x + (case r of None \<Rightarrow> 0 | Some _ \<Rightarrow> 1) \<and>
    (j = device_count x \<or> xhci_devices x' ! j = xhci_devices x ! j) \<and> indices_ok x'"
proof (cases "device_count x < MAX_DEVICES")
  case True
  define i where "i = device_count x"
  have x: "beside i x x" using True assms(1) by (simp add: beside_def i_def)
  have s: "beside i x (set_slot i (\<lambda>_. device_slot_new\<lparr>ds_slot := s\<rparr>) (snd (enable_slot H x)))" for s
    by (rule beside_set_slot [OF beside.enabling [OF x]]) (simp add: device_slot_new_def RING_LEN_def)
  have w: "beside i x z \<Longrightarrow> \<exists>y. z\<lparr>device_count := Suc i\<rparr> = y\<lparr>device_count := Suc i\<rparr> \<and> beside i x y" for z by blast
  note keeps = w s x beside.enabling beside.addressing beside.controls(1) beside.registers(2) selecting_beside
  have u: "beside i x y \<Longrightarrow> device_count y = i \<and> (j = i \<or> xhci_devices y ! j = xhci_devices x ! j) \<and>
      indices_ok y \<and> indices_ok (y\<lparr>device_count := i + 1\<rparr>)" for y
    by (auto simp: beside_def i_def indices_ok_def MAX_DEVICES_def)
  have "case xhci_enumerate H port x of
      (None, y) \<Rightarrow> beside i x y
    | (Some _, y) \<Rightarrow> \<exists>z. y = z\<lparr>device_count := i + 1\<rparr> \<and> beside i x z"
    by (simp add: xhci_enumerate_def Let_def case_prod_beta i_def [symmetric] keeps split: option.split bool.split)
  then show ?thesis using u unfolding assms(2) i_def [symmetric] by (cases r) (auto dest: u)
next
  case False
  then show ?thesis using assms by (auto simp: xhci_enumerate_def)
qed

definition enumerating :: "'d host \<Rightarrow> nat \<Rightarrow> u8 \<Rightarrow> 'd xhci \<Rightarrow> 'd xhci" where
  "enumerating H i s x = set_slot i (\<lambda>_. device_slot_new\<lparr>ds_slot := s\<rparr>) (snd (enable_slot H x))"

definition described :: "'d host \<Rightarrow> u8 \<Rightarrow> nat \<Rightarrow> 'd xhci \<Rightarrow> 'd xhci" where
  "described H port i x =
     (let x = snd (control_in H i (get_descriptor DESC_DEVICE 18) 18 (snd (address_device H port i x)));
          x = snd (control_in H i (get_descriptor DESC_CONFIGURATION 64) 64 (snd (buffer_copy H i 18 x)))
      in snd (buffer_copy H i 64 x))"

lemma enumerate_success:
  assumes "xhci_enumerate H port x = (Some (i, d), x')"
  obtains s parsed buf where "i = device_count x" "i < MAX_DEVICES" "fst (enable_slot H x) = Some s"
    "fst (address_device H port i (enumerating H i s x))" "parse_configuration buf = Some parsed"
    "fst (select_configuration H i parsed (described H port i (enumerating H i s x)))"
    "x' = (snd (select_configuration H i parsed (described H port i (enumerating H i s x))))\<lparr>device_count := i + 1\<rparr>"
    "uh_report_len d = pc_max_packet parsed"
proof -
  have m: "\<not> MAX_DEVICES \<le> device_count x" using assms by (auto simp: xhci_enumerate_def Let_def)
  obtain es y where e: "enable_slot H x = (es, y)" by fastforce
  from assms m e obtain s where s: "es = Some s" by (cases es) (auto simp: xhci_enumerate_def Let_def)
  define z where "z = enumerating H (device_count x) s x"
  have z: "set_slot (device_count x) (\<lambda>_. device_slot_new\<lparr>ds_slot := s\<rparr>) y = z" by (simp add: z_def enumerating_def e)
  obtain a y1 where a: "address_device H port (device_count x) z = (a, y1)" by fastforce
  obtain c y2 where c: "control_in H (device_count x) (get_descriptor DESC_DEVICE 18) 18 y1 = (c, y2)" by fastforce
  obtain b y3 where b: "buffer_copy H (device_count x) 18 y2 = (b, y3)" by fastforce
  obtain f y4 where f: "control_in H (device_count x) (get_descriptor DESC_CONFIGURATION 64) 64 y3 = (f, y4)" by fastforce
  obtain g y5 where g: "buffer_copy H (device_count x) 64 y4 = (g, y5)" by fastforce
  have y5: "described H port (device_count x) z = y5" by (simp add: described_def Let_def a c b f g)
  from assms m have r: "a \<and> c \<and> f" by (cases a; cases c; cases f) (simp_all add: xhci_enumerate_def Let_def e s z a c b f g)
  with assms m obtain parsed where p: "parse_configuration g = Some parsed"
    by (cases "parse_configuration g") (simp_all add: xhci_enumerate_def Let_def e s z a c b f g)
  obtain k y6 where k: "select_configuration H (device_count x) parsed y5 = (k, y6)" by fastforce
  from assms m r p have "k \<and> i = device_count x \<and> x' = y6\<lparr>device_count := device_count x + 1\<rparr> \<and> uh_report_len d = pc_max_packet parsed"
    by (cases k) (auto simp: xhci_enumerate_def Let_def e s z a c b f g k)
  with m e s a p k r y5 show ?thesis by (intro that [of s g parsed]) (simp_all add: z_def)
qed

lemma enumerating_established:
  assumes "xhci_enumerate H port x = (r, x')" "indices_ok x"
  shows "device_count x' = device_count x + (case r of None \<Rightarrow> 0 | Some _ \<Rightarrow> 1) \<and>
    (j = device_count x \<or> xhci_devices x' ! j = xhci_devices x ! j) \<and>
    (case r of
       None \<Rightarrow> True
     | Some (i, d) \<Rightarrow>
         i = device_count x \<and> i < MAX_DEVICES \<and> 1 \<le> unat (ds_slot (xhci_devices x' ! i)) \<and> unat (ds_slot (xhci_devices x' ! i)) \<le> MAX_SLOTS \<and>
         ds_endpoint (xhci_devices x' ! i) AND 0x80 \<noteq> 0 \<and> \<not> ds_queued (xhci_devices x' ! i) \<and> \<not> ds_ready (xhci_devices x' ! i) \<and>
         unat (uh_report_len d) < 2048)"
proof (cases r)
  case None
  then show ?thesis using enumerating_beside [OF assms(2,1)] by simp
next
  case (Some kd)
  obtain i d where kd: "kd = (i, d)" by fastforce
  have "xhci_enumerate H port x = (Some (i, d), x')" using assms(1) Some kd by simp
  then obtain s parsed buf where e: "i = device_count x" "i < MAX_DEVICES" "fst (enable_slot H x) = Some s"
    "fst (address_device H port i (enumerating H i s x))" "parse_configuration buf = Some parsed"
    "fst (select_configuration H i parsed (described H port i (enumerating H i s x)))"
    "x' = (snd (select_configuration H i parsed (described H port i (enumerating H i s x))))\<lparr>device_count := i + 1\<rparr>"
    "uh_report_len d = pc_max_packet parsed"
    by (rule enumerate_success)
  have y: "beside i x (snd (enable_slot H x))"
    by (rule beside.enabling) (use assms(2) e(1,2) in \<open>simp add: beside_def\<close>)
  then have l: "i < length (xhci_devices (snd (enable_slot H x)))" by (rule beside.in_range)
  have "indices_ok (enumerating H i s x)" using y unfolding enumerating_def
    by (intro indices_ok_set_slot) (simp_all add: beside_def device_slot_new_def RING_LEN_def)
  then have "framed i (enumerating H i s x) (described H port i (enumerating H i s x))"
    unfolding described_def Let_def by (intro framed.registers framed.controls framed.addressing framed_refl e(2))
  from selecting_framed(1) [OF this e(6)] have "lane (xhci_devices x' ! i) = (s, pc_endpoint parsed, False, False)"
    using l e(7) by (simp add: enumerating_def device_slot_new_def)
  moreover have "unat s \<le> MAX_SLOTS" using addressed_slot [OF e(4)] l by (simp add: enumerating_def)
  moreover have "1 \<le> unat s" using enabled_slot [OF e(3)] by (simp add: Suc_le_eq unat_gt_0)
  moreover have "pc_endpoint parsed AND 0x80 \<noteq> 0" "unat (pc_max_packet parsed) < 2048"
    using e(5) parsed_endpoint by (auto simp: parse_configuration_def split: if_splits)
  ultimately show ?thesis
    using enumerating_beside [OF assms(2,1)] e(1,2,8) by (simp add: Some kd lane_def)
qed

text \<open>
  C14. What an enumeration has established.  A device that is found gets the next index, a slot between one and
  eight, an endpoint towards the host and a transfer ring with nothing queued; its report fits in eleven bits.
  A failed enumeration counts nothing, at whatever step it stops, and neither touches another device.
\<close>

theorem enumerate_established:
  assumes "xhci_enumerate H port x = (r, x')" "indices_ok x"
  shows "device_count x' = device_count x + (case r of None \<Rightarrow> 0 | Some _ \<Rightarrow> 1) \<and>
    (j = device_count x \<or> xhci_devices x' ! j = xhci_devices x ! j) \<and>
    (case r of
       None \<Rightarrow> True
     | Some (i, d) \<Rightarrow>
         i = device_count x \<and> i < MAX_DEVICES \<and> 1 \<le> unat (ds_slot (xhci_devices x' ! i)) \<and> unat (ds_slot (xhci_devices x' ! i)) \<le> MAX_SLOTS \<and>
         ds_endpoint (xhci_devices x' ! i) AND 0x80 \<noteq> 0 \<and> \<not> ds_queued (xhci_devices x' ! i) \<and> \<not> ds_ready (xhci_devices x' ! i) \<and>
         unat (uh_report_len d) < 2048)"
  using assms by (rule enumerating_established)

text \<open>A machine on which an enumeration succeeds: the seven events wait, and the device is a composite one.\<close>

definition keyboard_register :: "u64 \<Rightarrow> u32" where
  "keyboard_register a =
     (if a = 0xFE000004 then 0x04000008 else if a = 0xFE000014 then 0x400 else if a = 0xFE000018 then 0x600
      else if a = 0xFE000024 then 1 else if a = 0xFE000420 then 0x203 else 0)"

definition keyboard_host :: "trb list host" where
  "keyboard_host =
     posting_host\<lparr>
       read8 := (\<lambda>a d. (0x20, d)), read32 := (\<lambda>a d. (keyboard_register a, d)),
       buffer_load := (\<lambda>i n d.
        (if n = 18 then [18, 1, 0, 2, 0, 0, 0, 64, 0x6D, 0x04, 0x2B, 0xC5, 0, 0, 1, 2, 0, 1]
         else concat ([9, 2, 57, 0, 2, 1, 0, 0xA0, 50] # composite) @ replicate 5 0, d))\<rparr>"

definition completion_event :: trb where
  "completion_event =
     \<lparr>trb_parameter = 0, trb_status = push_bit 24 1, trb_control = push_bit 24 1 OR push_bit 10 TRB_COMMAND_COMPLETION OR TRB_CYCLE\<rparr>"

definition sample_ready :: "trb list xhci" where
  "sample_ready =
     sample_xhci ([completion_event, completion_event] @ replicate 4 (sample_event 1) @ [completion_event] @ replicate 9 empty_trb)"

lemma keyboard_act [simp]: "act keyboard_host e x = x" "write64 keyboard_host a v x = x" "write_ctx keyboard_host k n w x = x"
    "write_ctx64 keyboard_host k n v x = x" "ring_doorbell keyboard_host s t x = x" "rd32 keyboard_host a x = (keyboard_register a, x)"
  by (simp_all add: act_def write64_def write_ctx_def write_ctx64_def ring_doorbell_def rd32_def keyboard_host_def posting_host_def)

lemma keyboard_next:
  assumes "hw x ! event_index x = t" "event_index x < 15" "cycle_of t = event_cycle x"
  shows "next_event keyboard_host x = (Some (event_of t), x\<lparr>event_index := event_index x + 1\<rparr>)"
proof -
  have "event_load keyboard_host (event_index x) (hw x) = (t, hw x)"
    using assms(1) by (simp add: keyboard_host_def posting_host_def)
  then show ?thesis using assms by (simp add: next_event_def Let_def cycle_of_def [symmetric] RING_LEN_def)
qed

lemma keyboard_command:
  assumes "hw x ! event_index x = completion_event" "event_index x < 15" "event_cycle x = 1" "command_index x < 15"
  shows "command keyboard_host p s c x = (Some (event_of completion_event),
    x\<lparr>command_index := command_index x + 1, event_index := event_index x + 1\<rparr>)"
proof -
  let ?y = "x\<lparr>command_index := command_index x + 1\<rparr>"
  have t: "cycle_of completion_event = 1" "event_kind (event_of completion_event) = TRB_COMMAND_COMPLETION" by code_simp+
  have "next_event keyboard_host ?y = (Some (event_of completion_event), ?y\<lparr>event_index := event_index x + 1\<rparr>)"
    using keyboard_next [of ?y completion_event] assms t by simp
  then have "wait_command_event keyboard_host ?y = (Some (event_of completion_event), ?y\<lparr>event_index := event_index x + 1\<rparr>)"
    unfolding wait_command_event_def by (subst poll_loop.simps) (simp add: t POLLS_def)
  then show ?thesis using assms(4) by (simp add: command_def place_command_def Let_def RING_LEN_def)
qed

lemma keyboard_wait:
  assumes "hw x ! event_index x = sample_event 1" "event_index x < 15" "event_cycle x = 1"
  shows "transfer_done (wait_event keyboard_host TRB_TRANSFER_EVENT x) = (True, x\<lparr>event_index := event_index x + 1\<rparr>)"
proof -
  have t: "cycle_of (sample_event 1) = 1" "event_kind (event_of (sample_event 1)) = TRB_TRANSFER_EVENT"
    "event_completion (event_of (sample_event 1)) = CC_SUCCESS" by code_simp+
  have "next_event keyboard_host x = (Some (event_of (sample_event 1)), x\<lparr>event_index := event_index x + 1\<rparr>)"
    using keyboard_next [of x "sample_event 1"] assms t by simp
  then show ?thesis
    unfolding wait_event_def by (subst poll_loop.simps) (simp add: t POLLS_def transfer_done_def)
qed

lemma keyboard_transfer:
  "ds_index (xhci_devices x ! i) < 15 \<Longrightarrow>
    transfer keyboard_host i t x = set_slot i (\<lambda>s. s\<lparr>ds_index := ds_index s + 1\<rparr>) x"
  by (simp add: transfer_def Let_def RING_LEN_def)

lemma keyboard_control:
  assumes "hw x ! event_index x = sample_event 1" "event_index x < 15" "event_cycle x = 1" "i < length (xhci_devices x)"
    "ds_index (xhci_devices x ! i) < 12"
  shows "control_in keyboard_host i st n x =
      (True, (set_slot i (\<lambda>s. s\<lparr>ds_index := ds_index s + 3\<rparr>) x)\<lparr>event_index := event_index x + 1\<rparr>)"
    and "control_out keyboard_host i st x =
      (True, (set_slot i (\<lambda>s. s\<lparr>ds_index := ds_index s + 2\<rparr>) x)\<lparr>event_index := event_index x + 1\<rparr>)"
proof -
  let ?s = "xhci_devices x ! i"
  have t: "transfer keyboard_host i t (x\<lparr>xhci_devices := (xhci_devices x)[i := ?s\<lparr>ds_index := k\<rparr>]\<rparr>) =
      x\<lparr>xhci_devices := (xhci_devices x)[i := ?s\<lparr>ds_index := Suc k\<rparr>]\<rparr>" if "k < 15" for t k
    using that assms(4) by (simp add: keyboard_transfer set_slot_def)
  have t0: "transfer keyboard_host i t x = x\<lparr>xhci_devices := (xhci_devices x)[i := ?s\<lparr>ds_index := Suc (ds_index ?s)\<rparr>]\<rparr>" for t
    using assms(5) by (simp add: keyboard_transfer set_slot_def)
  have w: "transfer_done (wait_event keyboard_host TRB_TRANSFER_EVENT (x\<lparr>xhci_devices := ds\<rparr>)) =
      (True, x\<lparr>xhci_devices := ds, event_index := event_index x + 1\<rparr>)" for ds
    using keyboard_wait [of "x\<lparr>xhci_devices := ds\<rparr>"] assms(1-3) by simp
  show "control_in keyboard_host i st n x =
      (True, (set_slot i (\<lambda>s. s\<lparr>ds_index := ds_index s + 3\<rparr>) x)\<lparr>event_index := event_index x + 1\<rparr>)"
    "control_out keyboard_host i st x =
      (True, (set_slot i (\<lambda>s. s\<lparr>ds_index := ds_index s + 2\<rparr>) x)\<lparr>event_index := event_index x + 1\<rparr>)"
    using assms(5) by (simp_all add: control_in_def control_out_def Let_def t0 t w) (simp_all add: set_slot_def eval_nat_numeral)
qed

lemma keyboard_enumerates:
  "fst (xhci_enumerate keyboard_host 1 sample_ready) =
    Some (0, \<lparr>uh_kind = HidKeyboard, uh_vendor = 0x046D, uh_product = 0xC52B, uh_report_len = 8\<rparr>)"
proof -
  have e: "event_completion (event_of completion_event) = CC_SUCCESS" "event_slot (event_of completion_event) = 1" by code_simp+
  have ring: "hw sample_ready ! 0 = completion_event" "hw sample_ready ! Suc 0 = completion_event"
    "hw sample_ready ! Suc (Suc 0) = sample_event 1" "hw sample_ready ! Suc (Suc (Suc 0)) = sample_event 1"
    "hw sample_ready ! Suc (Suc (Suc (Suc 0))) = sample_event 1" "hw sample_ready ! Suc (Suc (Suc (Suc (Suc 0)))) = sample_event 1"
    "hw sample_ready ! Suc (Suc (Suc (Suc (Suc (Suc 0))))) = completion_event"
    by (simp_all add: sample_ready_def sample_xhci_def numeral_nat)
  have x: "event_index sample_ready = 0" "command_index sample_ready = 0" "event_cycle sample_ready = 1" "device_count sample_ready = 0"
    "xhci_devices sample_ready = [device_slot_new, device_slot_new]" by (simp_all add: sample_ready_def sample_xhci_def)
  let ?c = "concat ([9, 2, 57, 0, 2, 1, 0, 0xA0, 50] # composite) @ replicate 5 0"
  have p: "parse_configuration ?c =
      Some \<lparr>pc_configuration = 1, pc_interface = 1, pc_endpoint = 0x83, pc_max_packet = 8, pc_kind = HidKeyboard\<rparr>" by code_simp
  have b: "buffer_copy keyboard_host i 64 y = (?c, y)"
    "buffer_copy keyboard_host i 18 y = ([18, 1, 0, 2, 0, 0, 0, 64, 0x6D, 0x04, 0x2B, 0xC5, 0, 0, 1, 2, 0, 1], y)" for i y
    by (simp_all add: buffer_copy_def keyboard_host_def)
  show ?thesis
    by (simp add: xhci_enumerate_def enable_slot_def Let_def x MAX_DEVICES_def keyboard_command ring e device_slot_new_def
      address_device_def port_speed_def port_status_def default_max_packet_def MAX_SLOTS_def command_ok_def
      keyboard_control set_slot_def b p select_configuration_def configure_endpoint_def del: concat.simps) code_simp
qed

lemma enumerate_established_witness:
  "device_count (snd (xhci_enumerate keyboard_host 1 sample_ready)) = 1 \<and>
   ds_endpoint (xhci_devices (snd (xhci_enumerate keyboard_host 1 sample_ready)) ! 0) AND 0x80 \<noteq> 0"
proof -
  let ?r = "xhci_enumerate keyboard_host 1 sample_ready"
  have r: "fst ?r = Some (0, \<lparr>uh_kind = HidKeyboard, uh_vendor = 0x046D, uh_product = 0xC52B, uh_report_len = 8\<rparr>)"
    by (rule keyboard_enumerates)
  have x: "indices_ok sample_ready" "device_count sample_ready = 0" by code_simp+
  show ?thesis
    using enumerate_established [OF prod.collapse [symmetric], of sample_ready keyboard_host 1] x unfolding r by simp
qed


end
