(* ===== verification/Input_Setup.thy ===== *)
theory Input_Setup
  imports Input_Events Xhci_Driver I2c_Probe
begin

text \<open>
  \<open>crates/nanochrono-baremetal/src/input.rs\<close>, the bring-up: the 8042 and its two ports, the devices of the USB
  controller, the touchpad, and what the interface says of them.

  The two ports of the 8042 are a device state with a read and a write.  A wait is the bounded spin of the
  source.  The lemmas show that the command byte is only written over when it has been read, and with what,
  that the knock tells the three kinds of mice apart, and which devices the USB roles are given to.
\<close>

section \<open>The 8042\<close>

record 'p port_io =
  inb :: "u16 \<Rightarrow> 'p \<Rightarrow> u8 \<times> 'p"
  outb :: "u16 \<Rightarrow> u8 \<Rightarrow> 'p \<Rightarrow> 'p"

definition DATA_PORT :: u16 where "DATA_PORT = 0x60"
definition STATUS_PORT :: u16 where "STATUS_PORT = 0x64"
definition STATUS_INPUT_FULL :: u8 where "STATUS_INPUT_FULL = 0x02"
definition KBDC_GET_COMMAND_BYTE :: u8 where "KBDC_GET_COMMAND_BYTE = 0x20"
definition KBDC_SET_COMMAND_BYTE :: u8 where "KBDC_SET_COMMAND_BYTE = 0x60"
definition KBDC_DISABLE_AUX_PORT :: u8 where "KBDC_DISABLE_AUX_PORT = 0xA7"
definition KBDC_ENABLE_AUX_PORT :: u8 where "KBDC_ENABLE_AUX_PORT = 0xA8"
definition KBDC_TEST_AUX_PORT :: u8 where "KBDC_TEST_AUX_PORT = 0xA9"
definition KBDC_SELF_TEST :: u8 where "KBDC_SELF_TEST = 0xAA"
definition KBDC_DISABLE_KBD_PORT_CMD :: u8 where "KBDC_DISABLE_KBD_PORT_CMD = 0xAD"
definition KBDC_ENABLE_KBD_PORT :: u8 where "KBDC_ENABLE_KBD_PORT = 0xAE"
definition KBDC_WRITE_TO_AUX :: u8 where "KBDC_WRITE_TO_AUX = 0xD4"
definition KBD_TRANSLATION :: u8 where "KBD_TRANSLATION = 0x40"
definition KBD_DISABLE_KBD_PORT :: u8 where "KBD_DISABLE_KBD_PORT = 0x10"
definition KBD_DISABLE_AUX_PORT_BIT :: u8 where "KBD_DISABLE_AUX_PORT_BIT = 0x20"
definition KBD_SYSTEM_FLAG :: u8 where "KBD_SYSTEM_FLAG = 0x04"
definition SELF_TEST_PASSED :: u8 where "SELF_TEST_PASSED = 0x55"
definition DEV_RESET :: u8 where "DEV_RESET = 0xFF"
definition DEV_ENABLE :: u8 where "DEV_ENABLE = 0xF4"
definition DEV_SET_DEFAULTS :: u8 where "DEV_SET_DEFAULTS = 0xF6"
definition DEV_SET_SAMPLE_RATE :: u8 where "DEV_SET_SAMPLE_RATE = 0xF3"
definition DEV_GET_DEVICE_ID :: u8 where "DEV_GET_DEVICE_ID = 0xF2"
definition ACK :: u8 where "ACK = 0xFA"
definition RESET_DONE :: u8 where "RESET_DONE = 0xAA"
definition SPIN_LIMIT :: u32 where "SPIN_LIMIT = 1000000"

text \<open>The wait before a write; whether it ended in time is not looked at.\<close>

definition input_settle :: "'p port_io \<Rightarrow> 'p \<Rightarrow> 'p" where
  "input_settle io p =
     snd (poll_loop SPIN_LIMIT (\<lambda>p. case inb io STATUS_PORT p of
       (v, p) \<Rightarrow> (if v AND STATUS_INPUT_FULL = 0 then Some () else None, p)) p)"

definition kbdc_command :: "'p port_io \<Rightarrow> u8 \<Rightarrow> 'p \<Rightarrow> 'p" where
  "kbdc_command io b p = outb io STATUS_PORT b (input_settle io p)"

definition write_data :: "'p port_io \<Rightarrow> u8 \<Rightarrow> 'p \<Rightarrow> 'p" where
  "write_data io b p = outb io DATA_PORT b (input_settle io p)"

definition read_data :: "'p port_io \<Rightarrow> 'p \<Rightarrow> u8 option \<times> 'p" where
  "read_data io =
     poll_loop SPIN_LIMIT (\<lambda>p. case inb io STATUS_PORT p of
       (v, p) \<Rightarrow>
         if v AND STATUS_OUTPUT_FULL \<noteq> 0 then (case inb io DATA_PORT p of (b, p) \<Rightarrow> (Some b, p)) else (None, p))"

fun drain_bytes :: "'p port_io \<Rightarrow> nat \<Rightarrow> 'p \<Rightarrow> 'p" where
  "drain_bytes io 0 p = p"
| "drain_bytes io (Suc n) p =
     (case inb io STATUS_PORT p of
        (v, p) \<Rightarrow> if v AND STATUS_OUTPUT_FULL = 0 then p else drain_bytes io n (snd (inb io DATA_PORT p)))"

definition kbdc_drain :: "'p port_io \<Rightarrow> 'p \<Rightarrow> 'p" where
  "kbdc_drain io p = drain_bytes io 64 p"

definition aux_command :: "'p port_io \<Rightarrow> u8 \<Rightarrow> 'p \<Rightarrow> u8 option \<times> 'p" where
  "aux_command io b p = read_data io (write_data io b (kbdc_command io KBDC_WRITE_TO_AUX p))"

definition reset_device :: "'p port_io \<Rightarrow> bool \<Rightarrow> 'p \<Rightarrow> bool \<times> 'p" where
  "reset_device io aux p =
     (case (if aux then aux_command io DEV_RESET p else read_data io (write_data io DEV_RESET p)) of
        (ack, p) \<Rightarrow>
          if ack \<noteq> Some ACK then (False, p)
          else case read_data io p of
            (r, p) \<Rightarrow>
              if r \<noteq> Some RESET_DONE then (False, p)
              else (True, if aux then snd (read_data io p) else p))"

text \<open>The attempts at a reset of the keyboard.\<close>

fun keyboard_resets :: "'p port_io \<Rightarrow> nat \<Rightarrow> 'p \<Rightarrow> bool \<times> 'p" where
  "keyboard_resets io 0 p = (False, p)"
| "keyboard_resets io (Suc n) p =
     (case reset_device io False p of
        (True, p) \<Rightarrow> (True, snd (read_data io (write_data io DEV_ENABLE p)))
      | (False, p) \<Rightarrow> keyboard_resets io n (kbdc_drain io p))"

definition keyboard_up :: "'p port_io \<Rightarrow> 'p \<Rightarrow> bool \<times> 'p" where
  "keyboard_up io p =
     (case read_data io (write_data io DEV_ENABLE p) of
        (r, p) \<Rightarrow> if r = Some ACK then (True, p) else keyboard_resets io 2 (kbdc_drain io p))"

definition sample_rates :: "'p port_io \<Rightarrow> u8 list \<Rightarrow> 'p \<Rightarrow> 'p" where
  "sample_rates io rates =
     fold (\<lambda>rate p. snd (aux_command io rate (snd (aux_command io DEV_SET_SAMPLE_RATE p)))) rates"

definition device_id :: "'p port_io \<Rightarrow> 'p \<Rightarrow> u8 option \<times> 'p" where
  "device_id io p = read_data io (snd (aux_command io DEV_GET_DEVICE_ID p))"

definition identify_pointer :: "'p port_io \<Rightarrow> 'p \<Rightarrow> pointer_kind \<times> 'p" where
  "identify_pointer io p =
     (case device_id io (sample_rates io [200, 100, 80] p) of
        (r, p) \<Rightarrow>
          if r \<noteq> Some 3 then (PtrStandard, p)
          else case device_id io (sample_rates io [200, 200, 80] p) of
            (r, p) \<Rightarrow> (if r = Some 4 then PtrFiveButton else PtrWheel, p))"

text \<open>The command byte: read, changed, written, and written again after the self-test.\<close>

definition command_byte :: "u8 \<Rightarrow> u8" where
  "command_byte current =
     (current OR KBD_TRANSLATION OR KBD_SYSTEM_FLAG) AND NOT (KBD_DISABLE_KBD_PORT OR KBD_DISABLE_AUX_PORT_BIT) AND NOT 0x03"

definition controller_up :: "'p port_io \<Rightarrow> 'p \<Rightarrow> 'p" where
  "controller_up io p =
     (case read_data io (kbdc_command io KBDC_GET_COMMAND_BYTE
             (kbdc_drain io (kbdc_command io KBDC_DISABLE_AUX_PORT (kbdc_command io KBDC_DISABLE_KBD_PORT_CMD p)))) of
        (None, p) \<Rightarrow> p
      | (Some current, p) \<Rightarrow>
          (case read_data io (kbdc_command io KBDC_SELF_TEST
                  (write_data io (command_byte current) (kbdc_command io KBDC_SET_COMMAND_BYTE p))) of
             (r, p) \<Rightarrow>
               if r = Some SELF_TEST_PASSED
               then write_data io (command_byte current) (kbdc_command io KBDC_SET_COMMAND_BYTE p) else p))"

text \<open>Both ports; a build that forces USB leaves them alone.\<close>

definition ports_up :: "bool \<Rightarrow> 'p port_io \<Rightarrow> 'p \<Rightarrow> (bool \<times> pointer_kind) \<times> 'p" where
  "ports_up force_usb io p =
     (case (if force_usb then (False, kbdc_drain io (kbdc_command io KBDC_ENABLE_KBD_PORT (controller_up io p)))
            else keyboard_up io (kbdc_drain io (kbdc_command io KBDC_ENABLE_KBD_PORT (controller_up io p)))) of
        (kb, p) \<Rightarrow>
          let p = kbdc_command io KBDC_TEST_AUX_PORT p
          in if force_usb then ((kb, PtrNone), kbdc_drain io p)
             else case read_data io p of
               (r, p) \<Rightarrow>
                 if r \<noteq> Some 0x00 then ((kb, PtrNone), kbdc_drain io p)
                 else case reset_device io True (kbdc_command io KBDC_ENABLE_AUX_PORT p) of
                   (False, p) \<Rightarrow> ((kb, PtrNone), kbdc_drain io p)
                 | (True, p) \<Rightarrow>
                     (case identify_pointer io p of
                        (kind, p) \<Rightarrow>
                          ((kb, kind), kbdc_drain io (snd (aux_command io DEV_ENABLE (snd (aux_command io DEV_SET_DEFAULTS p)))))))"

section \<open>USB\<close>

text \<open>The connected ports, as many as there is room for.\<close>

fun collect_ports :: "'d host \<Rightarrow> u8 list \<Rightarrow> u8 list \<Rightarrow> 'd xhci \<Rightarrow> u8 list \<times> 'd xhci" where
  "collect_ports H [] ports x = (ports, x)"
| "collect_ports H (p # ps) ports x =
     (case port_status H p x of
        (v, x) \<Rightarrow>
          if v AND PORTSC_CCS = 0 then collect_ports H ps ports x
          else if length ports = 32 then (ports, x)
          else collect_ports H ps (ports @ [p]) x)"

definition take_role :: "nat \<Rightarrow> usb_hid_kind \<Rightarrow> usb_input \<Rightarrow> usb_input" where
  "take_role i kind us =
     (if kind = HidKeyboard \<and> usb_keyboard us = None then us\<lparr>usb_keyboard := Some i\<rparr>
      else if kind = HidPointer \<and> usb_pointer us = None then us\<lparr>usb_pointer := Some i\<rparr>
      else us)"

fun enumerate_ports :: "'d host \<Rightarrow> u8 list \<Rightarrow> usb_input \<Rightarrow> 'd xhci \<Rightarrow> usb_input \<times> 'd xhci" where
  "enumerate_ports H [] us x = (us, x)"
| "enumerate_ports H (p # ps) us x =
     (if usb_keyboard us \<noteq> None \<and> usb_pointer us \<noteq> None then (us, x)
      else case port_reset H p x of
        (False, x) \<Rightarrow> enumerate_ports H ps us x
      | (True, x) \<Rightarrow>
          (case xhci_enumerate H p x of
             (None, x) \<Rightarrow> enumerate_ports H ps us x
           | (Some (i, hid), x) \<Rightarrow> enumerate_ports H ps (take_role i (uh_kind hid) us) x))"

definition usb_new :: usb_input where
  "usb_new = \<lparr>usb_keyboard = None, usb_pointer = None, previous = replicate 8 0, next_device = 0\<rparr>"

definition usb_bring_up :: "'d host \<Rightarrow> pci_space \<Rightarrow> (pci_device \<Rightarrow> 'd) \<Rightarrow> (usb_input \<times> 'd xhci) option" where
  "usb_bring_up H space enabled =
     (case pci_find space (\<lambda>d. usb_kind_of d = Some Xhci) of
        Some (Some d) \<Rightarrow>
          (case xhci_new H d (enabled d) of
             None \<Rightarrow> None
           | Some x \<Rightarrow>
               (case collect_ports H (map of_nat [1..<unat (max_ports x) + 1]) [] x of
                  (ports, x) \<Rightarrow>
                    (case enumerate_ports H ports usb_new x of
                       (us, x) \<Rightarrow> if usb_keyboard us \<noteq> None \<or> usb_pointer us \<noteq> None then Some (us, x) else None)))
      | _ \<Rightarrow> None)"

text \<open>The reports that the poll of the two devices asks for.\<close>

definition xhci_reports :: "'d host \<Rightarrow> 'd xhci usb_reports" where
  "xhci_reports H device x = poll_report H device 8 x"

section \<open>All of it\<close>

definition input_init ::
    "bool \<Rightarrow> 'p port_io \<Rightarrow> 'u host \<Rightarrow> (pci_device \<Rightarrow> 'u) \<Rightarrow> 'd mmio \<Rightarrow> 'd machine \<Rightarrow> u64 \<Rightarrow> 'p \<Rightarrow>
     ('d i2c_master input \<times> probe_failure option \<times> 'u xhci option \<times> 'p) option" where
  "input_init force_usb io H enabled D mac ticks_per_us p =
     (case ports_up force_usb io p of
        ((kb, kind), p) \<Rightarrow>
          let st = (input_new ticks_per_us)\<lparr>keyboard := kb, pointer := kind\<rparr>;
              found = (if \<not> keyboard st \<or> pointer st = PtrNone then usb_bring_up H (mac_pci mac) enabled else None);
              st = (case found of
                      None \<Rightarrow> st
                    | Some (us, x) \<Rightarrow>
                        st\<lparr>usb := Some us, keyboard := keyboard st \<or> usb_keyboard us \<noteq> None,
                           pointer := (if usb_pointer us \<noteq> None \<and> pointer st = PtrNone then PtrUsb else pointer st)\<rparr>)
          in if pointer st = PtrNone
             then (case probe_nth D mac 0 of
                     None \<Rightarrow> None
                   | Some (Inl why) \<Rightarrow> Some (st, Some why, map_option snd found, p)
                   | Some (Inr t) \<Rightarrow> Some (st\<lparr>i2c := Some t, pointer := PtrI2cHid\<rparr>, None, map_option snd found, p))
             else Some (st, None, map_option snd found, p))"

section \<open>What the interface says\<close>

definition has_usb :: "(usb_input \<Rightarrow> nat option) \<Rightarrow> 'b input \<Rightarrow> bool" where
  "has_usb role st \<longleftrightarrow> (case usb st of None \<Rightarrow> False | Some us \<Rightarrow> role us \<noteq> None)"

definition has_pointer :: "'b input \<Rightarrow> bool" where
  "has_pointer st \<longleftrightarrow> pointer st \<noteq> PtrNone"

definition input_source :: "'b input \<Rightarrow> string" where
  "input_source st =
     (if pointer st = PtrI2cHid
      then if keyboard st then ''ps/2 keyboard + i2c-hid touchpad'' else ''i2c-hid touchpad''
      else let usb_kb = has_usb usb_keyboard st; usb_ptr = has_usb usb_pointer st;
               ps2_only_keyboard = (keyboard st \<and> \<not> usb_kb)
           in case (keyboard st, has_pointer st, usb_kb \<or> usb_ptr) of
                (True, True, True) \<Rightarrow> if ps2_only_keyboard then ''ps/2 keyboard + usb pointer'' else ''usb hid''
              | (True, True, False) \<Rightarrow> ''ps/2''
              | (True, False, _) \<Rightarrow> ''keyboard only (no pointer found)''
              | (False, True, _) \<Rightarrow> ''pointer only (no keyboard found)''
              | (False, False, _) \<Rightarrow> ''no input device'')"

fun pointer_trouble :: "probe_failure option \<Rightarrow> string" where
  "pointer_trouble None = ''no pointer answered on any bus''"
| "pointer_trouble (Some NoDevice) = ''no pointer: nothing on PS/2 or USB, and no I2C-HID device in this firmware''"
| "pointer_trouble (Some NoDsdt) = ''no pointer: the DSDT could not be read''"
| "pointer_trouble (Some NoControllerDevice) = ''no pointer: no ACPI table declares the controller named in _CRS''"
| "pointer_trouble (Some NoControllerAddress) = ''no pointer: the I2C controller declares no _ADR, so its PCI slot is unknown''"
| "pointer_trouble (Some NoControllerPci) = ''no pointer: no LPSS I2C controller at the slot _ADR names''"
| "pointer_trouble (Some ControllerFailed) = ''no pointer: the I2C controller did not leave reset''"
| "pointer_trouble (Some NoHidDescriptor) = ''no pointer: the touchpad did not answer at its descriptor register''"
| "pointer_trouble (Some ResetFailed) = ''no pointer: the touchpad would not reset''"
| "pointer_trouble (Some ReportDescriptorFailed) = ''no pointer: the touchpad's report descriptor could not be read''"
| "pointer_trouble (Some DescriptorTooLarge) = ''no pointer: the touchpad's report descriptor could not be read''"
| "pointer_trouble (Some NoPointerReport) = ''no pointer: the touchpad reports contacts only, not a cursor''"

definition trouble :: "'b input \<Rightarrow> probe_failure option \<Rightarrow> string" where
  "trouble st why =
     (case (keyboard st, has_pointer st) of
        (False, False) \<Rightarrow> ''no keyboard and no pointer answered. Keys are read from the 8042 regardless, so they may still work''
      | (False, True) \<Rightarrow> ''no keyboard answered its probes. Keys are read from the 8042 regardless, so they may still work''
      | (True, False) \<Rightarrow> pointer_trouble why
      | (True, True) \<Rightarrow> [])"

record i2c_found =
  found_slave :: u16
  found_controller :: "u8 \<times> u8 \<times> u8"
  found_vendor :: u16
  found_product :: u16
  found_report :: "u8 option"
  found_register :: u16
  found_pin :: "u16 option"
  found_gate :: gate_state_value
  found_discovery :: discovery

record input_found =
  ps2_keyboard :: bool
  ps2_mouse :: "pointer_kind option"
  found_usb_controller :: bool
  found_usb_keyboard :: bool
  found_usb_pointer :: bool
  found_i2c :: "i2c_found option"
  found_i2c_abandoned :: bool
  found_i2c_failure :: "probe_failure option"

definition i2c_found_of :: "'b i2c_hid \<Rightarrow> i2c_found" where
  "i2c_found_of t =
     \<lparr>found_slave = address t, found_controller = hid_controller t, found_vendor = hid_vendor (descriptor t),
      found_product = hid_product (descriptor t), found_report = hid_report_id t,
      found_register = input_register (descriptor t), found_pin = interrupt_pin t, found_gate = gate_state t,
      found_discovery = discovered t\<rparr>"

definition input_found_of :: "'b input \<Rightarrow> probe_failure option \<Rightarrow> input_found" where
  "input_found_of st why =
     \<lparr>ps2_keyboard = (keyboard st \<and> \<not> has_usb usb_keyboard st),
      ps2_mouse = (case pointer st of PtrUsb \<Rightarrow> None | PtrNone \<Rightarrow> None | kind \<Rightarrow> Some kind),
      found_usb_controller = (usb st \<noteq> None), found_usb_keyboard = has_usb usb_keyboard st,
      found_usb_pointer = has_usb usb_pointer st, found_i2c = map_option i2c_found_of (i2c st),
      found_i2c_abandoned = (case i2c st of None \<Rightarrow> False | Some t \<Rightarrow> abandoned t), found_i2c_failure = why\<rparr>"

section \<open>The command byte\<close>

text \<open>A machine that keeps the writes to its ports.\<close>

definition port_logging :: "'p port_io \<Rightarrow> ('p \<times> (u16 \<times> u8) list) port_io" where
  "port_logging io =
     \<lparr>inb = (\<lambda>port (p, l). case inb io port p of (v, p) \<Rightarrow> (v, p, l)),
      outb = (\<lambda>port b (p, l). (outb io port b p, l @ [(port, b)]))\<rparr>"

lemma logging_reads: "snd (snd (inb (port_logging io) port p)) = snd p"
  by (simp add: port_logging_def case_prod_beta)

lemma logging_writes: "snd (outb (port_logging io) port b p) = snd p @ [(port, b)]"
  by (simp add: port_logging_def case_prod_beta)

lemma logging_settle [simp]: "snd (input_settle (port_logging io) p) = snd p"
  unfolding input_settle_def
  by (rule poll_loop_keeps [where P = "\<lambda>q. snd q = snd p"]) (simp_all add: case_prod_beta logging_reads)

lemma logging_read_data [simp]: "snd (snd (read_data (port_logging io) p)) = snd p"
  unfolding read_data_def
  by (rule poll_loop_keeps [where P = "\<lambda>q. snd q = snd p"]) (simp_all add: case_prod_beta logging_reads)

lemma logging_command [simp]:
  "snd (kbdc_command (port_logging io) b p) = snd p @ [(STATUS_PORT, b)]"
  "snd (write_data (port_logging io) b p) = snd p @ [(DATA_PORT, b)]"
  by (simp_all add: kbdc_command_def write_data_def logging_writes)

lemma logging_drain [simp]: "snd (kbdc_drain (port_logging io) p) = snd p"
proof -
  have "snd (drain_bytes (port_logging io) n p) = snd p" for n
    by (induction n arbitrary: p) (simp_all add: case_prod_beta logging_reads)
  then show ?thesis by (simp add: kbdc_drain_def)
qed

lemma command_byte_bits:
  "command_byte c AND 0x03 = 0" "command_byte c AND 0x44 = 0x44" "command_byte c AND 0x30 = 0"
  "command_byte c AND 0x88 = c AND 0x88"
proof -
  have n: "n = 0 \<or> n = 1 \<or> n = 2 \<or> n = 3 \<or> n = 4 \<or> n = 5 \<or> n = 6 \<or> n = 7" if "n < LENGTH(8)" for n :: nat
    using that by auto
  note defs = command_byte_def KBD_TRANSLATION_def KBD_SYSTEM_FLAG_def KBD_DISABLE_KBD_PORT_def KBD_DISABLE_AUX_PORT_BIT_def
  show "command_byte c AND 0x03 = 0" "command_byte c AND 0x44 = 0x44" "command_byte c AND 0x30 = 0"
    "command_byte c AND 0x88 = c AND 0x88"
    unfolding defs by (rule bit_word_eqI, drule n, elim disjE; simp add: bit_simps)+
qed

text \<open>What is written before the byte is known, and what writes it.\<close>

definition quiesced :: "'p port_io \<Rightarrow> 'p \<Rightarrow> 'p" where
  "quiesced io p =
     kbdc_command io KBDC_GET_COMMAND_BYTE
       (kbdc_drain io (kbdc_command io KBDC_DISABLE_AUX_PORT (kbdc_command io KBDC_DISABLE_KBD_PORT_CMD p)))"

definition byte_writes :: "u8 \<Rightarrow> (u16 \<times> u8) list" where
  "byte_writes b = [(STATUS_PORT, KBDC_SET_COMMAND_BYTE), (DATA_PORT, b)]"


section \<open>A sound 8042\<close>

text \<open>
  A controller as its documentation has it, with the bytes that wait to be read, what the next byte for the
  data port means, the command byte, a keyboard or none, and a mouse of some kind or none.  A mouse that can
  do more changes its ID after the three sample rates of a knock.
\<close>

datatype steer = ToKeyboard | ToMouse | ToCommandByte

record ps2_model =
  ps_kind :: pointer_kind
  ps_keyboard :: bool
  ps_byte :: u8
  ps_out :: "u8 list"
  ps_steer :: steer
  ps_rate :: bool
  ps_rates :: "u8 list"
  ps_id :: u8

definition answer :: "u8 list \<Rightarrow> ps2_model \<Rightarrow> ps2_model" where
  "answer bytes m = m\<lparr>ps_out := ps_out m @ bytes\<rparr>"

definition mouse_rate :: "u8 \<Rightarrow> ps2_model \<Rightarrow> ps2_model" where
  "mouse_rate b m =
     (let rates = take 3 (b # ps_rates m)
      in m\<lparr>ps_rate := False, ps_rates := rates,
           ps_id := (if rates = [80, 100, 200] \<and> ps_id m = 0 \<and> ps_kind m \<in> {PtrWheel, PtrFiveButton} then 3
                     else if rates = [80, 200, 200] \<and> ps_id m = 3 \<and> ps_kind m = PtrFiveButton then 4
                     else ps_id m)\<rparr>)"

definition mouse_byte :: "u8 \<Rightarrow> ps2_model \<Rightarrow> ps2_model" where
  "mouse_byte b m =
     (if ps_kind m = PtrNone then m
      else if b = DEV_RESET then answer [ACK, RESET_DONE, 0] (m\<lparr>ps_rate := False, ps_rates := [], ps_id := 0\<rparr>)
      else if ps_rate m then answer [ACK] (mouse_rate b m)
      else if b = DEV_SET_SAMPLE_RATE then answer [ACK] (m\<lparr>ps_rate := True\<rparr>)
      else if b = DEV_GET_DEVICE_ID then answer [ACK, ps_id m] m
      else answer [ACK] m)"

definition keyboard_byte :: "u8 \<Rightarrow> ps2_model \<Rightarrow> ps2_model" where
  "keyboard_byte b m =
     (if \<not> ps_keyboard m then m else if b = DEV_RESET then answer [ACK, RESET_DONE] m else answer [ACK] m)"

definition ps2_command :: "u8 \<Rightarrow> ps2_model \<Rightarrow> ps2_model" where
  "ps2_command b m =
     (if b = KBDC_GET_COMMAND_BYTE then answer [ps_byte m] m
      else if b = KBDC_SET_COMMAND_BYTE then m\<lparr>ps_steer := ToCommandByte\<rparr>
      else if b = KBDC_WRITE_TO_AUX then m\<lparr>ps_steer := ToMouse\<rparr>
      else if b = KBDC_SELF_TEST then answer [SELF_TEST_PASSED] m
      else if b = KBDC_TEST_AUX_PORT then answer [0] m
      else m)"

definition ps2_data :: "u8 \<Rightarrow> ps2_model \<Rightarrow> ps2_model" where
  "ps2_data b m =
     (case ps_steer m of
        ToKeyboard \<Rightarrow> keyboard_byte b m
      | ToMouse \<Rightarrow> mouse_byte b (m\<lparr>ps_steer := ToKeyboard\<rparr>)
      | ToCommandByte \<Rightarrow> m\<lparr>ps_steer := ToKeyboard, ps_byte := b\<rparr>)"

definition ps2_io :: "ps2_model port_io" where
  "ps2_io =
     \<lparr>inb = (\<lambda>port m.
        if port = STATUS_PORT then (if ps_out m = [] then 0 else STATUS_OUTPUT_FULL, m)
        else (case ps_out m of [] \<Rightarrow> (0, m) | b # bs \<Rightarrow> (b, m\<lparr>ps_out := bs\<rparr>))),
      outb = (\<lambda>port b m. if port = STATUS_PORT then ps2_command b m else ps2_data b m)\<rparr>"

lemma ps2_ports: "DATA_PORT \<noteq> STATUS_PORT" "SPIN_LIMIT \<noteq> 0" "STATUS_OUTPUT_FULL AND STATUS_INPUT_FULL = 0" "STATUS_OUTPUT_FULL \<noteq> 0"
  by (simp_all add: DATA_PORT_def STATUS_PORT_def SPIN_LIMIT_def STATUS_OUTPUT_FULL_def STATUS_INPUT_FULL_def)

lemma ps2_settle [simp]: "input_settle ps2_io m = m"
proof -
  have "poll_loop SPIN_LIMIT (\<lambda>p. case inb ps2_io STATUS_PORT p of
       (v, p) \<Rightarrow> (if v AND STATUS_INPUT_FULL = 0 then Some () else None, p)) m = (Some (), m)"
    by (rule poll_loop_first) (simp_all add: ps2_io_def ps2_ports)
  then show ?thesis by (simp add: input_settle_def)
qed

lemma ps2_outb: "outb ps2_io STATUS_PORT b m = ps2_command b m" "outb ps2_io DATA_PORT b m = ps2_data b m"
  using ps2_ports(1) by (simp_all add: ps2_io_def)

lemma ps2_writes [simp]: "kbdc_command ps2_io b m = ps2_command b m" "write_data ps2_io b m = ps2_data b m"
  by (simp_all add: kbdc_command_def write_data_def ps2_outb)

lemma ps2_read:
  "read_data ps2_io m = (case ps_out m of [] \<Rightarrow> (None, m) | b # bs \<Rightarrow> (Some b, m\<lparr>ps_out := bs\<rparr>))"
proof (cases "ps_out m")
  case Nil
  then show ?thesis unfolding read_data_def by (subst poll_loop_stuck) (simp_all add: ps2_io_def)
next
  case (Cons b bs)
  then show ?thesis unfolding read_data_def
    using ps2_ports by (subst poll_loop_first [where r = b and s' = "m\<lparr>ps_out := bs\<rparr>"]) (simp_all add: ps2_io_def)
qed

lemma ps2_drain: "length (ps_out m) \<le> 64 \<Longrightarrow> kbdc_drain ps2_io m = m\<lparr>ps_out := []\<rparr>"
proof -
  have "length (ps_out m) \<le> n \<Longrightarrow> drain_bytes ps2_io n m = m\<lparr>ps_out := []\<rparr>" for n
  proof (induction n arbitrary: m)
    case (Suc n)
    show ?case
    proof (cases "ps_out m")
      case Nil
      then show ?thesis by (simp add: ps2_io_def)
    next
      case (Cons b bs)
      then show ?thesis using Suc.IH [of "m\<lparr>ps_out := bs\<rparr>"] Suc.prems ps2_ports by (simp add: ps2_io_def)
    qed
  qed simp
  then show "length (ps_out m) \<le> 64 \<Longrightarrow> kbdc_drain ps2_io m = m\<lparr>ps_out := []\<rparr>" by (simp add: kbdc_drain_def)
qed

lemmas ps2_bytes =
  KBDC_GET_COMMAND_BYTE_def KBDC_SET_COMMAND_BYTE_def KBDC_DISABLE_AUX_PORT_def KBDC_ENABLE_AUX_PORT_def
  KBDC_TEST_AUX_PORT_def KBDC_SELF_TEST_def KBDC_DISABLE_KBD_PORT_CMD_def KBDC_ENABLE_KBD_PORT_def
  KBDC_WRITE_TO_AUX_def SELF_TEST_PASSED_def DEV_RESET_def DEV_ENABLE_def DEV_SET_DEFAULTS_def
  DEV_SET_SAMPLE_RATE_def DEV_GET_DEVICE_ID_def ACK_def RESET_DONE_def

lemma ps2_steered:
  "ps2_data b (m\<lparr>ps_steer := ToMouse\<rparr>) = mouse_byte b (m\<lparr>ps_steer := ToKeyboard\<rparr>)"
  "ps2_data b (m\<lparr>ps_steer := ToCommandByte\<rparr>) = m\<lparr>ps_steer := ToKeyboard, ps_byte := b\<rparr>"
  "ps_steer m = ToKeyboard \<Longrightarrow> ps2_data b m = keyboard_byte b m"
  by (simp_all add: ps2_data_def)

lemma ps2_aux:
  "aux_command ps2_io b m = read_data ps2_io (mouse_byte b (m\<lparr>ps_steer := ToKeyboard\<rparr>))"
  by (simp add: aux_command_def ps2_command_def ps2_steered ps2_bytes)

text \<open>A rate set on a mouse that waits for nothing, its ID asked for, and the two knocks.\<close>

definition mouse_ready :: "ps2_model \<Rightarrow> bool" where
  "mouse_ready m \<longleftrightarrow> ps_out m = [] \<and> ps_steer m = ToKeyboard \<and> \<not> ps_rate m \<and> ps_kind m \<noteq> PtrNone"

lemma ps2_answered [simp]: "ps_out m = [] \<Longrightarrow> read_data ps2_io (answer (a # bs) m) = (Some a, m\<lparr>ps_out := bs\<rparr>)"
  by (simp add: ps2_read answer_def)

lemma mouse_idle [simp]: "mouse_ready m \<Longrightarrow> m\<lparr>ps_steer := ToKeyboard\<rparr> = m" "mouse_ready m \<Longrightarrow> m\<lparr>ps_out := []\<rparr> = m"
    "mouse_ready m \<Longrightarrow> ps_out m = []"
  by (simp_all add: mouse_ready_def)

lemma mouse_rate_ready [simp]: "mouse_ready m \<Longrightarrow> mouse_ready (mouse_rate rate m)"
  by (simp add: mouse_ready_def mouse_rate_def Let_def)

lemma mouse_asked:
  assumes "mouse_ready m"
  shows "aux_command ps2_io DEV_SET_SAMPLE_RATE m = (Some ACK, m\<lparr>ps_rate := True\<rparr>)"
    and "rate \<noteq> DEV_RESET \<Longrightarrow> aux_command ps2_io rate (m\<lparr>ps_rate := True\<rparr>) = (Some ACK, mouse_rate rate m)"
    and "aux_command ps2_io DEV_GET_DEVICE_ID m = (Some ACK, m\<lparr>ps_out := [ps_id m]\<rparr>)"
    and "aux_command ps2_io DEV_SET_DEFAULTS m = (Some ACK, m)" "aux_command ps2_io DEV_ENABLE m = (Some ACK, m)"
proof -
  have m: "ps_kind m \<noteq> PtrNone" "\<not> ps_rate m" using assms by (simp_all add: mouse_ready_def)
  have r: "mouse_byte DEV_SET_SAMPLE_RATE m = answer [ACK] (m\<lparr>ps_rate := True\<rparr>)"
    "mouse_byte DEV_GET_DEVICE_ID m = answer [ACK, ps_id m] m" "mouse_byte DEV_SET_DEFAULTS m = answer [ACK] m"
    "mouse_byte DEV_ENABLE m = answer [ACK] m" using m by (simp_all add: mouse_byte_def ps2_bytes)
  show "aux_command ps2_io DEV_SET_SAMPLE_RATE m = (Some ACK, m\<lparr>ps_rate := True\<rparr>)"
    "aux_command ps2_io DEV_GET_DEVICE_ID m = (Some ACK, m\<lparr>ps_out := [ps_id m]\<rparr>)"
    "aux_command ps2_io DEV_SET_DEFAULTS m = (Some ACK, m)" "aux_command ps2_io DEV_ENABLE m = (Some ACK, m)"
    using assms by (simp_all add: ps2_aux r)
  have w: "mouse_byte rate (m\<lparr>ps_rate := True\<rparr>) = answer [ACK] (mouse_rate rate m)" if "rate \<noteq> DEV_RESET"
    using m that by (auto simp: mouse_byte_def mouse_rate_def Let_def)
  have "(m\<lparr>ps_rate := True\<rparr>)\<lparr>ps_steer := ToKeyboard\<rparr> = m\<lparr>ps_rate := True\<rparr>" using assms by (simp add: mouse_ready_def)
  then show "rate \<noteq> DEV_RESET \<Longrightarrow> aux_command ps2_io rate (m\<lparr>ps_rate := True\<rparr>) = (Some ACK, mouse_rate rate m)"
    using assms mouse_rate_ready [OF assms, of rate] by (simp add: ps2_aux w del: mouse_rate_ready)
qed

lemma rates_set:
  "mouse_ready m \<Longrightarrow> DEV_RESET \<notin> set rates \<Longrightarrow> sample_rates ps2_io rates m = fold mouse_rate rates m \<and> mouse_ready (fold mouse_rate rates m)"
proof (induction rates arbitrary: m)
  case (Cons r rs)
  then have "r \<noteq> DEV_RESET" by auto
  then show ?case using Cons.IH [of "mouse_rate r m"] Cons.prems by (simp add: sample_rates_def mouse_asked)
qed (simp add: sample_rates_def)

lemma id_asked: "mouse_ready m \<Longrightarrow> device_id ps2_io m = (Some (ps_id m), m)"
  by (simp add: device_id_def mouse_asked ps2_read)

lemma knocks:
  assumes "mouse_ready m" "ps_id m = 0"
  shows "let m1 = fold mouse_rate [200, 100, 80] m in
      ps_id m1 = (if ps_kind m \<in> {PtrWheel, PtrFiveButton} then 3 else 0) \<and>
      ps_id (fold mouse_rate [200, 200, 80] m1) = (if ps_kind m = PtrFiveButton then 4 else ps_id m1)"
  using assms(2) by (simp add: mouse_rate_def Let_def)

lemma mouse_rate_keeps [simp]: "ps_kind (mouse_rate r m) = ps_kind m" "ps_keyboard (mouse_rate r m) = ps_keyboard m"
    "ps_byte (mouse_rate r m) = ps_byte m"
  by (simp_all add: mouse_rate_def Let_def)

lemma pointer_identified:
  assumes "mouse_ready m" "ps_id m = 0" "ps2_pointer (ps_kind m)"
  shows "fst (identify_pointer ps2_io m) = ps_kind m"
    and "mouse_ready (snd (identify_pointer ps2_io m))" "ps_keyboard (snd (identify_pointer ps2_io m)) = ps_keyboard m"
    "ps_byte (snd (identify_pointer ps2_io m)) = ps_byte m"
proof -
  let ?m1 = "fold mouse_rate [200, 100, 80] m" and ?m2 = "fold mouse_rate [200, 200, 80] (fold mouse_rate [200, 100, 80] m)"
  have r: "DEV_RESET \<notin> set [200, 100, 80]" "DEV_RESET \<notin> set [200, 200, 80]" by (simp_all add: DEV_RESET_def)
  have s1: "sample_rates ps2_io [200, 100, 80] m = ?m1" "mouse_ready ?m1"
    using rates_set [OF assms(1) r(1)] by simp_all
  have s2: "sample_rates ps2_io [200, 200, 80] ?m1 = ?m2" "mouse_ready ?m2"
    using rates_set [OF s1(2) r(2)] by simp_all
  have k: "ps_id ?m1 = (if ps_kind m \<in> {PtrWheel, PtrFiveButton} then 3 else 0)"
    "ps_id ?m2 = (if ps_kind m = PtrFiveButton then 4 else ps_id ?m1)"
    using knocks [OF assms(1,2)] by (simp_all add: Let_def)
  have i: "identify_pointer ps2_io m =
      (if ps_id ?m1 \<noteq> 3 then (PtrStandard, ?m1) else (if ps_id ?m2 = 4 then PtrFiveButton else PtrWheel, ?m2))"
    by (simp only: identify_pointer_def s1 s2 id_asked prod.case option.inject)
  show "fst (identify_pointer ps2_io m) = ps_kind m"
    using assms(3) by (auto simp only: i k ps2_pointer_def split: if_splits) (simp_all add: ps2_pointer_def)
  show "mouse_ready (snd (identify_pointer ps2_io m))" "ps_keyboard (snd (identify_pointer ps2_io m)) = ps_keyboard m"
    "ps_byte (snd (identify_pointer ps2_io m)) = ps_byte m"
    using s1(2) s2(2) by (simp_all add: i)
qed

text \<open>
  C19. On a sound controller the bring-up finds what is there: a keyboard when there is one, and the kind of the
  mouse by its answers to the two knocks, or none.  It leaves the command byte as it should be and no byte
  behind for the poll to take for a keystroke.
\<close>

theorem sound_ports_found:
  assumes "ps_kind m = PtrNone \<or> ps2_pointer (ps_kind m)" "length (ps_out m) \<le> 64" "ps_steer m = ToKeyboard"
  shows "fst (ports_up False ps2_io m) = (ps_keyboard m, ps_kind m) \<and>
    ps_byte (snd (ports_up False ps2_io m)) = command_byte (ps_byte m) \<and> ps_out (snd (ports_up False ps2_io m)) = []"
proof -
  define m1 where "m1 = m\<lparr>ps_out := [], ps_byte := command_byte (ps_byte m)\<rparr>"
  have c: "controller_up ps2_io m = m1" 
    using assms(2,3) by (simp add: controller_up_def ps2_command_def ps2_bytes ps2_drain answer_def ps2_read ps2_data_def m1_def)
  have m1: "ps_out m1 = []" "ps_steer m1 = ToKeyboard" "m1\<lparr>ps_out := []\<rparr> = m1" "m1\<lparr>ps_steer := ToKeyboard\<rparr> = m1"
    "ps_keyboard m1 = ps_keyboard m" "ps_kind m1 = ps_kind m" "ps_byte m1 = command_byte (ps_byte m)"
    using assms(3) by (simp_all add: m1_def)
  have e: "kbdc_command ps2_io KBDC_ENABLE_KBD_PORT m1 = m1" "kbdc_command ps2_io KBDC_ENABLE_AUX_PORT m1 = m1"
    "kbdc_command ps2_io KBDC_TEST_AUX_PORT m1 = answer [0] m1" "kbdc_drain ps2_io m1 = m1"
    using m1 by (simp_all add: ps2_command_def ps2_bytes ps2_drain)
  have k: "keyboard_up ps2_io m1 = (ps_keyboard m, m1)"
  proof (cases "ps_keyboard m")
    case True
    then show ?thesis using m1 by (simp add: keyboard_up_def ps2_steered keyboard_byte_def ps2_bytes)
  next
    case False
    then have w: "write_data ps2_io b m1 = m1" "read_data ps2_io m1 = (None, m1)" for b
      using m1 by (simp_all add: ps2_steered keyboard_byte_def ps2_read)
    then have "keyboard_resets ps2_io n m1 = (False, m1)" for n
      using e(4) by (induction n) (simp_all add: reset_device_def)
    then show ?thesis using False w e(4) by (simp add: keyboard_up_def)
  qed
  have a: "read_data ps2_io (answer [0] m1) = (Some 0, m1)" using m1 by simp
  show ?thesis
  proof (cases "ps_kind m = PtrNone")
    case True
    then have "aux_command ps2_io DEV_RESET m1 = (None, m1)" by (simp add: ps2_aux m1 mouse_byte_def ps2_read)
    then show ?thesis
      using True m1 by (simp add: ports_up_def c e k a reset_device_def del: ps2_writes)
  next
    case False
    define m2 where "m2 = m1\<lparr>ps_rate := False, ps_rates := [], ps_id := 0\<rparr>"
    have m2: "mouse_ready m2" "ps_id m2 = 0" "ps2_pointer (ps_kind m2)" "ps_kind m2 = ps_kind m"
      "ps_keyboard m2 = ps_keyboard m" "ps_byte m2 = command_byte (ps_byte m)"
      using m1 False assms(1) by (simp_all add: m2_def mouse_ready_def)
    have "mouse_byte DEV_RESET m1 = answer [ACK, RESET_DONE, 0] m2" using False m1 by (simp add: mouse_byte_def m2_def)
    then have "aux_command ps2_io DEV_RESET m1 = (Some ACK, m2\<lparr>ps_out := [RESET_DONE, 0]\<rparr>)"
      using m2(1) by (simp add: ps2_aux m1(4))
    then have r: "reset_device ps2_io True m1 = (True, m2)"
      using m2(1) by (simp add: reset_device_def ps2_read)
    obtain kind m3 where i: "identify_pointer ps2_io m2 = (kind, m3)" by fastforce
    note m3 = pointer_identified [OF m2(1-3), unfolded i, simplified]
    have "kbdc_drain ps2_io m3 = m3" using m3(2) by (simp add: ps2_drain)
    then show ?thesis
      using m2 m3 by (simp add: ports_up_def c e k a r i mouse_asked del: ps2_writes)
  qed
qed

text \<open>A notebook: a keyboard, a mouse with a wheel, and a byte that was left behind.\<close>

definition sample_ps2 :: ps2_model where
  "sample_ps2 =
     \<lparr>ps_kind = PtrWheel, ps_keyboard = True, ps_byte = 0x47, ps_out = [0x9C], ps_steer = ToKeyboard, ps_rate = True,
      ps_rates = [200], ps_id = 3\<rparr>"

lemma sound_ports_found_witness:
  "fst (ports_up False ps2_io sample_ps2) = (True, PtrWheel) \<and> ps_byte (snd (ports_up False ps2_io sample_ps2)) = 0x44"
proof -
  have s: "ps_kind sample_ps2 = PtrNone \<or> ps2_pointer (ps_kind sample_ps2)" "length (ps_out sample_ps2) \<le> 64"
    "ps_steer sample_ps2 = ToKeyboard" "ps_keyboard sample_ps2" "ps_kind sample_ps2 = PtrWheel"
    "command_byte (ps_byte sample_ps2) = 0x44" by code_simp+
  show ?thesis using sound_ports_found [OF s(1-3)] s(4-6) by simp
qed

section \<open>The roles of the USB devices\<close>

text \<open>What the accesses to registers leave alone.\<close>

definition view :: "'d xhci \<Rightarrow> device_slot list \<times> nat \<times> nat \<times> nat \<times> nat" where
  "view x = (xhci_devices x, device_count x, command_index x, event_index x, context_size x)"

lemma view_indices: "view y = view x \<Longrightarrow> indices_ok y = indices_ok x"
  by (simp add: view_def indices_ok_def)

lemma view_hw [simp]: "view (x\<lparr>hw := d\<rparr>) = view x" "view (x\<lparr>scratchpad := n\<rparr>) = view x"
  by (simp_all add: view_def)

lemma view_access [simp]:
  "view (act H e x) = view x" "view (snd (rd32 H a x)) = view x" "view (snd (rd8 H a x)) = view x" "view (write64 H a v x) = view x"
  by (simp_all add: act_def rd32_def rd8_def write64_def split: prod.split)

lemma view_read: "rd32 H a x = (v, y) \<Longrightarrow> view y = view x" "rd8 H a x = (w, y) \<Longrightarrow> view y = view x"
  using view_access(2) [of H a x] view_access(3) [of H a x] by simp_all

lemma view_wait:
  assumes "\<And>y. view (snd (f y)) = view y"
  shows "view (snd (wait_for f x)) = view x"
proof -
  let ?f = "\<lambda>x. case f x of (ok, x) \<Rightarrow> (if ok then Some () else None, x)"
  have "view (snd (poll_loop POLLS ?f x)) = view x"
    by (rule poll_loop_keeps [where P = "\<lambda>y. view y = view x"]) (simp_all add: case_prod_beta assms)
  then show ?thesis by (simp add: wait_for_def case_prod_beta)
qed

lemma view_wait_register [simp]:
  "view (snd (wait_for (\<lambda>x. case rd32 H (a x) x of (v, x) \<Rightarrow> (P v, x)) x)) = view x"
  by (rule view_wait) (simp add: case_prod_beta)

lemma view_waited: "wait_for (\<lambda>x. case rd32 H (a x) x of (v, x) \<Rightarrow> (P v, x)) x = (ok, y) \<Longrightarrow> view y = view x"
  using view_wait_register [where H = H and a = a and P = P and x = x] by simp

lemma view_handoff [simp]: "view (take_from_firmware H hcc1 x) = view x"
proof -
  have w: "view (handoff_wait H a n y) = view y" for a n y
    by (induction n arbitrary: y) (simp_all add: case_prod_beta)
  have "view (handoff_walk H n offset y) = view y" for n offset y
    by (induction n arbitrary: offset y) (simp_all add: case_prod_beta w Let_def)
  then show ?thesis by (simp add: take_from_firmware_def)
qed

lemma view_port_reset: "view (snd (port_reset H p x)) = view x"
  by (auto simp: port_reset_def Let_def split: prod.split bool.split dest!: view_read view_waited)

lemma view_bring_up:
  "view (snd (xhci_reset H x)) = view x" "view (configure_scratchpad H x) = view x" "view (configure_rings H h x) = view x"
  "view (xhci_run H x) = view x"
proof -
  show "view (snd (xhci_reset H x)) = view x"
    by (auto simp: xhci_reset_def Let_def split: prod.split bool.split dest!: view_read view_waited)
  have "view (fold (\<lambda>i. act H (f i)) ks y) = view y" for f :: "nat \<Rightarrow> effect" and ks y
    by (induction ks arbitrary: y) simp_all
  then show "view (configure_scratchpad H x) = view x" by (simp add: configure_scratchpad_def Let_def case_prod_beta)
  show "view (configure_rings H h x) = view x" by (simp add: configure_rings_def Let_def)
  show "view (xhci_run H x) = view x" by (auto simp: xhci_run_def split: prod.split dest!: view_read)
qed

lemma xhci_new_view:
  assumes "xhci_new H d enabled = Some x"
  shows "indices_ok x" "device_count x = 0"
proof -
  obtain h1 h2 x0 where a: "xhci_attach H (bar0 d) enabled = ((h1, h2), x0)" by (metis prod.exhaust)
  have v: "view x0 = (replicate MAX_DEVICES device_slot_new, 0, 0, 0, 64) \<or> view x0 = (replicate MAX_DEVICES device_slot_new, 0, 0, 0, 32)"
    using a by (auto simp: xhci_attach_def view_def split: prod.splits)
  obtain ok y where r: "xhci_reset H (take_from_firmware H h2 x0) = (ok, y)" by fastforce
  have "view y = view x0" using view_bring_up(1) [of H "take_from_firmware H h2 x0"] r by simp
  moreover have "x = xhci_run H (configure_rings H h1 (configure_scratchpad H y))"
    using assms a r by (auto simp: xhci_new_def split: if_splits bool.splits)
  ultimately have x: "view x = view x0" by (simp add: view_bring_up)
  then show "indices_ok x" "device_count x = 0"
    using v by (auto simp: view_def indices_ok_def device_slot_new_def MAX_DEVICES_def RING_LEN_def numeral_2_eq_2)
qed

lemma collect_ports_view: "view (snd (collect_ports H ps ports x)) = view x"
  by (induction ps arbitrary: ports x) (auto simp: port_status_def split: prod.split dest!: view_read)

definition addressed :: "device_slot \<Rightarrow> bool" where
  "addressed s \<longleftrightarrow> 1 \<le> unat (ds_slot s) \<and> unat (ds_slot s) \<le> MAX_SLOTS \<and> ds_endpoint s AND 0x80 \<noteq> 0 \<and> \<not> ds_queued s \<and> \<not> ds_ready s"

definition roles_ok :: "usb_input \<Rightarrow> 'd xhci \<Rightarrow> bool" where
  "roles_ok us x \<longleftrightarrow>
     indices_ok x \<and> (\<forall>i. i < device_count x \<longrightarrow> addressed (xhci_devices x ! i)) \<and>
     (\<forall>i. usb_keyboard us = Some i \<or> usb_pointer us = Some i \<longrightarrow> i < device_count x) \<and>
     (usb_keyboard us = None \<or> usb_keyboard us \<noteq> usb_pointer us)"

lemma roles_ok_view: "roles_ok us x \<Longrightarrow> view y = view x \<Longrightarrow> roles_ok us y"
  using view_indices [of y x] by (auto simp: roles_ok_def view_def)

lemma enumerated_roles:
  assumes "roles_ok us x" "xhci_enumerate H p x = (r, y)"
  shows "roles_ok (case r of None \<Rightarrow> us | Some (i, hid) \<Rightarrow> take_role i (uh_kind hid) us) y"
proof -
  have x: "indices_ok x" using assms(1) by (simp add: roles_ok_def)
  note e = enumerating_established [OF assms(2) x]
  have y: "indices_ok y" using enumerating_beside [OF x assms(2)] by blast
  show ?thesis
  proof (cases r)
    case None
    then have "i < device_count x \<Longrightarrow> xhci_devices y ! i = xhci_devices x ! i" for i using e [of i] by auto
    then show ?thesis using None e assms(1) y by (auto simp: roles_ok_def)
  next
    case (Some kd)
    then obtain i d where kd: "kd = (i, d)" by fastforce
    have i: "i = device_count x" "device_count y = i + 1" "addressed (xhci_devices y ! i)"
      using e Some kd by (auto simp: addressed_def)
    have "j < i \<Longrightarrow> addressed (xhci_devices y ! j)" for j using e [of j] i(1) assms(1) by (auto simp: roles_ok_def)
    then have a: "j < i + 1 \<Longrightarrow> addressed (xhci_devices y ! j)" for j using i(3) less_Suc_eq by auto
    have "roles_ok us y" using a i y assms(1) by (auto simp: roles_ok_def)
    moreover have "usb_keyboard us \<noteq> Some i" "usb_pointer us \<noteq> Some i" using assms(1) i(1) by (auto simp: roles_ok_def)
    ultimately show ?thesis using i(2) by (auto simp: Some kd take_role_def roles_ok_def)
  qed
qed

lemma enumerate_ports_roles:
  assumes "roles_ok us x" "enumerate_ports H ps us x = (us', y)"
  shows "roles_ok us' y"
  using assms
proof (induction ps arbitrary: us x)
  case (Cons p ps)
  show ?case
  proof (cases "usb_keyboard us \<noteq> None \<and> usb_pointer us \<noteq> None")
    case True
    then show ?thesis using Cons.prems by simp
  next
    case False
    obtain ok z where r: "port_reset H p x = (ok, z)" by fastforce
    then have z: "roles_ok us z" using roles_ok_view [OF Cons.prems(1)] view_port_reset [of H p x] by simp
    obtain e w where n: "xhci_enumerate H p z = (e, w)" by fastforce
    from enumerated_roles [OF z n] Cons.IH show ?thesis
      using Cons.prems(2) False r n z by (cases ok; cases e) auto
  qed
qed simp

text \<open>
  C21. What the USB bring-up hands to the poll.  It succeeds only with a keyboard or a pointer; a role names a
  device that has been enumerated, the two roles never name the same one, and every enumerated device has a
  slot of its own number range, an endpoint towards the host, and neither a transfer in flight nor a report.
\<close>

theorem usb_roles_established:
  assumes "usb_bring_up H space enabled = Some (us, x)"
  shows "(usb_keyboard us \<noteq> None \<or> usb_pointer us \<noteq> None) \<and> roles_ok us x"
proof -
  from assms obtain d x0 ports x1 us1 where s: "xhci_new H d (enabled d) = Some x0"
    "collect_ports H (map of_nat [1..<unat (max_ports x0) + 1]) [] x0 = (ports, x1)" "enumerate_ports H ports usb_new x1 = (us, x)"
    "usb_keyboard us \<noteq> None \<or> usb_pointer us \<noteq> None"
    by (auto simp: usb_bring_up_def split: option.splits prod.splits if_splits)
  have "roles_ok usb_new x0" using xhci_new_view [OF s(1)] by (simp add: roles_ok_def usb_new_def)
  then have "roles_ok usb_new x1" using roles_ok_view collect_ports_view [of H _ "[]" x0] s(2) by (metis snd_conv)
  from enumerate_ports_roles [OF this s(3)] s(4) show ?thesis by blast
qed

text \<open>A machine with the controller of the sample, behind which the keyboard waits on port one.\<close>

definition usb_pci :: pci_space where
  "usb_pci a =
     (if a = config_address 0 4 0 0x00 then 0x000D1B36
      else if a = config_address 0 4 0 0x08 then 0x0C033000
      else if a = config_address 0 4 0 0x0C then 0
      else if a = config_address 0 4 0 0x10 then 0xFE000000
      else 0xFFFFFFFF)"

definition usb_controller :: pci_device where
  "usb_controller = \<lparr>pci_bus = 0, pci_slot = 4, pci_function = 0, pci_vendor = 0x1B36, pci_device_id = 0x000D,
     pci_class = 0x0C, pci_subclass = 0x03, pci_prog_if = 0x30, header_type = 0, bar0 = 0xFE000000\<rparr>"

lemma usb_controller_found: "pci_find usb_pci (\<lambda>d. usb_kind_of d = Some Xhci) = Some (Some usb_controller)"
  by code_simp

lemma unchanged_waits: "wait_for (\<lambda>x. (P x, x)) x = (P x, x)"
proof (cases "P x")
  case True
  then show ?thesis unfolding wait_for_def by (subst poll_loop_first) (simp_all add: POLLS_def)
next
  case False
  then show ?thesis unfolding wait_for_def by (subst poll_loop_stuck) simp_all
qed

lemma handoff_nowhere: "handoff_walk H n 0 x = x"
  by (cases n) simp_all

lemma keyboard_controller_up: "xhci_new keyboard_host usb_controller (hw sample_ready) = Some sample_ready"
proof -
  have r: "rd8 keyboard_host a x = (0x20, x)" for a x by (simp add: rd8_def keyboard_host_def)
  have l: "read32 keyboard_host a d = (keyboard_register a, d)" "read8 keyboard_host a d = (0x20, d)" for a d
    by (simp_all add: keyboard_host_def)
  note regs = XHCI_CAPLENGTH_def XHCI_HCSPARAMS1_def XHCI_HCSPARAMS2_def XHCI_HCCPARAMS1_def XHCI_DBOFF_def XHCI_RTSOFF_def
    XHCI_USBCMD_def XHCI_USBSTS_def keyboard_register_def XHCI_CMD_HCRST_def XHCI_STS_HCH_def XHCI_STS_CNR_def
  have d: "replicate MAX_DEVICES device_slot_new = [device_slot_new, device_slot_new]" by (simp add: MAX_DEVICES_def numeral_2_eq_2)
  have s: "sample_ready = sample_xhci (hw sample_ready)" by (simp add: sample_ready_def sample_xhci_def)
  have a: "xhci_attach keyboard_host 0xFE000000 (hw sample_ready) = ((0x04000008, 0), sample_ready)"
    by (subst (2) s) (simp add: xhci_attach_def l regs sample_xhci_def d)
  have p: "operational sample_ready = 0xFE000020" "xhci_base sample_ready = 0xFE000000" "scratchpad sample_ready = 0"
    by (simp_all add: sample_ready_def sample_xhci_def)
  have t: "take_from_firmware keyboard_host 0 x = x" for x by (simp add: take_from_firmware_def first_capability_def handoff_nowhere)
  have z: "sample_ready\<lparr>scratchpad := 0\<rparr> = sample_ready" by (simp add: sample_ready_def sample_xhci_def)
  show ?thesis
    by (simp add: xhci_new_def usb_controller_def a t xhci_reset_def Let_def unchanged_waits p regs configure_scratchpad_def
        scratchpad_wanted_def z configure_rings_def xhci_run_def MAX_SCRATCHPAD_def)
qed

lemma usb_roles_established_witness:
  "\<exists>x. usb_bring_up keyboard_host usb_pci (\<lambda>_. hw sample_ready) = Some (usb_new\<lparr>usb_keyboard := Some 0\<rparr>, x) \<and>
     roles_ok (usb_new\<lparr>usb_keyboard := Some 0\<rparr>) x"
proof -
  have p: "max_ports sample_ready = 4" "operational sample_ready = 0xFE000020" by (simp_all add: sample_ready_def sample_xhci_def)
  note regs = keyboard_register_def PORTSC_CCS_def PORTSC_PP_def PORTSC_PR_def PORTSC_PED_def XHCI_PORTSC_def
  have c: "collect_ports keyboard_host (map of_nat [1..<unat (max_ports sample_ready) + 1]) [] sample_ready = ([1], sample_ready)"
    by (simp add: p upt_conv_Cons port_status_def portsc_at_def regs)
  have r: "port_reset keyboard_host 1 sample_ready = (True, sample_ready)"
    by (simp add: port_reset_def portsc_at_def Let_def unchanged_waits p regs)
  obtain y where e: "xhci_enumerate keyboard_host 1 sample_ready =
      (Some (0, \<lparr>uh_kind = HidKeyboard, uh_vendor = 0x046D, uh_product = 0xC52B, uh_report_len = 8\<rparr>), y)"
    using keyboard_enumerates by (metis prod.collapse)
  have "usb_bring_up keyboard_host usb_pci (\<lambda>_. hw sample_ready) = Some (usb_new\<lparr>usb_keyboard := Some 0\<rparr>, y)"
    unfolding usb_bring_up_def usb_controller_found option.case keyboard_controller_up c prod.case
    by (simp add: r e usb_new_def take_role_def)
  with usb_roles_established [OF this] show ?thesis by blast
qed

end
